(* ===== verification/Prelude.thy ===== *)
theory Prelude
  imports
    "HOL-Library.Word"
    "HOL-Library.Char_ord"
    "HOL-Library.List_Lexorder"
    "HOL-Library.Product_Lexorder"
    "HOL-Library.AList"
begin

unbundle bit_operations_syntax

text \<open>
  Shared vocabulary of the OpenDB development: machine integer types, the C++ exceptions the
  sources throw, the result type that carries them, little-endian byte encodings (the
  shift loops and \<open>memcpy\<close> calls of the storage layer), decimal printing
  (\<open>std::to_string\<close>) and the collections of facts that the component theories feed
  to the simplifier.
\<close>

section \<open>Types\<close>

type_synonym u8 = "8 word"
type_synonym u16 = "16 word"
type_synonym u32 = "32 word"
type_synonym u64 = "64 word"
type_synonym bytes = "u8 list"

text \<open>
  The exceptions that the modelled code throws, and \<open>Undefined\<close> for an execution that the
  C++ standard gives no meaning: an iterator read past the end of its vector, a null
  \<open>unique_ptr\<close> dereferenced, a signed overflow.
\<close>

datatype exn =
    RuntimeError string
  | OutOfRange string
  | InvalidArgument string
  | Undefined

type_synonym 'a result = "exn + 'a"

primrec rbind :: "'a result \<Rightarrow> ('a \<Rightarrow> 'b result) \<Rightarrow> 'b result" where
  "rbind (Inl e) f = Inl e"
| "rbind (Inr x) f = f x"

named_theorems wire_simps \<open>encoders and decoders of the byte formats\<close>
named_theorems inv_intros \<open>preservation of component invariants\<close>

lemma rbind_Inr_iff: "rbind r f = Inr y \<longleftrightarrow> (\<exists>x. r = Inr x \<and> f x = Inr y)"
  by (cases r) auto

lemma rbind_Inl_iff: "rbind r f = Inl e \<longleftrightarrow> r = Inl e \<or> (\<exists>x. r = Inr x \<and> f x = Inl e)"
  by (cases r) auto

section \<open>Little-endian bytes\<close>

text \<open>
  \<open>for (int b = 0; b < n; ++b) out.push_back(uint8_t(i >> (8 * b)))\<close>, which is also what
  \<open>memcpy\<close> of an \<open>n\<close>-byte integer stores on the little-endian targets of the project.
\<close>

definition le_bytes :: "nat \<Rightarrow> 'a::len word \<Rightarrow> bytes" where
  "le_bytes n w = map (\<lambda>b. ucast (drop_bit (8 * b) w)) [0..<n]"

text \<open>\<open>for (int b = 0; b < n; ++b) i |= uintN_t(*iter++) << (8 * b)\<close>, in Horner form.\<close>

primrec le_word :: "bytes \<Rightarrow> 'a::len word" where
  "le_word [] = 0"
| "le_word (b # bs) = ucast b OR push_bit 8 (le_word bs)"

lemma length_le_bytes [simp, wire_simps]: "length (le_bytes n w) = n"
  by (simp add: le_bytes_def)

lemma le_bytes_0 [simp]: "le_bytes 0 w = []"
  by (simp add: le_bytes_def)

lemma le_bytes_Suc: "le_bytes (Suc n) w = ucast w # le_bytes n (drop_bit 8 w)"
proof -
  have "[0..<Suc n] = 0 # map Suc [0..<n]"
    by (simp add: upt_conv_Cons map_Suc_upt del: upt_Suc)
  then show ?thesis
    by (simp add: le_bytes_def drop_bit_drop_bit add.commute del: upt_Suc)
qed

lemma le_word_le_bytes_take: "le_word (le_bytes n w) = take_bit (8 * n) w"
proof (induction n arbitrary: w)
  case 0
  then show ?case by simp
next
  case (Suc n)
  have "ucast (ucast w :: u8) OR push_bit 8 (take_bit (8 * n) (drop_bit 8 w)) = take_bit (8 * Suc n) w"
    by (rule bit_word_eqI) (auto simp: bit_simps)
  then show ?case
    by (simp add: le_bytes_Suc Suc.IH)
qed

lemma le_word_le_bytes [wire_simps]:
  "LENGTH('a) \<le> 8 * n \<Longrightarrow> le_word (le_bytes n (w :: 'a::len word)) = w"
  by (simp add: le_word_le_bytes_take take_bit_word_eq_self)

text \<open>\<open>n\<close> bytes of \<open>data\<close> from \<open>off\<close> on; a read past the end has no defined result.\<close>

definition read_bytes :: "bytes \<Rightarrow> nat \<Rightarrow> nat \<Rightarrow> bytes result" where
  "read_bytes data off n =
     (if off + n \<le> length data then Inr (take n (drop off data)) else Inl Undefined)"

lemma read_bytes_append [wire_simps]:
  "off = length pre \<Longrightarrow> n = length bs \<Longrightarrow> read_bytes (pre @ bs @ rest) off n = Inr bs"
  by (simp add: read_bytes_def)

section \<open>Characters and decimal digits\<close>

definition byte_of_char :: "char \<Rightarrow> u8" where
  "byte_of_char c = of_nat (of_char c)"

definition char_of_byte :: "u8 \<Rightarrow> char" where
  "char_of_byte b = char_of (unat b)"

lemma of_char_lt_256: "(of_char c :: nat) < 256"
proof -
  have "(of_char c :: nat) mod 256 = of_char c" by simp
  then show ?thesis by (metis mod_less_divisor zero_less_numeral)
qed

lemma unat_byte_of_char [simp]: "unat (byte_of_char c) = of_char c"
  using of_char_lt_256 [of c] by (simp add: byte_of_char_def unat_of_nat)

lemma char_of_byte_of_char [simp, wire_simps]: "char_of_byte (byte_of_char c) = c"
  by (simp add: char_of_byte_def)

lemma map_char_of_byte_of_char [simp, wire_simps]:
  "map char_of_byte (map byte_of_char s) = s"
  by (simp add: comp_def map_idI)

lemma byte_of_char_less_iff [simp]: "byte_of_char c < byte_of_char d \<longleftrightarrow> c < d"
  by (simp add: word_less_nat_alt less_char_def)

definition digit_char :: "nat \<Rightarrow> char" where
  "digit_char d = char_of (48 + d)"

text \<open>\<open>std::to_string\<close> on integers.\<close>

fun show_nat :: "nat \<Rightarrow> string" where
  "show_nat n = (if n < 10 then [digit_char n] else show_nat (n div 10) @ [digit_char (n mod 10)])"

declare show_nat.simps [simp del]

definition show_int :: "int \<Rightarrow> string" where
  "show_int i = (if i < 0 then CHR ''-'' # show_nat (nat (- i)) else show_nat (nat i))"

definition is_digit :: "char \<Rightarrow> bool" where
  "is_digit c \<longleftrightarrow> CHR ''0'' \<le> c \<and> c \<le> CHR ''9''"

definition digit_val :: "char \<Rightarrow> nat" where
  "digit_val c = of_char c - 48"

definition read_nat :: "string \<Rightarrow> nat" where
  "read_nat s = foldl (\<lambda>n c. 10 * n + digit_val c) 0 s"

lemma of_char_digit_char: "d < 10 \<Longrightarrow> (of_char (digit_char d) :: nat) = 48 + d"
  by (simp add: digit_char_def)

lemma digit_val_digit_char [simp]: "d < 10 \<Longrightarrow> digit_val (digit_char d) = d"
  by (simp add: digit_val_def of_char_digit_char)

lemma is_digit_digit_char [simp]: "d < 10 \<Longrightarrow> is_digit (digit_char d)"
  by (simp add: is_digit_def less_eq_char_def of_char_digit_char)

lemma show_nat_digits: "\<forall>c \<in> set (show_nat n). is_digit c"
proof (induction n rule: show_nat.induct)
  case (1 n)
  then show ?case by (cases "n < 10") (auto simp: show_nat.simps [of n])
qed

lemma show_nat_nonempty [simp]: "show_nat n \<noteq> []"
  by (subst show_nat.simps) simp

lemma read_nat_show_nat [simp]: "read_nat (show_nat n) = n"
proof (induction n rule: show_nat.induct)
  case (1 n)
  then show ?case
    by (cases "n < 10") (auto simp: show_nat.simps [of n] read_nat_def)
qed

lemma show_nat_inj: "show_nat m = show_nat n \<longleftrightarrow> m = n"
  by (metis read_nat_show_nat)

section \<open>Word facts\<close>

text \<open>A loop counter or a size that fits its type is unchanged by the conversion.\<close>

lemma unat_of_nat_u32 [simp]: "n < 2 ^ 32 \<Longrightarrow> unat (of_nat n :: u32) = n"
  by (simp add: unat_of_nat)

lemma unat_of_nat_u64 [simp]: "n < 2 ^ 64 \<Longrightarrow> unat (of_nat n :: u64) = n"
  by (simp add: unat_of_nat)

end
