(* ===== verification/Doubles.thy ===== *)
theory Doubles
  imports Prelude
begin

text \<open>
  The C++ type \<open>double\<close> as its IEEE 754 binary64 bit pattern. Modelled are the parts
  that the sources use: the comparisons \<open><\<close> and \<open>==\<close> (a NaN compares false with
  everything, the two zeros are equal), the conversion from integers with round-to-nearest-even
  (\<open>static_cast<double>\<close>) and the text of \<open>std::to_string\<close> (\<open>printf("%f")\<close>).
\<close>

type_synonym double = u64

section \<open>Comparison\<close>

definition d_mag :: "double \<Rightarrow> nat" where
  "d_mag d = unat (take_bit 63 d)"

definition d_neg :: "double \<Rightarrow> bool" where
  "d_neg d = bit d 63"

definition d_inf_mag :: nat where
  "d_inf_mag = 2047 * 2 ^ 52"

definition d_isnan :: "double \<Rightarrow> bool" where
  "d_isnan d \<longleftrightarrow> d_inf_mag < d_mag d"

text \<open>Sign and magnitude read as one integer order the non-NaN doubles numerically.\<close>

definition d_key :: "double \<Rightarrow> int" where
  "d_key d = (if d_neg d then - int (d_mag d) else int (d_mag d))"

definition d_less :: "double \<Rightarrow> double \<Rightarrow> bool" where
  "d_less a b \<longleftrightarrow> \<not> d_isnan a \<and> \<not> d_isnan b \<and> d_key a < d_key b"

definition d_eq :: "double \<Rightarrow> double \<Rightarrow> bool" where
  "d_eq a b \<longleftrightarrow> \<not> d_isnan a \<and> \<not> d_isnan b \<and> d_key a = d_key b"

section \<open>Conversion from integers\<close>

fun flog2 :: "nat \<Rightarrow> nat" where
  "flog2 n = (if n < 2 then 0 else Suc (flog2 (n div 2)))"

declare flog2.simps [simp del]

text \<open>\<open>p / q\<close> rounded to the nearest integer, ties to even.\<close>

definition rne_div :: "nat \<Rightarrow> nat \<Rightarrow> nat" where
  "rne_div p q =
     (let d = p div q; r = p mod q
      in if 2 * r < q \<or> (2 * r = q \<and> even d) then d else Suc d)"

text \<open>The 53-bit significand of \<open>n\<close> (exact up to \<open>2^53\<close>, rounded above) and the magnitude.\<close>

definition significand :: "nat \<Rightarrow> nat" where
  "significand n =
     (let e = flog2 n in if e \<le> 52 then n * 2 ^ (52 - e) else rne_div n (2 ^ (e - 52)))"

definition mag_of_nat :: "nat \<Rightarrow> nat" where
  "mag_of_nat n = (if n = 0 then 0 else (flog2 n + 1022) * 2 ^ 52 + significand n)"

definition double_of_int :: "int \<Rightarrow> double" where
  "double_of_int i =
     (if i < 0 then set_bit 63 (of_nat (mag_of_nat (nat (- i)))) else of_nat (mag_of_nat (nat i)))"

section \<open>Text\<close>

definition pad_left :: "char \<Rightarrow> nat \<Rightarrow> string \<Rightarrow> string" where
  "pad_left c w s = replicate (w - length s) c @ s"

text \<open>
  \<open>printf("%f")\<close>: the exact value in millionths, rounded to nearest with ties to even.
  The significand and exponent of a finite double are those of the encoding.
\<close>

definition d_micros :: "nat \<Rightarrow> nat" where
  "d_micros mag =
     (let E = mag div 2 ^ 52; f = mag mod 2 ^ 52;
          m = (if E = 0 then f else 2 ^ 52 + f); e = (if E = 0 then 1 else E)
      in if 1075 \<le> e then m * 10 ^ 6 * 2 ^ (e - 1075) else rne_div (m * 10 ^ 6) (2 ^ (1075 - e)))"

definition d_show :: "double \<Rightarrow> string" where
  "d_show d =
     (if d_neg d then ''-'' else []) @
     (if d_isnan d then ''nan''
      else if d_mag d = d_inf_mag then ''inf''
      else let n = d_micros (d_mag d)
           in show_nat (n div 10 ^ 6) @ ''.'' @ pad_left (CHR ''0'') 6 (show_nat (n mod 10 ^ 6)))"

section \<open>Laws of the comparison\<close>

lemma d_less_irrefl: "\<not> d_less a a"
  by (simp add: d_less_def)

lemma d_less_trans: "d_less a b \<Longrightarrow> d_less b c \<Longrightarrow> d_less a c"
  by (simp add: d_less_def)

lemma d_less_negtrans:
  "\<not> d_isnan a \<Longrightarrow> \<not> d_isnan b \<Longrightarrow> \<not> d_isnan c \<Longrightarrow> \<not> d_less a b \<Longrightarrow> \<not> d_less b c \<Longrightarrow> \<not> d_less a c"
  by (simp add: d_less_def)

section \<open>The conversion is monotone, and exact up to 2^53\<close>

lemma flog2_bounds: "0 < n \<Longrightarrow> 2 ^ flog2 n \<le> n \<and> n < 2 ^ Suc (flog2 n)"
proof (induction n rule: flog2.induct)
  case (1 n)
  show ?case
  proof (cases "n < 2")
    case True
    with 1 show ?thesis by (simp add: flog2.simps [of n])
  next
    case False
    with 1 have "2 ^ flog2 (n div 2) \<le> n div 2" "n div 2 < 2 ^ Suc (flog2 (n div 2))" by auto
    then have "2 ^ Suc (flog2 (n div 2)) \<le> n" "n < 2 ^ Suc (Suc (flog2 (n div 2)))" by auto
    with False show ?thesis by (simp add: flog2.simps [of n])
  qed
qed

lemma flog2_mono: "0 < m \<Longrightarrow> m \<le> n \<Longrightarrow> flog2 m \<le> flog2 n"
proof -
  assume m: "0 < m" "m \<le> n"
  have "(2::nat) ^ flog2 m < 2 ^ Suc (flog2 n)"
    using flog2_bounds [of m] flog2_bounds [of n] m by linarith
  then have "flog2 m < Suc (flog2 n)" by (rule power_less_imp_less_exp [rotated]) simp
  then show ?thesis by simp
qed

lemma rne_div_mono: "p \<le> p' \<Longrightarrow> rne_div p q \<le> rne_div p' q"
proof (cases "q = 0")
  case True
  assume "p \<le> p'"
  with True show ?thesis by (auto simp: rne_div_def Let_def)
next
  case False
  assume le: "p \<le> p'"
  have d: "p div q \<le> p' div q" using le by (rule div_le_mono)
  show ?thesis
  proof (cases "p div q = p' div q")
    case True
    then have "p mod q \<le> p' mod q"
      using le by (metis add_le_cancel_left div_mult_mod_eq)
    with True show ?thesis by (auto simp: rne_div_def Let_def)
  next
    case False
    with d show ?thesis by (auto simp: rne_div_def Let_def)
  qed
qed

lemma rne_div_exact: "0 < q \<Longrightarrow> rne_div (k * q) q = k"
  by (simp add: rne_div_def)

lemma significand_bounds: "0 < n \<Longrightarrow> 2 ^ 52 \<le> significand n \<and> significand n \<le> 2 ^ 53"
proof -
  assume n: "0 < n"
  define e where "e = flog2 n"
  have b: "2 ^ e \<le> n" "n < 2 ^ Suc e" using flog2_bounds [OF n] by (auto simp: e_def)
  show ?thesis
  proof (cases "e \<le> 52")
    case True
    have lo: "(2::nat) ^ 52 = 2 ^ e * 2 ^ (52 - e)" using True by (simp flip: power_add)
    have hi: "(2::nat) ^ 53 = 2 ^ Suc e * 2 ^ (52 - e)" using True by (simp flip: power_Suc power_add)
    have "2 ^ 52 \<le> n * 2 ^ (52 - e)" unfolding lo using b(1) by (rule mult_le_mono1)
    moreover have "n * 2 ^ (52 - e) \<le> 2 ^ 53" unfolding hi using less_imp_le [OF b(2)] by (rule mult_le_mono1)
    ultimately show ?thesis using True by (simp add: significand_def Let_def flip: e_def)
  next
    case False
    let ?q = "(2::nat) ^ (e - 52)"
    have lo: "(2::nat) ^ e = 2 ^ 52 * ?q" using False by (subst power_add [symmetric]) simp
    have "rne_div (2 ^ 52 * ?q) ?q \<le> rne_div n ?q"
      using b(1) unfolding lo by (rule rne_div_mono)
    moreover have "n \<le> 2 ^ 53 * ?q" using b(2) unfolding power_Suc lo by simp
    then have "rne_div n ?q \<le> rne_div (2 ^ 53 * ?q) ?q" by (rule rne_div_mono)
    ultimately show ?thesis
      using False by (simp add: significand_def Let_def rne_div_exact flip: e_def)
  qed
qed

lemma significand_mono:
  "flog2 m = flog2 n \<Longrightarrow> m \<le> n \<Longrightarrow> significand m \<le> significand n"
  by (simp add: significand_def Let_def rne_div_mono)

lemma mag_of_nat_mono: "m \<le> n \<Longrightarrow> mag_of_nat m \<le> mag_of_nat n"
proof (cases "m = 0")
  case True
  then show ?thesis by (simp add: mag_of_nat_def)
next
  case False
  assume le: "m \<le> n"
  with False have pos: "0 < m" "0 < n" by auto
  show ?thesis
  proof (cases "flog2 m = flog2 n")
    case True
    with significand_mono [OF True le] pos show ?thesis by (simp add: mag_of_nat_def)
  next
    case False
    with flog2_mono [OF pos(1) le] have "Suc (flog2 m) \<le> flog2 n" by simp
    then have "(flog2 m + 1022) * 2 ^ 52 + 2 ^ 53 \<le> (flog2 n + 1022) * 2 ^ 52 + (2 ^ 52 :: nat)"
      by simp
    moreover have "significand m \<le> 2 ^ 53" "2 ^ 52 \<le> significand n"
      using significand_bounds pos by blast+
    ultimately show ?thesis using pos unfolding mag_of_nat_def by simp
  qed
qed

lemma significand_less: "0 < n \<Longrightarrow> n < 2 ^ 53 \<Longrightarrow> significand n = n * 2 ^ (52 - flog2 n) \<and> significand n < 2 ^ 53"
proof -
  assume n: "0 < n" "n < 2 ^ 53"
  then have "(2::nat) ^ flog2 n < 2 ^ 53" using flog2_bounds [of n] by linarith
  then have e: "flog2 n < 53" by (rule power_less_imp_less_exp [rotated]) simp
  have hi: "(2::nat) ^ 53 = 2 ^ Suc (flog2 n) * 2 ^ (52 - flog2 n)" using e by (simp flip: power_Suc power_add)
  have "n * 2 ^ (52 - flog2 n) < 2 ^ 53"
    unfolding hi by (rule mult_less_mono1) (use flog2_bounds [OF n(1)] in simp_all)
  with e show ?thesis by (simp add: significand_def Let_def)
qed

lemma mag_of_nat_strict:
  assumes "m < n" "n \<le> 2 ^ 53"
  shows "mag_of_nat m < mag_of_nat n"
proof (cases "m = 0")
  case True
  then show ?thesis using assms by (simp add: mag_of_nat_def)
next
  case False
  with assms have pos: "0 < m" "0 < n" "m < 2 ^ 53" by auto
  note sm = significand_less [OF pos(1,3)]
  show ?thesis
  proof (cases "flog2 m = flog2 n")
    case True
    have "n < 2 ^ 53"
    proof (rule ccontr)
      assume "\<not> n < 2 ^ 53"
      with assms have "n = 2 ^ 53" by simp
      then have "2 ^ 53 < (2::nat) ^ Suc (flog2 m)" using flog2_bounds [of n] True by simp
      then have "53 < Suc (flog2 m)" by (rule power_less_imp_less_exp [rotated]) simp
      then have "(2::nat) ^ 53 \<le> 2 ^ flog2 m" by (intro power_increasing) auto
      then show False using flog2_bounds [OF pos(1)] pos(3) by linarith
    qed
    with pos have "significand n = n * 2 ^ (52 - flog2 n)" using significand_less by blast
    with sm True assms have "significand m < significand n" by simp
    with pos True show ?thesis by (simp add: mag_of_nat_def)
  next
    case False
    with flog2_mono [of m n] pos assms have "Suc (flog2 m) \<le> flog2 n" by simp
    then have "(flog2 m + 1022) * 2 ^ 52 + 2 ^ 53 \<le> (flog2 n + 1022) * 2 ^ 52 + (2 ^ 52 :: nat)"
      by simp
    moreover have "2 ^ 52 \<le> significand n" using significand_bounds pos by blast
    ultimately show ?thesis using pos sm unfolding mag_of_nat_def by simp
  qed
qed

lemma mag_of_nat_bound: "n < 2 ^ 64 \<Longrightarrow> mag_of_nat n < d_inf_mag"
proof -
  assume n: "n < 2 ^ 64"
  have "mag_of_nat n \<le> (63 + 1022) * 2 ^ 52 + 2 ^ 53"
  proof (cases "n = 0")
    case False
    then have "(2::nat) ^ flog2 n < 2 ^ 64" using flog2_bounds [of n] n by linarith
    then have "flog2 n < 64" by (rule power_less_imp_less_exp [rotated]) simp
    moreover have "significand n \<le> 2 ^ 53" using significand_bounds False by blast
    ultimately show ?thesis using False by (simp add: mag_of_nat_def)
  qed (simp add: mag_of_nat_def)
  then show ?thesis by (simp add: d_inf_mag_def)
qed

lemma d_mag_of_nat:
  assumes "m < 2 ^ 63"
  shows "d_mag (of_nat m) = m" "\<not> d_neg (of_nat m)" "d_mag (set_bit 63 (of_nat m)) = m" "d_neg (set_bit 63 (of_nat m))"
proof -
  have t: "take_bit 63 (of_nat m :: u64) = of_nat m"
    by (rule word_unat_eq_iff [THEN iffD2]) (use assms in \<open>simp add: unsigned_take_bit_eq unat_of_nat take_bit_nat_def\<close>)
  have u: "unat (of_nat m :: u64) = m" using assms by (simp add: unat_of_nat)
  show "d_mag (of_nat m) = m" using t u by (simp add: d_mag_def)
  have "take_bit 63 (set_bit 63 (of_nat m :: u64)) = take_bit 63 (of_nat m)"
    by (rule bit_word_eqI) (auto simp: bit_simps)
  then show "d_mag (set_bit 63 (of_nat m)) = m" using t u by (simp add: d_mag_def)
  show "d_neg (set_bit 63 (of_nat m))" by (simp add: d_neg_def bit_simps)
  show "\<not> d_neg (of_nat m)"
    using arg_cong [OF t, of "\<lambda>w. bit w 63"] by (simp add: d_neg_def bit_simps)
qed

lemma d_key_double_of_int:
  assumes "\<bar>i\<bar> < 2 ^ 64"
  shows "d_key (double_of_int i) = (if i < 0 then - int (mag_of_nat (nat (- i))) else int (mag_of_nat (nat i)))"
    and "\<not> d_isnan (double_of_int i)"
proof -
  let ?n = "nat \<bar>i\<bar>"
  have b: "mag_of_nat ?n < d_inf_mag" by (rule mag_of_nat_bound) (use assms in \<open>simp add: nat_less_iff\<close>)
  then have b': "mag_of_nat ?n < 2 ^ 63" by (simp add: d_inf_mag_def)
  note m = d_mag_of_nat [OF b']
  show "d_key (double_of_int i) = (if i < 0 then - int (mag_of_nat (nat (- i))) else int (mag_of_nat (nat i)))"
    using m by (auto simp: d_key_def double_of_int_def)
  show "\<not> d_isnan (double_of_int i)"
    using m b by (auto simp: d_isnan_def double_of_int_def)
qed

lemma d_key_mono:
  "\<bar>i\<bar> < 2 ^ 64 \<Longrightarrow> \<bar>j\<bar> < 2 ^ 64 \<Longrightarrow> i \<le> j \<Longrightarrow> d_key (double_of_int i) \<le> d_key (double_of_int j)"
  using mag_of_nat_mono [of "nat i" "nat j"] mag_of_nat_mono [of "nat (- j)" "nat (- i)"]
  by (auto simp: d_key_double_of_int)

lemma mag_of_nat_pos: "0 < n \<Longrightarrow> 0 < mag_of_nat n"
  by (simp add: mag_of_nat_def)

lemma d_key_strict:
  "\<bar>i\<bar> \<le> 2 ^ 53 \<Longrightarrow> \<bar>j\<bar> \<le> 2 ^ 53 \<Longrightarrow> i < j \<Longrightarrow> d_key (double_of_int i) < d_key (double_of_int j)"
  using mag_of_nat_strict [of "nat i" "nat j"] mag_of_nat_strict [of "nat (- j)" "nat (- i)"]
    mag_of_nat_pos [of "nat (- i)"]
  by (auto simp: d_key_double_of_int)

end
