(* ===== verification/Std_Containers.thy ===== *)
theory Std_Containers
  imports Prelude "HOL-Library.Multiset"
begin

text \<open>
  The parts of the C++ standard library that the sources rely on for order:
  \<open>std::map\<close> as an association list that is strictly ascending in its comparator, and the
  contract of \<open>std::sort\<close>. Both demand a strict weak ordering (the locale
  \<open>strict_weak_order\<close>); the component that owns the comparator discharges it by an
  interpretation and receives the container laws from here.
\<close>

section \<open>std::map\<close>

text \<open>\<open>find\<close>: the first key that is not less than \<open>k\<close>, if \<open>k\<close> is not less than it.\<close>

fun map_find :: "('k \<Rightarrow> 'k \<Rightarrow> bool) \<Rightarrow> 'k \<Rightarrow> ('k \<times> 'v) list \<Rightarrow> 'v option" where
  "map_find lt k [] = None"
| "map_find lt k ((a, v) # m) =
     (if lt a k then map_find lt k m else if lt k a then None else Some v)"

text \<open>
  \<open>m[k]\<close> used as an l-value: the entry is created with the default \<open>d\<close> when missing
  and then modified by \<open>f\<close>; an equivalent key already in the map is kept.
\<close>

fun map_adjust ::
  "('k \<Rightarrow> 'k \<Rightarrow> bool) \<Rightarrow> 'k \<Rightarrow> 'v \<Rightarrow> ('v \<Rightarrow> 'v) \<Rightarrow> ('k \<times> 'v) list \<Rightarrow> ('k \<times> 'v) list" where
  "map_adjust lt k d f [] = [(k, f d)]"
| "map_adjust lt k d f ((a, v) # m) =
     (if lt a k then (a, v) # map_adjust lt k d f m
      else if lt k a then (k, f d) # (a, v) # m
      else (a, f v) # m)"

section \<open>Strict weak orderings\<close>

locale strict_weak_order =
  fixes ok :: "'k \<Rightarrow> bool"
    and lt :: "'k \<Rightarrow> 'k \<Rightarrow> bool"
  assumes irrefl: "ok x \<Longrightarrow> \<not> lt x x"
    and trans: "\<lbrakk>ok x; ok y; ok z; lt x y; lt y z\<rbrakk> \<Longrightarrow> lt x z"
    and negtrans: "\<lbrakk>ok x; ok y; ok z; \<not> lt x y; \<not> lt y z\<rbrakk> \<Longrightarrow> \<not> lt x z"
begin

definition eqv :: "'k \<Rightarrow> 'k \<Rightarrow> bool" where
  "eqv x y \<longleftrightarrow> \<not> lt x y \<and> \<not> lt y x"

definition ascending :: "('k \<times> 'v) list \<Rightarrow> bool" where
  "ascending m \<longleftrightarrow> sorted_wrt lt (map fst m) \<and> (\<forall>k \<in> fst ` set m. ok k)"

lemma asym: "\<lbrakk>ok x; ok y; lt x y\<rbrakk> \<Longrightarrow> \<not> lt y x"
  using irrefl trans by blast

lemma eqv_refl: "ok x \<Longrightarrow> eqv x x"
  by (simp add: eqv_def irrefl)

lemma eqv_sym: "eqv x y \<Longrightarrow> eqv y x"
  by (simp add: eqv_def)

lemma eqv_trans: "\<lbrakk>ok x; ok y; ok z; eqv x y; eqv y z\<rbrakk> \<Longrightarrow> eqv x z"
  unfolding eqv_def using negtrans by blast

lemma eqv_lt_left: "\<lbrakk>ok x; ok y; ok z; eqv x y\<rbrakk> \<Longrightarrow> lt x z \<longleftrightarrow> lt y z"
  unfolding eqv_def using negtrans by blast

lemma eqv_lt_right: "\<lbrakk>ok x; ok y; ok z; eqv x y\<rbrakk> \<Longrightarrow> lt z x \<longleftrightarrow> lt z y"
  unfolding eqv_def using negtrans by blast

lemma ascending_Nil [simp]: "ascending []"
  by (simp add: ascending_def)

lemma ascending_Cons:
  "ascending ((a, v) # m) \<longleftrightarrow> ok a \<and> (\<forall>k \<in> fst ` set m. lt a k) \<and> ascending m"
  by (auto simp: ascending_def)

lemma ascending_filter: "ascending m \<Longrightarrow> ascending (filter P m)"
proof (induction m)
  case Nil
  then show ?case by simp
next
  case (Cons e m)
  then show ?case by (cases e) (auto simp: ascending_Cons)
qed

lemma ascending_map_snd: "ascending (map (\<lambda>(a, v). (a, g v)) m) \<longleftrightarrow> ascending m"
proof (induction m)
  case Nil
  then show ?case by (simp add: ascending_def)
next
  case (Cons e m)
  have "fst ` set (map (\<lambda>(a, v). (a, g v)) m) = fst ` set m" by force
  with Cons show ?case by (cases e) (simp add: ascending_Cons)
qed

lemma find_ascending_None:
  "\<lbrakk>ok k; ok a; lt k a \<or> eqv k a; \<forall>x \<in> fst ` set m. ok x \<and> lt a x\<rbrakk> \<Longrightarrow> map_find lt k m = None"
proof (cases m)
  case Nil
  then show ?thesis by simp
next
  case (Cons e m')
  assume k: "ok k" "ok a" "lt k a \<or> eqv k a" and m: "\<forall>x \<in> fst ` set m. ok x \<and> lt a x"
  obtain b v where e: "e = (b, v)" by (cases e)
  have b: "ok b" "lt a b" using m Cons e by auto
  have "lt k b" using k b trans eqv_lt_left by blast
  moreover have "\<not> lt b k" using calculation k b asym by blast
  ultimately show ?thesis using Cons e by simp
qed

lemma find_Cons:
  assumes "ascending ((a, v) # m)" "ok k"
  shows "map_find lt k ((a, v) # m) = (if eqv k a then Some v else map_find lt k m)"
proof -
  have a: "ok a" "\<forall>x \<in> fst ` set m. ok x \<and> lt a x"
    using assms by (auto simp: ascending_def)
  consider "lt a k" | "lt k a" | "eqv k a" by (auto simp: eqv_def)
  then show ?thesis
  proof cases
    case 1
    then show ?thesis by (simp add: eqv_def)
  next
    case 2
    then have "map_find lt k m = None" using find_ascending_None [OF assms(2) a(1)] a(2) by blast
    moreover have "\<not> lt a k" using 2 a assms(2) asym by blast
    ultimately show ?thesis using 2 by (simp add: eqv_def)
  next
    case 3
    then show ?thesis by (simp add: eqv_def)
  qed
qed

lemma find_eqv:
  assumes "ascending m" "ok k" "ok k'" "eqv k k'"
  shows "map_find lt k m = map_find lt k' m"
  using assms(1)
proof (induction m)
  case Nil
  then show ?case by simp
next
  case (Cons e m)
  obtain a v where e: "e = (a, v)" by (cases e)
  with Cons.prems have a: "ok a" "ascending m" by (auto simp: ascending_Cons)
  have "eqv k a \<longleftrightarrow> eqv k' a" using assms a eqv_trans eqv_sym by blast
  then show ?case using Cons e a assms(2,3) by (simp add: find_Cons del: map_find.simps)
qed

lemma keys_adjust: "fst ` set (map_adjust lt k d f m) \<subseteq> insert k (fst ` set m)"
  by (induction lt k d f m rule: map_adjust.induct) auto

lemma ascending_adjust:
  assumes "ascending m" "ok k"
  shows "ascending (map_adjust lt k d f m)"
  using assms(1)
proof (induction m)
  case Nil
  then show ?case using assms(2) by (simp add: ascending_Cons)
next
  case (Cons e m)
  obtain a v where e: "e = (a, v)" by (cases e)
  with Cons.prems have a: "ok a" "ascending m" "\<forall>x \<in> fst ` set m. lt a x" "\<forall>x \<in> fst ` set m. ok x"
    by (auto simp: ascending_Cons ascending_def)
  then have asc: "ascending (map_adjust lt k d f m)" using Cons.IH by blast
  consider "lt a k" | "\<not> lt a k" "lt k a" | "\<not> lt a k" "\<not> lt k a" by blast
  then show ?case
  proof cases
    case 1
    have "\<forall>x \<in> fst ` set (map_adjust lt k d f m). lt a x"
      using keys_adjust [of k d f m] a(3) 1 by blast
    then show ?thesis using 1 e a(1) asc by (simp add: ascending_Cons)
  next
    case 2
    have "\<forall>x \<in> fst ` set m. lt k x" using 2 a assms(2) trans by blast
    then show ?thesis using 2 e a assms(2) by (simp add: ascending_Cons)
  next
    case 3
    then show ?thesis using e a by (simp add: ascending_Cons)
  qed
qed

lemma find_adjust:
  assumes "ascending m" "ok k" "ok k'"
  shows "map_find lt k' (map_adjust lt k d f m) =
    (if eqv k k' then Some (f (case map_find lt k m of None \<Rightarrow> d | Some v \<Rightarrow> v))
     else map_find lt k' m)"
  using assms(1)
proof (induction m)
  case Nil
  then show ?case by (auto simp: eqv_def)
next
  case (Cons e m)
  obtain a v where e: "e = (a, v)" by (cases e)
  with Cons.prems have a: "ok a" "ascending m" by (auto simp: ascending_Cons)
  have asc: "ascending (map_adjust lt k d f (e # m))"
    by (rule ascending_adjust [OF Cons.prems assms(2)])
  have trans_a: "eqv k k' \<Longrightarrow> eqv k a \<longleftrightarrow> eqv k' a"
    using a(1) assms(2,3) by (metis eqv_trans eqv_sym)
  have split_a: "\<not> eqv k k' \<Longrightarrow> \<not> (eqv k a \<and> eqv k' a)"
    using a(1) assms(2,3) by (metis eqv_trans eqv_sym)
  have fk: "map_find lt x ((a, v) # m) = (if eqv x a then Some v else map_find lt x m)" if "ok x" for x
    using Cons.prems unfolding e by (rule find_Cons [OF _ that])
  have IH: "map_find lt k' (map_adjust lt k d f m) =
    (if eqv k k' then Some (f (case map_find lt k m of None \<Rightarrow> d | Some v \<Rightarrow> v)) else map_find lt k' m)"
    using Cons.IH a by blast
  consider "lt a k" | "\<not> lt a k" "lt k a" | "eqv k a" by (auto simp: eqv_def)
  then show ?case
  proof cases
    case 1
    then have n: "\<not> eqv k a" by (simp add: eqv_def)
    have "map_adjust lt k d f (e # m) = (a, v) # map_adjust lt k d f m" using 1 e by simp
    then have "map_find lt k' (map_adjust lt k d f (e # m)) =
      (if eqv k' a then Some v else map_find lt k' (map_adjust lt k d f m))"
      using find_Cons asc assms(3) by metis
    then show ?thesis using IH n trans_a fk assms(2,3) e by (simp del: map_find.simps)
  next
    case 2
    have n: "map_find lt k (e # m) = None" using 2 e by simp
    have "map_adjust lt k d f (e # m) = (k, f d) # e # m" using 2 e by simp
    then have "map_find lt k' (map_adjust lt k d f (e # m)) =
      (if eqv k' k then Some (f d) else map_find lt k' (e # m))"
      using find_Cons asc assms(3) by metis
    then show ?thesis using n eqv_sym by (auto simp del: map_find.simps)
  next
    case 3
    then have "map_adjust lt k d f (e # m) = (a, f v) # m" using e by (simp add: eqv_def)
    then have "map_find lt k' (map_adjust lt k d f (e # m)) =
      (if eqv k' a then Some (f v) else map_find lt k' m)"
      using find_Cons asc assms(3) by metis
    then show ?thesis using 3 e fk assms(2,3) trans_a split_a by (simp del: map_find.simps)
  qed
qed

lemma find_map_snd: "map_find lt k (map (\<lambda>(a, v). (a, g v)) m) = map_option g (map_find lt k m)"
  by (induction lt k m rule: map_find.induct) auto

lemma find_filter:
  assumes "ascending m" "ok k"
  shows "map_find lt k (filter (\<lambda>(a, v). P v) m) =
    (case map_find lt k m of None \<Rightarrow> None | Some v \<Rightarrow> if P v then Some v else None)"
  using assms(1)
proof (induction m)
  case Nil
  then show ?case by simp
next
  case (Cons e m)
  obtain a v where e: "e = (a, v)" by (cases e)
  with Cons.prems have a: "ok a" "ascending m" "\<forall>x \<in> fst ` set m. ok x \<and> lt a x"
    by (auto simp: ascending_Cons ascending_def)
  have asc: "ascending (filter (\<lambda>(a, v). P v) (e # m))"
    using ascending_filter Cons.prems by blast
  have "eqv k a \<Longrightarrow> map_find lt k m = None"
    using find_ascending_None [OF assms(2) a(1)] a(3) by blast
  then show ?case
    using Cons e a asc assms(2)
    by (cases "P v") (auto simp: find_Cons simp del: map_find.simps)
qed

lemma find_SomeD: "map_find lt k m = Some v \<Longrightarrow> \<exists>a. (a, v) \<in> set m \<and> eqv k a"
proof (induction m)
  case Nil
  then show ?case by simp
next
  case (Cons e m)
  then show ?case by (cases e) (auto simp: eqv_def split: if_splits)
qed

lemma find_mem:
  assumes "ascending m" "(a, v) \<in> set m"
  shows "map_find lt a m = Some v"
  using assms
proof (induction m)
  case Nil
  then show ?case by simp
next
  case (Cons e m)
  obtain b w where e: "e = (b, w)" by (cases e)
  with Cons.prems have b: "ok b" "ascending m" "\<forall>x \<in> fst ` set m. lt b x" "\<forall>x \<in> fst ` set m. ok x"
    by (auto simp: ascending_Cons ascending_def)
  show ?case
  proof (cases "(a, v) = e")
    case True
    then show ?thesis using e b irrefl by simp
  next
    case False
    then have "(a, v) \<in> set m" using Cons.prems by simp
    then have "lt b a" "map_find lt a m = Some v" using b Cons.IH by force+
    then show ?thesis using e by simp
  qed
qed

end

text \<open>Comparators that fall through to the next criterion compose.\<close>

lemma strict_weak_order_never: "strict_weak_order ok (\<lambda>x y. False)"
  by unfold_locales auto

lemma strict_weak_order_lex:
  assumes "strict_weak_order ok lt1" "strict_weak_order ok lt2"
  shows "strict_weak_order ok (\<lambda>x y. lt1 x y \<or> \<not> lt1 y x \<and> lt2 x y)"
proof
  fix x y z
  show "\<not> (lt1 x x \<or> \<not> lt1 x x \<and> lt2 x x)" if "ok x"
    using that assms [THEN strict_weak_order.irrefl] by blast
  show "lt1 x z \<or> \<not> lt1 z x \<and> lt2 x z"
    if "ok x" "ok y" "ok z" "lt1 x y \<or> \<not> lt1 y x \<and> lt2 x y" "lt1 y z \<or> \<not> lt1 z y \<and> lt2 y z"
    using that assms [THEN strict_weak_order.trans] assms(1) [THEN strict_weak_order.negtrans] by meson
  show "\<not> (lt1 x z \<or> \<not> lt1 z x \<and> lt2 x z)"
    if "ok x" "ok y" "ok z" "\<not> (lt1 x y \<or> \<not> lt1 y x \<and> lt2 x y)" "\<not> (lt1 y z \<or> \<not> lt1 z y \<and> lt2 y z)"
  proof -
    note n1 = strict_weak_order.negtrans [OF assms(1)] and n2 = strict_weak_order.negtrans [OF assms(2)]
    have "\<not> lt1 x z" using n1 [of x y z] that(1-5) by simp
    moreover have "lt1 z x \<or> \<not> lt2 x z"
      using n1 [of y z x] n1 [of z x y] n2 [of x y z] that(1-5) by argo
    ultimately show ?thesis by simp
  qed
qed

lemma strict_weak_order_image:
  assumes "strict_weak_order ok lt" "\<And>x. ok' x \<Longrightarrow> ok (f x)"
    "\<And>x y. ok' x \<Longrightarrow> ok' y \<Longrightarrow> lt' x y = lt (f x) (f y)"
  shows "strict_weak_order ok' lt'"
proof
  fix x y z
  show "\<not> lt' x x" if "ok' x" using that assms(2,3) strict_weak_order.irrefl [OF assms(1)] by simp
  show "lt' x z" if "ok' x" "ok' y" "ok' z" "lt' x y" "lt' y z"
    using that assms(2,3) strict_weak_order.trans [OF assms(1), of "f x" "f y" "f z"] by simp
  show "\<not> lt' x z" if "ok' x" "ok' y" "ok' z" "\<not> lt' x y" "\<not> lt' y z"
    using that assms(2,3) strict_weak_order.negtrans [OF assms(1), of "f x" "f y" "f z"] by simp
qed

lemmas strict_weak_order_subset = strict_weak_order_image [where f = "\<lambda>x. x"]

section \<open>std::sort\<close>

text \<open>
  \<open>std::sort\<close> promises a permutation in which no element is less than an earlier one,
  provided the comparator is a strict weak ordering on the elements; which permutation, for
  equivalent elements, is unspecified. The operations that sort take the algorithm as an
  argument, and this is the contract they rely on.
\<close>

definition sort_contract :: "(('a \<Rightarrow> 'a \<Rightarrow> bool) \<Rightarrow> 'a list \<Rightarrow> 'a list) \<Rightarrow> bool" where
  "sort_contract srt \<longleftrightarrow> (\<forall>lt xs. strict_weak_order (\<lambda>x. x \<in> set xs) lt \<longrightarrow>
     mset (srt lt xs) = mset xs \<and> sorted_wrt (\<lambda>x y. \<not> lt y x) (srt lt xs))"

text \<open>Insertion sort is one algorithm that honours the contract.\<close>

fun insort_by :: "('a \<Rightarrow> 'a \<Rightarrow> bool) \<Rightarrow> 'a \<Rightarrow> 'a list \<Rightarrow> 'a list" where
  "insort_by lt x [] = [x]"
| "insort_by lt x (y # ys) = (if lt y x then y # insort_by lt x ys else x # y # ys)"

definition insertion_sort :: "('a \<Rightarrow> 'a \<Rightarrow> bool) \<Rightarrow> 'a list \<Rightarrow> 'a list" where
  "insertion_sort lt xs = foldr (insort_by lt) xs []"

lemma mset_insort_by [simp]: "mset (insort_by lt x ys) = add_mset x (mset ys)"
  by (induction lt x ys rule: insort_by.induct) auto

lemma mset_insertion_sort [simp]: "mset (insertion_sort lt xs) = mset xs"
  by (induction xs) (auto simp: insertion_sort_def)

lemma set_insort_by [simp]: "set (insort_by lt x ys) = insert x (set ys)"
  using mset_insort_by by (metis set_mset_add_mset_insert set_mset_mset)

lemma sorted_insort_by:
  assumes "strict_weak_order ok lt" "ok x" "\<forall>y \<in> set ys. ok y"
    and "sorted_wrt (\<lambda>x y. \<not> lt y x) ys"
  shows "sorted_wrt (\<lambda>x y. \<not> lt y x) (insort_by lt x ys)"
  using assms(3,4)
proof (induction ys)
  case Nil
  then show ?case by simp
next
  case (Cons y ys)
  note swo = assms(1)
  show ?case
  proof (cases "lt y x")
    case True
    then have "\<not> lt x y" using strict_weak_order.asym [OF swo] Cons.prems assms(2) by simp
    then show ?thesis using True Cons by auto
  next
    case False
    then have "\<forall>z \<in> set ys. \<not> lt z x"
      using Cons.prems assms(2) strict_weak_order.negtrans [OF swo] by (metis list.set_intros sorted_wrt.simps(2))
    then show ?thesis using False Cons by auto
  qed
qed

lemma insertion_sort_contract: "sort_contract insertion_sort"
proof -
  have *: "sorted_wrt (\<lambda>x y. \<not> lt y x) (insertion_sort lt ys)"
    if "strict_weak_order (\<lambda>x. x \<in> set xs) lt" "set ys \<subseteq> set xs" for lt and xs ys :: "'a list"
    using that(2)
  proof (induction ys)
    case Nil
    then show ?case by (simp add: insertion_sort_def)
  next
    case (Cons y ys)
    have "set (insertion_sort lt ys) = set ys"
      using mset_insertion_sort by (metis set_mset_mset)
    with Cons show ?case
      using sorted_insort_by [OF that(1), of y "insertion_sort lt ys"]
      by (simp add: insertion_sort_def subset_iff)
  qed
  then show ?thesis by (auto simp: sort_contract_def)
qed

end
