(* ===== verification/Values.thy ===== *)
theory Values
  imports Doubles Std_Containers "HOL-Library.Signed_Division"
begin

text \<open>
  \<open>includes/opendb/types/Value.hpp\<close>: the tagged scalar, its three-way comparison, the
  tag-true equality, the text form and the binary wire format. The class keeps a tag and a
  \<open>std::variant\<close>, both private and set together by the named constructors only, so a
  datatype with one constructor per tag is its reachable state space. \<open>Text\<close> is a list of
  bytes (\<open>char\<close>), \<open>Date\<close> and \<open>Timestamp\<close> carry the same words as
  \<open>Int32\<close> and \<open>Int64\<close>.
\<close>

section \<open>Tags and values\<close>

datatype ValueType =
  TNull | TBool | TInt32 | TInt64 | TDouble | TText | TBlob | TDate | TTimestamp

datatype Value =
    VNull
  | VBool bool
  | VInt32 u32
  | VInt64 u64
  | VDouble double
  | VText string
  | VBlob bytes
  | VDate u32
  | VTimestamp u64

primrec type_of :: "Value \<Rightarrow> ValueType" where
  "type_of VNull = TNull"
| "type_of (VBool b) = TBool"
| "type_of (VInt32 i) = TInt32"
| "type_of (VInt64 i) = TInt64"
| "type_of (VDouble d) = TDouble"
| "type_of (VText s) = TText"
| "type_of (VBlob b) = TBlob"
| "type_of (VDate i) = TDate"
| "type_of (VTimestamp i) = TTimestamp"

definition isNull :: "Value \<Rightarrow> bool" where
  "isNull v \<longleftrightarrow> type_of v = TNull"

definition isNumber :: "Value \<Rightarrow> bool" where
  "isNumber v \<longleftrightarrow> type_of v \<in> {TInt32, TInt64, TDouble, TDate, TTimestamp}"

lemma isNull_iff [simp]: "isNull v \<longleftrightarrow> v = VNull"
  by (cases v) (auto simp: isNull_def)

section \<open>Comparison\<close>

datatype strong_ordering = SLess | SEqual | SGreater

primrec bucket :: "ValueType \<Rightarrow> nat" where
  "bucket TNull = 0"
| "bucket TBool = 1"
| "bucket TInt32 = 2"
| "bucket TInt64 = 2"
| "bucket TDouble = 2"
| "bucket TDate = 2"
| "bucket TTimestamp = 2"
| "bucket TText = 3"
| "bucket TBlob = 4"

fun asNumericDouble :: "Value \<Rightarrow> double" where
  "asNumericDouble (VInt32 i) = double_of_int (sint i)"
| "asNumericDouble (VInt64 i) = double_of_int (sint i)"
| "asNumericDouble (VDouble d) = d"
| "asNumericDouble (VDate i) = double_of_int (sint i)"
| "asNumericDouble (VTimestamp i) = double_of_int (sint i)"
| "asNumericDouble _ = 0"

definition three_way :: "('a \<Rightarrow> 'a \<Rightarrow> bool) \<Rightarrow> 'a \<Rightarrow> 'a \<Rightarrow> strong_ordering" where
  "three_way lt x y = (if lt x y then SLess else if lt y x then SGreater else SEqual)"

definition compare :: "Value \<Rightarrow> Value \<Rightarrow> strong_ordering" where
  "compare v w =
     (let a = bucket (type_of v); b = bucket (type_of w)
      in if a \<noteq> b then three_way (<) a b
         else case (v, w) of
             (VNull, VNull) \<Rightarrow> SEqual
           | (VBool x, VBool y) \<Rightarrow> three_way (<) x y
           | (VText x, VText y) \<Rightarrow> three_way (<) x y
           | (VBlob x, VBlob y) \<Rightarrow> three_way (<) x y
           | _ \<Rightarrow> three_way d_less (asNumericDouble v) (asNumericDouble w))"

text \<open>\<open>operator==\<close>: same tag and same payload; doubles by the IEEE equality.\<close>

fun value_eq :: "Value \<Rightarrow> Value \<Rightarrow> bool" where
  "value_eq (VDouble a) (VDouble b) = d_eq a b"
| "value_eq v w = (v = w)"

text \<open>The relational operators, all derived from \<open>compare\<close>.\<close>

definition value_ne :: "Value \<Rightarrow> Value \<Rightarrow> bool" where
  "value_ne v w \<longleftrightarrow> compare v w \<noteq> SEqual"

definition value_less :: "Value \<Rightarrow> Value \<Rightarrow> bool" where
  "value_less v w \<longleftrightarrow> compare v w = SLess"

definition value_ge :: "Value \<Rightarrow> Value \<Rightarrow> bool" where
  "value_ge v w \<longleftrightarrow> compare v w \<noteq> SLess"

section \<open>Text form\<close>

definition show_pad :: "nat \<Rightarrow> int \<Rightarrow> string" where
  "show_pad w i =
     (if i < 0 then CHR ''-'' # pad_left (CHR ''0'') (w - 1) (show_nat (nat (- i)))
      else pad_left (CHR ''0'') w (show_nat (nat i)))"

text \<open>
  Civil date of a day number. All intermediate values of the source fit their types except
  \<open>days + 719468\<close>, whose signed overflow is undefined.
\<close>

definition civil_from_days :: "int \<Rightarrow> int \<times> int \<times> int" where
  "civil_from_days days =
     (let z = days + 719468;
          era = (if z \<ge> 0 then z else z - 146096) sdiv 146097;
          doe = z - era * 146097;
          yoe = (doe - doe div 1460 + doe div 36524 - doe div 146096) div 365;
          y = yoe + era * 400;
          doy = doe - (365 * yoe + yoe div 4 - yoe div 100);
          mp = (5 * doy + 2) div 153;
          d = doy - (153 * mp + 2) div 5 + 1;
          m = (if mp < 10 then mp + 3 else mp - 9)
      in (if m \<le> 2 then y + 1 else y, m, d))"

definition dateToIso :: "int \<Rightarrow> string result" where
  "dateToIso days =
     (if days + 719468 \<ge> 2 ^ 31 then Inl Undefined
      else case civil_from_days days of (y, m, d) \<Rightarrow>
        Inr (show_pad 4 y @ ''-'' @ show_pad 2 m @ ''-'' @ show_pad 2 d))"

definition timestampToIso :: "int \<Rightarrow> string result" where
  "timestampToIso millis =
     (let sec0 = millis sdiv 1000; ms0 = millis smod 1000;
          ms = (if ms0 < 0 then ms0 + 1000 else ms0);
          sec = (if ms0 < 0 then sec0 - 1 else sec0);
          days0 = signed_take_bit 31 (sec sdiv 86400);
          rem0 = sec smod 86400;
          rem = (if rem0 < 0 then rem0 + 86400 else rem0);
          days = (if rem0 < 0 then days0 - 1 else days0)
      in if days < - (2 ^ 31) then Inl Undefined
         else rbind (dateToIso days) (\<lambda>date_part.
           Inr (date_part @ ''T'' @ show_pad 2 (rem sdiv 3600) @ '':'' @
                show_pad 2 ((rem sdiv 60) smod 60) @ '':'' @ show_pad 2 (rem smod 60) @
                ''.'' @ show_pad 3 ms @ ''Z'')))"

text \<open>Trailing zeros of a decimal text are dropped, and the point with them.\<close>

definition trim_decimal :: "string \<Rightarrow> string" where
  "trim_decimal s =
     (if CHR ''.'' \<in> set s then
        (let r = dropWhile (\<lambda>c. c = CHR ''0'') (rev s)
         in rev (if r \<noteq> [] \<and> hd r = CHR ''.'' then tl r else r))
      else s)"

fun toString :: "Value \<Rightarrow> string result" where
  "toString VNull = Inr ''NULL''"
| "toString (VBool b) = Inr (if b then ''true'' else ''false'')"
| "toString (VInt32 i) = Inr (show_int (sint i))"
| "toString (VInt64 i) = Inr (show_int (sint i))"
| "toString (VDouble d) = Inr (trim_decimal (d_show d))"
| "toString (VText s) = Inr s"
| "toString (VBlob b) = Inr (''<blob:'' @ show_nat (length b) @ ''B>'')"
| "toString (VDate i) = dateToIso (sint i)"
| "toString (VTimestamp i) = timestampToIso (sint i)"

section \<open>Wire format\<close>

primrec tag_index :: "ValueType \<Rightarrow> nat" where
  "tag_index TNull = 0"
| "tag_index TBool = 1"
| "tag_index TInt32 = 2"
| "tag_index TInt64 = 3"
| "tag_index TDouble = 4"
| "tag_index TText = 5"
| "tag_index TBlob = 6"
| "tag_index TDate = 7"
| "tag_index TTimestamp = 8"

definition tag_of_byte :: "u8 \<Rightarrow> ValueType option" where
  "tag_of_byte b =
     (if b = 0 then Some TNull else if b = 1 then Some TBool
      else if b = 2 then Some TInt32 else if b = 3 then Some TInt64
      else if b = 4 then Some TDouble else if b = 5 then Some TText
      else if b = 6 then Some TBlob else if b = 7 then Some TDate
      else if b = 8 then Some TTimestamp else None)"

primrec payload_bytes :: "Value \<Rightarrow> bytes" where
  "payload_bytes VNull = []"
| "payload_bytes (VBool b) = [if b then 1 else 0]"
| "payload_bytes (VInt32 i) = le_bytes 4 i"
| "payload_bytes (VInt64 i) = le_bytes 8 i"
| "payload_bytes (VDouble d) = le_bytes 8 d"
| "payload_bytes (VText s) = le_bytes 4 (of_nat (length s) :: u32) @ map byte_of_char s"
| "payload_bytes (VBlob b) = le_bytes 4 (of_nat (length b) :: u32) @ b"
| "payload_bytes (VDate i) = le_bytes 4 i"
| "payload_bytes (VTimestamp i) = le_bytes 8 i"

definition toBytes :: "Value \<Rightarrow> bytes" where
  "toBytes v = of_nat (tag_index (type_of v)) # payload_bytes v"

text \<open>
  \<open>fromBytes\<close> moves an iterator over \<open>data\<close>; the model returns the new position.
  The guard compares the iterator with the end of a fresh empty vector, which holds only for
  an iterator of an empty vector. There is no other bounds check: a read past the end is
  undefined.
\<close>

definition read_word :: "bytes \<Rightarrow> nat \<Rightarrow> nat \<Rightarrow> ('a::len word \<Rightarrow> 'b) \<Rightarrow> ('b \<times> nat) result" where
  "read_word data off n f = rbind (read_bytes data off n) (\<lambda>bs. Inr (f (le_word bs), off + n))"

definition read_counted :: "bytes \<Rightarrow> nat \<Rightarrow> (bytes \<Rightarrow> 'b) \<Rightarrow> ('b \<times> nat) result" where
  "read_counted data off f =
     rbind (read_bytes data off 4) (\<lambda>bs.
       let len = unat (le_word bs :: u32)
       in rbind (read_bytes data (off + 4) len) (\<lambda>p. Inr (f p, off + 4 + len)))"

primrec decode_payload :: "ValueType \<Rightarrow> bytes \<Rightarrow> nat \<Rightarrow> (Value \<times> nat) result" where
  "decode_payload TNull data off = Inr (VNull, off)"
| "decode_payload TBool data off =
     rbind (read_bytes data off 1) (\<lambda>b. Inr (VBool (hd b \<noteq> 0), off + 1))"
| "decode_payload TInt32 data off = read_word data off 4 VInt32"
| "decode_payload TDate data off = read_word data off 4 VDate"
| "decode_payload TInt64 data off = read_word data off 8 VInt64"
| "decode_payload TTimestamp data off = read_word data off 8 VTimestamp"
| "decode_payload TDouble data off = read_word data off 8 VDouble"
| "decode_payload TText data off = read_counted data off (\<lambda>p. VText (map char_of_byte p))"
| "decode_payload TBlob data off = read_counted data off VBlob"

definition fromBytes :: "bytes \<Rightarrow> nat \<Rightarrow> (Value \<times> nat) result" where
  "fromBytes data off =
     (if data = [] then Inl (RuntimeError ''fromBytes: empty input'')
      else rbind (read_bytes data off 1) (\<lambda>t. case tag_of_byte (hd t) of
          None \<Rightarrow> Inl (RuntimeError ''fromBytes: unknown tag'')
        | Some tag \<Rightarrow> decode_payload tag data (off + 1)))"

section \<open>Laws of the wire format\<close>

text \<open>The length field of \<open>Text\<close> and \<open>Blob\<close> has 32 bits.\<close>

primrec value_fits :: "Value \<Rightarrow> bool" where
  "value_fits VNull = True"
| "value_fits (VBool b) = True"
| "value_fits (VInt32 i) = True"
| "value_fits (VInt64 i) = True"
| "value_fits (VDouble d) = True"
| "value_fits (VText s) = (length s < 2 ^ 32)"
| "value_fits (VBlob b) = (length b < 2 ^ 32)"
| "value_fits (VDate i) = True"
| "value_fits (VTimestamp i) = True"

lemma tag_of_byte_index [wire_simps]: "tag_of_byte (of_nat (tag_index t)) = Some t"
  by (cases t) (simp_all add: tag_of_byte_def)

lemma read_word_append:
  "LENGTH('a) \<le> 8 * n \<Longrightarrow> off = length pre \<Longrightarrow>
   read_word (pre @ le_bytes n (w :: 'a::len word) @ rest) off n f = Inr (f w, off + n)"
  by (simp add: read_word_def read_bytes_append le_word_le_bytes)

lemma read_counted_append:
  assumes "length bs < 2 ^ 32" "off = length pre"
  shows "read_counted (pre @ le_bytes 4 (of_nat (length bs) :: u32) @ bs @ rest) off f =
    Inr (f bs, off + 4 + length bs)"
proof -
  let ?n = "of_nat (length bs) :: u32"
  have "read_bytes (pre @ le_bytes 4 ?n @ bs @ rest) off 4 = Inr (le_bytes 4 ?n)"
    using assms by (intro read_bytes_append) auto
  moreover have "read_bytes ((pre @ le_bytes 4 ?n) @ bs @ rest) (off + 4) (length bs) = Inr bs"
    using assms by (intro read_bytes_append) auto
  ultimately show ?thesis using assms by (simp add: read_counted_def le_word_le_bytes)
qed

lemma length_toBytes_pos [simp]: "0 < length (toBytes v)"
  by (simp add: toBytes_def)

lemma toBytes_nonempty [simp]: "toBytes v \<noteq> []"
  by (simp add: toBytes_def)

lemma decode_payload_append:
  assumes "value_fits v" "off = length pre"
  shows "decode_payload (type_of v) (pre @ payload_bytes v @ rest) off =
    Inr (v, off + length (payload_bytes v))"
proof -
  have counted: "read_counted (pre @ le_bytes 4 (of_nat (length bs) :: u32) @ bs @ rest) off f =
    Inr (f bs, off + 4 + length bs)" if "length bs < 2 ^ 32" for bs and f :: "bytes \<Rightarrow> Value"
    by (rule read_counted_append [OF that assms(2)])
  have word: "read_word (pre @ le_bytes n w @ rest) off n f = Inr (f w, off + n)"
    if "LENGTH('a) \<le> 8 * n" for n and f :: "'a::len word \<Rightarrow> Value" and w
    by (rule read_word_append [OF that assms(2)])
  have byte: "read_bytes (pre @ x # rest) off 1 = Inr [x]" for x
    using read_bytes_append [of off pre 1 "[x]" rest] assms(2) by simp
  show ?thesis
  proof (cases v)
    case (VText s)
    then show ?thesis
      using assms(1) counted [of "map byte_of_char s" "\<lambda>p. VText (map char_of_byte p)"]
      by (simp add: comp_def)
  qed (use assms(1) byte counted in \<open>simp_all add: word\<close>)
qed

lemma fromBytes_toBytes:
  assumes "value_fits v" "off = length pre"
  shows "fromBytes (pre @ toBytes v @ rest) off = Inr (v, off + length (toBytes v))"
proof -
  let ?t = "of_nat (tag_index (type_of v)) :: u8"
  have tag: "read_bytes (pre @ toBytes v @ rest) off 1 = Inr [?t]"
    using assms read_bytes_append [of off pre 1 "[?t]" "payload_bytes v @ rest"]
    by (simp add: toBytes_def)
  have "pre @ toBytes v @ rest = (pre @ [?t]) @ payload_bytes v @ rest"
    by (simp add: toBytes_def)
  then have "decode_payload (type_of v) (pre @ toBytes v @ rest) (off + 1) =
    Inr (v, off + 1 + length (payload_bytes v))"
    using decode_payload_append [OF assms(1), of "off + 1" "pre @ [?t]" rest] assms(2) by simp
  with tag show ?thesis
    by (simp add: fromBytes_def tag_of_byte_index) (simp add: toBytes_def)
qed

text \<open>
  A decoder position never moves backwards, and a byte that is no tag is reported as the
  exception of the source.
\<close>

lemma decode_payload_advances:
  "decode_payload t data off = Inr (v, off') \<Longrightarrow> off \<le> length data \<Longrightarrow> off \<le> off' \<and> off' \<le> length data"
  by (cases t)
     (auto simp: rbind_Inr_iff read_bytes_def read_word_def read_counted_def Let_def split: if_splits)

lemma fromBytes_advances: "fromBytes data off = Inr (v, off') \<Longrightarrow> off < off' \<and> off' \<le> length data"
  by (auto simp: fromBytes_def rbind_Inr_iff read_bytes_def split: if_splits option.splits
      dest!: decode_payload_advances)

section \<open>Laws of the comparison\<close>

text \<open>
  Every value that is not a NaN has a key in a linear order that \<open>compare\<close> computes:
  the bucket first, then the payload.
\<close>

definition not_nan :: "Value \<Rightarrow> bool" where
  "not_nan v \<longleftrightarrow> (\<forall>d. v = VDouble d \<longrightarrow> \<not> d_isnan d)"

fun num_key :: "Value \<Rightarrow> int" where
  "num_key (VBool b) = (if b then 1 else 0)"
| "num_key (VText s) = 0"
| "num_key (VBlob s) = 0"
| "num_key VNull = 0"
| "num_key v = d_key (asNumericDouble v)"

fun text_key :: "Value \<Rightarrow> string" where
  "text_key (VText s) = s"
| "text_key _ = []"

fun blob_key :: "Value \<Rightarrow> bytes" where
  "blob_key (VBlob b) = b"
| "blob_key _ = []"

definition sort_key :: "Value \<Rightarrow> nat \<times> int \<times> string \<times> bytes" where
  "sort_key v = (bucket (type_of v), num_key v, text_key v, blob_key v)"

lemma not_nan_simps [simp]:
  "not_nan VNull" "not_nan (VBool b)" "not_nan (VInt32 i)" "not_nan (VInt64 j)"
  "not_nan (VText s)" "not_nan (VBlob bs)" "not_nan (VDate i)" "not_nan (VTimestamp j)"
  "not_nan (VDouble d) \<longleftrightarrow> \<not> d_isnan d"
  by (simp_all add: not_nan_def)

lemma sint_bounds: "\<bar>sint (i :: u32)\<bar> < 2 ^ 64" "\<bar>sint (j :: u64)\<bar> < 2 ^ 64"
  using sint_range_size [of i] sint_range_size [of j] by (auto simp: word_size)

lemma nan_num:
  "\<not> d_isnan (double_of_int (sint (i :: u32)))" "\<not> d_isnan (double_of_int (sint (j :: u64)))"
  by (rule d_key_double_of_int(2) [OF sint_bounds(1)], rule d_key_double_of_int(2) [OF sint_bounds(2)])

lemma three_way_linorder [simp]:
  "three_way (<) x y = SLess \<longleftrightarrow> x < (y :: 'a::linorder)"
  "three_way (<) x y = SGreater \<longleftrightarrow> y < x"
  "three_way (<) x y = SEqual \<longleftrightarrow> x = y"
  by (auto simp: three_way_def)

lemma three_way_d_less:
  "\<not> d_isnan a \<Longrightarrow> \<not> d_isnan b \<Longrightarrow> three_way d_less a b = three_way (<) (d_key a) (d_key b)"
  by (auto simp: three_way_def d_less_def)

lemma compare_sort_key:
  assumes "not_nan v" "not_nan w"
  shows "compare v w = three_way (<) (sort_key v) (sort_key w)"
  using assms
  by (cases v; cases w)
     (simp_all add: compare_def sort_key_def three_way_d_less nan_num,
      simp_all add: three_way_def)

lemma value_less_iff:
  "not_nan v \<Longrightarrow> not_nan w \<Longrightarrow> value_less v w \<longleftrightarrow> sort_key v < sort_key w"
  by (simp add: value_less_def compare_sort_key)

text \<open>Hence \<open>operator<\<close> is the strict weak ordering that \<open>std::map\<close> and \<open>std::sort\<close> require.\<close>

interpretation vo: strict_weak_order not_nan value_less
proof
  fix x y z
  show "not_nan x \<Longrightarrow> \<not> value_less x x" by (simp add: value_less_iff)
  show "\<lbrakk>not_nan x; not_nan y; not_nan z; value_less x y; value_less y z\<rbrakk> \<Longrightarrow> value_less x z"
    by (simp add: value_less_iff)
  show "\<lbrakk>not_nan x; not_nan y; not_nan z; \<not> value_less x y; \<not> value_less y z\<rbrakk> \<Longrightarrow> \<not> value_less x z"
    by (simp add: value_less_iff)
qed

lemma value_eqv_iff: "not_nan v \<Longrightarrow> not_nan w \<Longrightarrow> vo.eqv v w \<longleftrightarrow> compare v w = SEqual"
  by (auto simp: vo.eqv_def value_less_iff compare_sort_key)

lemma compare_swap:
  "not_nan v \<Longrightarrow> not_nan w \<Longrightarrow> compare v w = SLess \<longleftrightarrow> compare w v = SGreater"
  by (simp add: compare_sort_key)

lemma compare_refl [simp]: "not_nan v \<Longrightarrow> compare v v = SEqual"
  by (simp add: compare_sort_key)

lemma compare_Int64:
  "compare (VInt64 x) (VInt64 y) =
   three_way (<) (d_key (double_of_int (sint x))) (d_key (double_of_int (sint y)))"
  by (simp add: compare_def three_way_d_less nan_num)

lemma compare_Int64_mono: "sint x \<le> sint y \<Longrightarrow> compare (VInt64 x) (VInt64 y) \<noteq> SGreater"
  using d_key_mono [of "sint x" "sint y"] sint_bounds(2) [of x] sint_bounds(2) [of y]
  by (simp add: compare_Int64)

lemma compare_Int64_exact:
  assumes "\<bar>sint x\<bar> \<le> 2 ^ 53" "\<bar>sint y\<bar> \<le> 2 ^ 53"
  shows "compare (VInt64 x) (VInt64 y) = three_way (<) (sint x) (sint y)"
  using d_key_strict [OF assms] d_key_strict [OF assms(2,1)]
  by (cases "sint x" "sint y" rule: linorder_cases) (auto simp: compare_Int64 three_way_def)

section \<open>Properties\<close>

text \<open>
  C12. The wire format round-trips: decoding the bytes of a value, wherever they stand in a
  buffer, gives the value back and stops exactly behind its encoding. The only condition is the
  32-bit length field of texts and blobs.
\<close>

theorem value_wire_roundtrip:
  assumes "value_fits v"
  shows "fromBytes (pre @ toBytes v @ rest) (length pre) = Inr (v, length (pre @ toBytes v))"
  using fromBytes_toBytes [OF assms, of "length pre" pre rest] by simp

theorem value_wire_roundtrip_witness:
  "value_fits (VText ''key'') \<and>
   fromBytes ([7, 7] @ toBytes (VText ''key'') @ [0]) (length [7, 7 :: u8]) =
     Inr (VText ''key'', length ([7, 7] @ toBytes (VText ''key'')))"
  using value_wire_roundtrip [of "VText ''key''" "[7, 7]" "[0]"] by simp

text \<open>
  C13. On values that are not NaN, \<open>compare\<close> is a total preorder: reflexive, the two
  directions agree, and "not greater" is transitive. This is what \<open>std::map\<close> and
  \<open>std::sort\<close> demand of the key order.
\<close>

theorem compare_total_preorder:
  assumes "not_nan u" "not_nan v" "not_nan w"
  shows "compare u u = SEqual \<and>
    (compare u v = SLess) = (compare v u = SGreater) \<and>
    (compare u v = SEqual) = (compare v u = SEqual) \<and>
    (compare u v \<noteq> SGreater \<and> compare v w \<noteq> SGreater \<longrightarrow> compare u w \<noteq> SGreater)"
  using assms by (auto simp: compare_sort_key)

theorem compare_total_preorder_witness:
  "not_nan (VInt32 5) \<and> not_nan (VInt64 5) \<and> not_nan (VText ''a'') \<and>
   compare (VInt32 5) (VInt32 5) = SEqual"
  using compare_total_preorder [of "VInt32 5" "VInt64 5" "VText ''a''"] by simp

text \<open>
  On 64-bit integers, \<open>compare\<close> never contradicts the numeric order, and up to
  \<open>2^53\<close> in magnitude it is the numeric order. (Beyond, the detour over \<open>double\<close>
  merges neighbours: see \<open>compare_int64_merges_neighbours\<close>.)
\<close>

theorem compare_int64_numeric:
  "(sint x \<le> sint y \<longrightarrow> compare (VInt64 x) (VInt64 y) \<noteq> SGreater) \<and>
   (\<bar>sint x\<bar> \<le> 2 ^ 53 \<and> \<bar>sint y\<bar> \<le> 2 ^ 53 \<longrightarrow>
     compare (VInt64 x) (VInt64 y) = three_way (<) (sint x) (sint y))"
  using compare_Int64_mono compare_Int64_exact by blast

theorem compare_int64_numeric_witness:
  "sint (3 :: u64) \<le> sint (4 :: u64) \<and> compare (VInt64 3) (VInt64 4) \<noteq> SGreater \<and>
   compare (VInt64 3) (VInt64 4) = three_way (<) (sint (3 :: u64)) (sint (4 :: u64))"
  using compare_int64_numeric [of 3 4] by simp

text \<open>
  Two different primary keys above \<open>2^53\<close> are the same key to every ordered container, and
  a NaN is equal to every number, so it is not ordered at all.
\<close>

lemma compare_int64_merges_neighbours:
  "compare (VInt64 9007199254740992) (VInt64 9007199254740993) = SEqual"
proof -
  have "mag_of_nat 9007199254740992 = mag_of_nat 9007199254740993"
    by (simp add: mag_of_nat_def significand_def rne_div_def flog2.simps)
  then show ?thesis by (simp add: compare_Int64 d_key_double_of_int)
qed

lemma compare_nan_equals_everything:
  "compare (VDouble 0x7FF8000000000000) (VInt64 1) = SEqual \<and>
   compare (VDouble 0x7FF8000000000000) (VInt64 2) = SEqual \<and>
   compare (VInt64 1) (VInt64 2) = SLess"
proof -
  have "d_isnan 0x7FF8000000000000" by (simp add: d_isnan_def d_mag_def d_inf_mag_def)
  moreover have "compare (VInt64 1) (VInt64 2) = three_way (<) (1 :: int) 2"
    using compare_Int64_exact [of 1 2] by simp
  ultimately show ?thesis by (simp add: compare_def three_way_def d_less_def)
qed

end
