(* ===== verification/Tuples.thy ===== *)
theory Tuples
  imports Values
begin

text \<open>
  \<open>includes/opendb/types/\<close> \<open>Column.hpp\<close>, \<open>Tuple.hpp\<close>, \<open>DbError.hpp\<close>,
  \<open>TxnId.hpp\<close> and \<open>Result.hpp\<close>: the row type with its name index, the structured
  error with the empty-message success sentinel, transaction ids and result sets. A
  \<open>ColumnValue\<close> (name, value) is a pair.
\<close>

section \<open>Tuples\<close>

type_synonym ColumnValue = "string \<times> Value"

record Tuple =
  tcolumns :: "ColumnValue list"
  tindex :: "string \<Rightarrow> nat option"

text \<open>\<open>unordered_map::emplace\<close> leaves an existing entry alone.\<close>

definition emplace :: "string \<Rightarrow> nat \<Rightarrow> (string \<rightharpoonup> nat) \<Rightarrow> (string \<rightharpoonup> nat)" where
  "emplace k v m = (case m k of None \<Rightarrow> m(k \<mapsto> v) | Some _ \<Rightarrow> m)"

definition Tuple_empty :: Tuple where
  "Tuple_empty = \<lparr>tcolumns = [], tindex = Map.empty\<rparr>"

definition Tuple_of :: "ColumnValue list \<Rightarrow> Tuple" where
  "Tuple_of cols =
     \<lparr>tcolumns = cols,
      tindex = fold (\<lambda>i m. emplace (fst (cols ! i)) i m) [0..<length cols] Map.empty\<rparr>"

definition tuple_size :: "Tuple \<Rightarrow> nat" where
  "tuple_size t = length (tcolumns t)"

definition has :: "Tuple \<Rightarrow> string \<Rightarrow> bool" where
  "has t n \<longleftrightarrow> tindex t n \<noteq> None"

definition get :: "Tuple \<Rightarrow> string \<Rightarrow> Value result" where
  "get t n = (case tindex t n of
     None \<Rightarrow> Inl (OutOfRange (''Tuple: missing column '' @ [CHR 0x27] @ n @ [CHR 0x27]))
   | Some i \<Rightarrow> Inr (snd (tcolumns t ! i)))"

definition maybeGet :: "Tuple \<Rightarrow> string \<Rightarrow> Value option" where
  "maybeGet t n = (case tindex t n of None \<Rightarrow> None | Some i \<Rightarrow> Some (snd (tcolumns t ! i)))"

definition tset :: "Tuple \<Rightarrow> string \<Rightarrow> Value \<Rightarrow> Tuple" where
  "tset t n v = (case tindex t n of
     Some i \<Rightarrow> t\<lparr>tcolumns := (tcolumns t)[i := (fst (tcolumns t ! i), v)]\<rparr>
   | None \<Rightarrow> t\<lparr>tindex := emplace n (length (tcolumns t)) (tindex t),
               tcolumns := tcolumns t @ [(n, v)]\<rparr>)"

definition tuple_eq :: "Tuple \<Rightarrow> Tuple \<Rightarrow> bool" where
  "tuple_eq s t \<longleftrightarrow>
     list_all2 (\<lambda>a b. fst a = fst b \<and> value_eq (snd a) (snd b)) (tcolumns s) (tcolumns t)"

primrec join_results :: "string \<Rightarrow> string result list \<Rightarrow> string result" where
  "join_results sep [] = Inr []"
| "join_results sep (r # rs) =
     rbind r (\<lambda>s. case rs of [] \<Rightarrow> Inr s | _ \<Rightarrow> rbind (join_results sep rs) (\<lambda>s'. Inr (s @ sep @ s')))"

definition tuple_toString :: "Tuple \<Rightarrow> string result" where
  "tuple_toString t =
     join_results '','' (map (\<lambda>(n, v). rbind (toString v) (\<lambda>s. Inr (n @ ''='' @ s))) (tcolumns t))"

section \<open>Errors, transaction ids, results\<close>

datatype DbErrorCode =
    NotFound | Deadlock | LockBusy | LockTimeout | QueryTimeout | ParseError | NotSupported | Internal

record DbError =
  err_code :: DbErrorCode
  err_message :: string

definition db_error :: "DbErrorCode \<Rightarrow> string \<Rightarrow> DbError" where
  "db_error c msg = \<lparr>err_code = c, err_message = msg\<rparr>"

definition sentinel :: DbError where
  "sentinel = db_error Internal []"

definition isSentinel :: "DbError \<Rightarrow> bool" where
  "isSentinel e \<longleftrightarrow> err_message e = []"

primrec code_name :: "DbErrorCode \<Rightarrow> string" where
  "code_name NotFound = ''NotFound''"
| "code_name Deadlock = ''Deadlock''"
| "code_name LockBusy = ''LockBusy''"
| "code_name LockTimeout = ''LockTimeout''"
| "code_name QueryTimeout = ''QueryTimeout''"
| "code_name ParseError = ''ParseError''"
| "code_name NotSupported = ''NotSupported''"
| "code_name Internal = ''Internal''"

definition error_toString :: "DbError \<Rightarrow> string" where
  "error_toString e =
     (if err_message e = [] then code_name (err_code e) else code_name (err_code e) @ '': '' @ err_message e)"

type_synonym TxnId = u64

definition txn_toString :: "TxnId \<Rightarrow> string" where
  "txn_toString t = ''Txn'' @ show_nat (unat t)"

record ResultSet =
  rs_success :: bool
  rs_rows :: "Tuple list"

lemma isSentinel_sentinel [simp]: "isSentinel sentinel"
  by (simp add: isSentinel_def sentinel_def db_error_def)

lemma isSentinel_db_error [simp]: "isSentinel (db_error c m) \<longleftrightarrow> m = []"
  by (simp add: isSentinel_def db_error_def)

section \<open>The name index agrees with the columns\<close>

text \<open>Position of the first column with a given name.\<close>

fun first_index :: "ColumnValue list \<Rightarrow> string \<Rightarrow> nat option" where
  "first_index [] n = None"
| "first_index ((a, v) # cs) n = (if a = n then Some 0 else map_option Suc (first_index cs n))"

definition tuple_wf :: "Tuple \<Rightarrow> bool" where
  "tuple_wf t \<longleftrightarrow> tindex t = first_index (tcolumns t)"

lemma first_index_map_of:
  "map_of cs n = (case first_index cs n of None \<Rightarrow> None | Some i \<Rightarrow> Some (snd (cs ! i)))"
  by (induction cs n rule: first_index.induct) (auto split: option.splits)

lemma first_index_Some:
  "first_index cs n = Some i \<Longrightarrow> i < length cs \<and> fst (cs ! i) = n"
  by (induction cs n arbitrary: i rule: first_index.induct) (auto split: if_splits)

lemma first_index_snoc:
  "first_index (cs @ [(a, v)]) = emplace a (length cs) (first_index cs)"
proof (rule ext)
  fix n
  show "first_index (cs @ [(a, v)]) n = emplace a (length cs) (first_index cs) n"
    by (induction cs n rule: first_index.induct) (auto simp: emplace_def split: option.splits)
qed

lemma first_index_upd:
  "i < length cs \<Longrightarrow> first_index (cs[i := (fst (cs ! i), v)]) = first_index cs"
proof (induction cs arbitrary: i)
  case Nil
  then show ?case by simp
next
  case (Cons c cs)
  then show ?case by (cases c; cases i) (auto simp: fun_eq_iff)
qed

lemma first_index_update:
  "first_index cs n = Some i \<Longrightarrow> cs[i := (fst (cs ! i), v)] = AList.update n v cs"
  by (induction cs n arbitrary: i rule: first_index.induct) (auto split: if_splits)

lemma update_fresh: "first_index cs n = None \<Longrightarrow> AList.update n v cs = cs @ [(n, v)]"
  by (induction cs n rule: first_index.induct) (auto split: if_splits)

lemma maybeGet_map_of: "tuple_wf t \<Longrightarrow> maybeGet t n = map_of (tcolumns t) n"
  by (simp add: maybeGet_def tuple_wf_def first_index_map_of)

lemma columns_tset: "tuple_wf t \<Longrightarrow> tcolumns (tset t n v) = AList.update n v (tcolumns t)"
  by (auto simp: tset_def tuple_wf_def first_index_update update_fresh split: option.splits)

lemma tuple_wf_empty [simp]: "tuple_wf Tuple_empty"
  by (simp add: tuple_wf_def Tuple_empty_def fun_eq_iff)

lemma tuple_wf_tset [simp, inv_intros]: "tuple_wf t \<Longrightarrow> tuple_wf (tset t n v)"
  by (auto simp: tset_def tuple_wf_def first_index_snoc dest!: first_index_Some
      simp: first_index_upd split: option.splits)

lemma index_fold:
  "k \<le> length cols \<Longrightarrow>
   fold (\<lambda>i m. emplace (fst (cols ! i)) i m) [0..<k] Map.empty = first_index (take k cols)"
proof (induction k)
  case 0
  then show ?case by (simp add: fun_eq_iff)
next
  case (Suc k)
  then have "first_index (take (Suc k) cols) = emplace (fst (cols ! k)) k (first_index (take k cols))"
    using first_index_snoc [of "take k cols" "fst (cols ! k)" "snd (cols ! k)"]
    by (simp add: take_Suc_conv_app_nth)
  with Suc show ?case by simp
qed

lemma tuple_wf_of [simp]: "tuple_wf (Tuple_of cols)"
  using index_fold [of "length cols" cols] by (simp add: tuple_wf_def Tuple_of_def)

lemma columns_of [simp]: "tcolumns (Tuple_of cols) = cols"
  by (simp add: Tuple_of_def)

lemma columns_empty [simp]: "tcolumns Tuple_empty = []"
  by (simp add: Tuple_empty_def)

lemma first_index_None: "first_index cs n = None \<longleftrightarrow> n \<notin> fst ` set cs"
  by (induction cs n rule: first_index.induct) auto

lemma tuple_eqI: "tuple_wf t \<Longrightarrow> tuple_wf u \<Longrightarrow> tcolumns t = tcolumns u \<Longrightarrow> t = u"
  by (cases t; cases u) (simp add: tuple_wf_def)

lemma tset_fresh: "n \<notin> fst ` set cs \<Longrightarrow> tset (Tuple_of cs) n v = Tuple_of (cs @ [(n, v)])"
  by (rule tuple_eqI) (simp_all add: columns_tset update_fresh first_index_None)

lemma Tuple_of_Nil: "Tuple_of [] = Tuple_empty"
  by (rule tuple_eqI) simp_all

section \<open>Rows as finite maps from column names\<close>

text \<open>
  What the query code relies on: a row answers lookups by name, and a \<open>set\<close> changes the
  answer for one name only. Projections, joins and default materialisation are folds of
  \<open>set\<close>; their lookups are derived once, here.
\<close>

locale row_interface =
  fixes wf :: "'r \<Rightarrow> bool"
    and empty :: 'r
    and lookup :: "'r \<Rightarrow> string \<Rightarrow> 'v option"
    and put :: "'r \<Rightarrow> string \<Rightarrow> 'v \<Rightarrow> 'r"
  assumes wf_empty: "wf empty"
    and wf_put: "wf r \<Longrightarrow> wf (put r n v)"
    and lookup_empty: "lookup empty n = None"
    and lookup_put: "wf r \<Longrightarrow> lookup (put r n v) m = (if m = n then Some v else lookup r m)"
begin

definition put_all :: "(string \<times> 'v) list \<Rightarrow> 'r \<Rightarrow> 'r" where
  "put_all = fold (\<lambda>(n, v) r. put r n v)"

lemma wf_put_all: "wf r \<Longrightarrow> wf (put_all cs r)"
  by (induction cs arbitrary: r) (auto simp: put_all_def wf_put)

lemma lookup_put_all:
  "wf r \<Longrightarrow> lookup (put_all cs r) m =
   (case map_of (rev cs) m of Some v \<Rightarrow> Some v | None \<Rightarrow> lookup r m)"
proof (induction cs arbitrary: r)
  case Nil
  then show ?case by (simp add: put_all_def)
next
  case (Cons c cs)
  then show ?case
    by (cases c) (auto simp: put_all_def wf_put lookup_put split: option.splits)
qed

text \<open>Copying the named columns of one row into a fresh one.\<close>

definition restrict_to :: "string list \<Rightarrow> 'r \<Rightarrow> 'r" where
  "restrict_to ns r =
     fold (\<lambda>n p. case lookup r n of Some v \<Rightarrow> put p n v | None \<Rightarrow> p) ns empty"

lemma restrict_to_aux:
  assumes "wf p"
  shows "wf (fold (\<lambda>n p. case lookup r n of Some v \<Rightarrow> put p n v | None \<Rightarrow> p) ns p)"
    and "lookup (fold (\<lambda>n p. case lookup r n of Some v \<Rightarrow> put p n v | None \<Rightarrow> p) ns p) m =
      (if m \<in> set ns \<and> lookup r m \<noteq> None then lookup r m else lookup p m)"
  using assms
  by (induction ns arbitrary: p) (auto simp: wf_put lookup_put split: option.splits)

lemma wf_restrict_to: "wf (restrict_to ns r)"
  unfolding restrict_to_def by (rule restrict_to_aux(1) [OF wf_empty])

lemma lookup_restrict_to: "lookup (restrict_to ns r) m = (if m \<in> set ns then lookup r m else None)"
  unfolding restrict_to_def by (simp add: restrict_to_aux(2) [OF wf_empty] lookup_empty)

end

interpretation trow: row_interface tuple_wf Tuple_empty maybeGet tset
proof
  show "tuple_wf Tuple_empty" by simp
next
  fix r n v m
  show "tuple_wf r \<Longrightarrow> tuple_wf (tset r n v)" by simp
  show "maybeGet Tuple_empty n = None" by (simp add: maybeGet_map_of)
  show "tuple_wf r \<Longrightarrow> maybeGet (tset r n v) m = (if m = n then Some v else maybeGet r m)"
    by (simp add: maybeGet_map_of columns_tset update_conv')
qed

lemma get_iff_maybeGet: "get t n = Inr v \<longleftrightarrow> maybeGet t n = Some v"
  by (auto simp: get_def maybeGet_def split: option.splits)

end
