(* ===== verification/Predicates.thy ===== *)
theory Predicates
  imports Tuples
begin

text \<open>
  \<open>includes/opendb/types/Predicate.hpp\<close>: the WHERE tree. A child of a logical node is a
  \<open>unique_ptr\<close>, so it can be null (the SQL parser does build such nodes); calling a method
  on a null child is undefined. Evaluation visits children from left to right and stops at the
  first one that decides the result.
\<close>

section \<open>Trees and evaluation\<close>

datatype ComparisonOp =
  Equals | NotEquals | Less | LessEquals | Greater | GreaterEquals | IsNull | IsNotNull

datatype LogicalOp = And | Or

datatype PredicateNode =
    ComparisonNode string ComparisonOp Value
  | LogicalNode LogicalOp "PredicateNode option list"

type_synonym Predicate = "PredicateNode option"

primrec cmp_holds :: "ComparisonOp \<Rightarrow> Value \<Rightarrow> Value \<Rightarrow> bool" where
  "cmp_holds Equals v w = (\<not> isNull v \<and> \<not> isNull w \<and> compare v w = SEqual)"
| "cmp_holds NotEquals v w = (\<not> isNull v \<and> \<not> isNull w \<and> compare v w \<noteq> SEqual)"
| "cmp_holds Less v w = (\<not> isNull v \<and> \<not> isNull w \<and> compare v w = SLess)"
| "cmp_holds LessEquals v w = (\<not> isNull v \<and> \<not> isNull w \<and> compare v w \<noteq> SGreater)"
| "cmp_holds Greater v w = (\<not> isNull v \<and> \<not> isNull w \<and> compare v w = SGreater)"
| "cmp_holds GreaterEquals v w = (\<not> isNull v \<and> \<not> isNull w \<and> compare v w \<noteq> SLess)"
| "cmp_holds IsNull v w = isNull v"
| "cmp_holds IsNotNull v w = (\<not> isNull v)"

definition eval_comparison :: "string \<Rightarrow> ComparisonOp \<Rightarrow> Value \<Rightarrow> Tuple \<Rightarrow> bool" where
  "eval_comparison col p w row = (case maybeGet row col of
     None \<Rightarrow> (case p of IsNull \<Rightarrow> True | IsNotNull \<Rightarrow> False | _ \<Rightarrow> False)
   | Some v \<Rightarrow> cmp_holds p v w)"

fun eval_node :: "PredicateNode \<Rightarrow> Tuple \<Rightarrow> bool result"
  and eval_and :: "PredicateNode option list \<Rightarrow> Tuple \<Rightarrow> bool result"
  and eval_or :: "PredicateNode option list \<Rightarrow> Tuple \<Rightarrow> bool result" where
  "eval_node (ComparisonNode col p v) row = Inr (eval_comparison col p v row)"
| "eval_node (LogicalNode And cs) row = eval_and cs row"
| "eval_node (LogicalNode Or cs) row = eval_or cs row"
| "eval_and [] row = Inr True"
| "eval_and (None # cs) row = Inl Undefined"
| "eval_and (Some c # cs) row =
     rbind (eval_node c row) (\<lambda>b. if \<not> b then Inr False else eval_and cs row)"
| "eval_or [] row = Inr False"
| "eval_or (None # cs) row = Inl Undefined"
| "eval_or (Some c # cs) row =
     rbind (eval_node c row) (\<lambda>b. if b then Inr True else eval_or cs row)"

definition evaluate :: "Predicate \<Rightarrow> Tuple \<Rightarrow> bool result" where
  "evaluate p row = (case p of None \<Rightarrow> Inr False | Some n \<Rightarrow> eval_node n row)"

section \<open>Copies and text\<close>

fun clone_node :: "PredicateNode \<Rightarrow> PredicateNode result"
  and clone_children :: "PredicateNode option list \<Rightarrow> PredicateNode option list result" where
  "clone_node (ComparisonNode col p v) = Inr (ComparisonNode col p v)"
| "clone_node (LogicalNode p cs) = rbind (clone_children cs) (\<lambda>ds. Inr (LogicalNode p ds))"
| "clone_children [] = Inr []"
| "clone_children (None # cs) = Inl Undefined"
| "clone_children (Some c # cs) =
     rbind (clone_node c) (\<lambda>d. rbind (clone_children cs) (\<lambda>ds. Inr (Some d # ds)))"

definition copy_predicate :: "Predicate \<Rightarrow> Predicate result" where
  "copy_predicate p = (case p of None \<Rightarrow> Inr None | Some n \<Rightarrow> rbind (clone_node n) (\<lambda>m. Inr (Some m)))"

primrec op_str :: "ComparisonOp \<Rightarrow> string" where
  "op_str Equals = ''=''"
| "op_str NotEquals = ''!=''"
| "op_str Less = ''<''"
| "op_str LessEquals = ''<=''"
| "op_str Greater = ''>''"
| "op_str GreaterEquals = ''>=''"
| "op_str IsNull = ''IS NULL''"
| "op_str IsNotNull = ''IS NOT NULL''"

fun node_toString :: "PredicateNode \<Rightarrow> string result"
  and children_toString :: "PredicateNode option list \<Rightarrow> string result list" where
  "node_toString (ComparisonNode col p v) =
     (if p = IsNull \<or> p = IsNotNull then Inr (''('' @ col @ '' '' @ op_str p @ '')'')
      else rbind (toString v) (\<lambda>s. Inr (''('' @ col @ '' '' @ op_str p @ '' '' @ s @ '')'')))"
| "node_toString (LogicalNode p cs) =
     rbind (join_results (case p of And \<Rightarrow> '' AND '' | Or \<Rightarrow> '' OR '') (children_toString cs))
       (\<lambda>s. Inr (''('' @ s @ '')''))"
| "children_toString [] = []"
| "children_toString (None # cs) = Inr ''<null>'' # children_toString cs"
| "children_toString (Some c # cs) = node_toString c # children_toString cs"

section \<open>Laws\<close>

text \<open>Trees without null children: what the grammar of the front ends means to build.\<close>

fun no_null :: "PredicateNode \<Rightarrow> bool"
  and no_null_children :: "PredicateNode option list \<Rightarrow> bool" where
  "no_null (ComparisonNode col p v) = True"
| "no_null (LogicalNode p cs) = no_null_children cs"
| "no_null_children [] = True"
| "no_null_children (None # cs) = False"
| "no_null_children (Some c # cs) = (no_null c \<and> no_null_children cs)"

text \<open>The meaning of a tree without null children, as a proposition.\<close>

fun sat :: "PredicateNode \<Rightarrow> Tuple \<Rightarrow> bool"
  and sat_all :: "PredicateNode option list \<Rightarrow> Tuple \<Rightarrow> bool"
  and sat_any :: "PredicateNode option list \<Rightarrow> Tuple \<Rightarrow> bool" where
  "sat (ComparisonNode col p v) row = eval_comparison col p v row"
| "sat (LogicalNode And cs) row = sat_all cs row"
| "sat (LogicalNode Or cs) row = sat_any cs row"
| "sat_all [] row = True"
| "sat_all (None # cs) row = sat_all cs row"
| "sat_all (Some c # cs) row = (sat c row \<and> sat_all cs row)"
| "sat_any [] row = False"
| "sat_any (None # cs) row = sat_any cs row"
| "sat_any (Some c # cs) row = (sat c row \<or> sat_any cs row)"

lemma eval_sat:
  "no_null n \<Longrightarrow> eval_node n row = Inr (sat n row)"
  "no_null_children cs \<Longrightarrow> eval_and cs row = Inr (sat_all cs row)"
  "no_null_children cs \<Longrightarrow> eval_or cs row = Inr (sat_any cs row)"
  by (induction n row and cs row and cs row rule: eval_node_eval_and_eval_or.induct) auto

lemma sat_all_iff: "sat_all cs row \<longleftrightarrow> (\<forall>c. Some c \<in> set cs \<longrightarrow> sat c row)"
proof (induction cs)
  case Nil
  then show ?case by simp
next
  case (Cons c cs)
  then show ?case by (cases c) auto
qed

lemma sat_any_iff: "sat_any cs row \<longleftrightarrow> (\<exists>c. Some c \<in> set cs \<and> sat c row)"
proof (induction cs)
  case Nil
  then show ?case by simp
next
  case (Cons c cs)
  then show ?case by (cases c) auto
qed

lemma clone_iff:
  "clone_node n = (if no_null n then Inr n else Inl Undefined)"
  "clone_children cs = (if no_null_children cs then Inr cs else Inl Undefined)"
  by (induction n and cs rule: clone_node_clone_children.induct) auto

lemma evaluate_no_null: "no_null n \<Longrightarrow> evaluate (Some n) row = Inr (sat n row)"
  by (simp add: evaluate_def eval_sat)

lemma cmp_holds_null: "p \<noteq> IsNull \<Longrightarrow> p \<noteq> IsNotNull \<Longrightarrow> v = VNull \<or> w = VNull \<Longrightarrow> \<not> cmp_holds p v w"
  by (cases p) auto

section \<open>Properties\<close>

text \<open>
  On a tree without null children evaluation returns, and it computes the propositional
  meaning: AND is a conjunction over the children, OR a disjunction.
\<close>

theorem predicate_evaluates:
  assumes "no_null (LogicalNode p cs)"
  shows "evaluate (Some (LogicalNode p cs)) row =
    Inr (case p of And \<Rightarrow> (\<forall>c. Some c \<in> set cs \<longrightarrow> sat c row)
                 | Or \<Rightarrow> (\<exists>c. Some c \<in> set cs \<and> sat c row))"
  using evaluate_no_null [OF assms, of row]
  by (simp add: sat_all_iff sat_any_iff split: LogicalOp.splits)

theorem predicate_evaluates_witness:
  "no_null (LogicalNode And [Some (ComparisonNode ''age'' Greater (VInt32 25))]) \<and>
   evaluate (Some (LogicalNode And [Some (ComparisonNode ''age'' Greater (VInt32 25))])) Tuple_empty =
     Inr (\<forall>c. Some c \<in> set [Some (ComparisonNode ''age'' Greater (VInt32 25))] \<longrightarrow> sat c Tuple_empty)"
  using predicate_evaluates [of And "[Some (ComparisonNode ''age'' Greater (VInt32 25))]" Tuple_empty]
  by simp

text \<open>
  SQL NULL semantics of a comparison: when the column is missing from the row, or holds
  NULL, or the operand is NULL, each of the six relational operators is false (so an equality and
  the matching inequality are both false), and \<open>IS NULL\<close> / \<open>IS NOT NULL\<close> are
  complementary on every row.
\<close>

theorem comparison_null_semantics:
  "(maybeGet row col = None \<or> maybeGet row col = Some VNull \<or> w = VNull \<longrightarrow>
     (\<forall>p \<in> {Equals, NotEquals, Less, LessEquals, Greater, GreaterEquals}.
        \<not> eval_comparison col p w row)) \<and>
   eval_comparison col IsNull w row = (maybeGet row col = None \<or> maybeGet row col = Some VNull) \<and>
   eval_comparison col IsNotNull w row = (\<not> eval_comparison col IsNull w row)"
  by (auto simp: eval_comparison_def split: option.splits)

theorem comparison_null_semantics_witness:
  "maybeGet (Tuple_of [(''x'', VNull)]) ''x'' = Some VNull \<and>
   \<not> eval_comparison ''x'' Equals (VInt64 1) (Tuple_of [(''x'', VNull)]) \<and>
   \<not> eval_comparison ''x'' NotEquals (VInt64 1) (Tuple_of [(''x'', VNull)])"
  using comparison_null_semantics [of "Tuple_of [(''x'', VNull)]" "''x''" "VInt64 1"]
  by (simp add: maybeGet_map_of)

text \<open>
  A copy of a predicate is the same tree, unless it has a null child: then the copy is undefined.
\<close>

lemma copy_predicate_iff:
  "copy_predicate (Some n) = (if no_null n then Inr (Some n) else Inl Undefined)"
  by (simp add: copy_predicate_def clone_iff)

end
