(* ===== verification/Commands.thy ===== *)
theory Commands
  imports Predicates
begin

text \<open>
  \<open>includes/opendb/types/Schema.hpp\<close> and \<open>Command.hpp\<close>: table schemas, partition
  policies, ALTER specifications and the command record that front ends hand to the engine,
  with the constructor that validates it.
\<close>

section \<open>Schemas\<close>

record ColumnDef =
  cd_name :: string
  cd_type :: ValueType
  cd_nullable :: bool
  cd_primaryKey :: bool
  cd_maxByteLength :: u64
  cd_extensions :: "(string \<times> string) list"
  cd_default :: "Value option"

definition ColumnDef_init :: ColumnDef where
  "ColumnDef_init =
     \<lparr>cd_name = [], cd_type = TNull, cd_nullable = True, cd_primaryKey = False,
      cd_maxByteLength = 0, cd_extensions = [], cd_default = None\<rparr>"

datatype PartitionKind = PNone | PHash | PRange | PList

record PartitionPolicy =
  pp_kind :: PartitionKind
  pp_column :: string
  pp_shardCount :: u32
  pp_boundaries :: "Value list"
  pp_lists :: "Value list list"

definition PartitionPolicy_init :: PartitionPolicy where
  "PartitionPolicy_init =
     \<lparr>pp_kind = PNone, pp_column = [], pp_shardCount = 0, pp_boundaries = [], pp_lists = []\<rparr>"

definition isPartitioned :: "PartitionPolicy \<Rightarrow> bool" where
  "isPartitioned p \<longleftrightarrow> pp_kind p \<noteq> PNone"

record Schema =
  sc_table :: string
  sc_columns :: "ColumnDef list"
  sc_partition :: "PartitionPolicy option"

definition schema_find :: "Schema \<Rightarrow> string \<Rightarrow> ColumnDef option" where
  "schema_find s col = List.find (\<lambda>c. cd_name c = col) (sc_columns s)"

definition hasColumn :: "Schema \<Rightarrow> string \<Rightarrow> bool" where
  "hasColumn s col \<longleftrightarrow> schema_find s col \<noteq> None"

definition primaryKeyColumn :: "Schema \<Rightarrow> string" where
  "primaryKeyColumn s =
     (case List.find cd_primaryKey (sc_columns s) of Some c \<Rightarrow> cd_name c | None \<Rightarrow> [])"

definition hasPrimaryKey :: "Schema \<Rightarrow> bool" where
  "hasPrimaryKey s \<longleftrightarrow> primaryKeyColumn s \<noteq> []"

datatype AlterKind = AddColumn | DropColumn | RenameTable

record AlterSpec =
  as_kind :: AlterKind
  as_column :: string
  as_columnDef :: ColumnDef

lemma hasColumn_iff: "hasColumn s col \<longleftrightarrow> col \<in> cd_name ` set (sc_columns s)"
  by (auto simp: hasColumn_def schema_find_def find_None_iff simp del: not_None_eq)

section \<open>Commands\<close>

datatype CommandType = Select | Insert | Update | Delete

datatype SortDirection = Asc | Desc

record OrderBySpec =
  ob_column :: string
  ob_direction :: SortDirection
  ob_nullsFirst :: "bool option"

datatype JoinKind = Inner | LeftJoin

record JoinClause =
  jc_kind :: JoinKind
  jc_table :: string
  jc_leftColumn :: string
  jc_rightColumn :: string

record Command =
  cmd_type :: CommandType
  cmd_table :: string
  cmd_where :: "Predicate option"
  cmd_values :: "Tuple option"
  cmd_projections :: "string list"
  cmd_orderBy :: "OrderBySpec list"
  cmd_joins :: "JoinClause list"
  cmd_limit :: "nat option"
  cmd_offset :: "nat option"
  cmd_txnId :: "TxnId option"

text \<open>\<open>validate\<close>: the invariants of the four command types, in the order of the source.\<close>

definition validate :: "Command \<Rightarrow> unit result" where
  "validate c = (case cmd_type c of
     Insert \<Rightarrow>
       if cmd_values c = None then Inl (InvalidArgument ''Insert requires values'')
       else if cmd_where c \<noteq> None then Inl (InvalidArgument ''Insert must not carry WHERE'')
       else Inr ()
   | Update \<Rightarrow>
       if cmd_where c = None then Inl (InvalidArgument ''Update requires WHERE'')
       else if cmd_values c = None then Inl (InvalidArgument ''Update requires values'')
       else Inr ()
   | Delete \<Rightarrow>
       if cmd_where c = None then Inl (InvalidArgument ''Delete requires WHERE'')
       else if cmd_values c \<noteq> None then Inl (InvalidArgument ''Delete must not carry values'')
       else Inr ()
   | Select \<Rightarrow> Inr ())"

definition mkCommand ::
  "CommandType \<Rightarrow> string \<Rightarrow> Predicate option \<Rightarrow> Tuple option \<Rightarrow> string list \<Rightarrow> TxnId option \<Rightarrow> Command result" where
  "mkCommand t tbl wh vals proj txn =
     (let c = \<lparr>cmd_type = t, cmd_table = tbl, cmd_where = wh, cmd_values = vals,
               cmd_projections = proj, cmd_orderBy = [], cmd_joins = [],
               cmd_limit = None, cmd_offset = None, cmd_txnId = txn\<rparr>
      in rbind (validate c) (\<lambda>_. Inr c))"

text \<open>What a command that came out of the constructor satisfies.\<close>

definition command_wf :: "Command \<Rightarrow> bool" where
  "command_wf c \<longleftrightarrow> (case cmd_type c of
     Insert \<Rightarrow> cmd_values c \<noteq> None \<and> cmd_where c = None
   | Update \<Rightarrow> cmd_where c \<noteq> None \<and> cmd_values c \<noteq> None
   | Delete \<Rightarrow> cmd_where c \<noteq> None \<and> cmd_values c = None
   | Select \<Rightarrow> True)"

lemma validate_iff: "validate c = Inr () \<longleftrightarrow> command_wf c"
  by (auto simp: validate_def command_wf_def split: CommandType.splits)

lemma mkCommand_wf [inv_intros]: "mkCommand t tbl wh vals proj txn = Inr c \<Longrightarrow> command_wf c"
  by (auto simp: mkCommand_def Let_def rbind_Inr_iff validate_iff)

section \<open>Clauses and printed commands\<close>

definition withOrderBy :: "OrderBySpec list \<Rightarrow> Command \<Rightarrow> Command" where
  "withOrderBy v c = c\<lparr>cmd_orderBy := v\<rparr>"

definition withLimit :: "nat \<Rightarrow> Command \<Rightarrow> Command" where
  "withLimit v c = c\<lparr>cmd_limit := Some v\<rparr>"

definition withOffset :: "nat \<Rightarrow> Command \<Rightarrow> Command" where
  "withOffset v c = c\<lparr>cmd_offset := Some v\<rparr>"

definition withJoin :: "JoinClause \<Rightarrow> Command \<Rightarrow> Command" where
  "withJoin j c = c\<lparr>cmd_joins := cmd_joins c @ [j]\<rparr>"

definition listed :: "string \<Rightarrow> string list \<Rightarrow> string" where
  "listed label xs = (case xs of [] \<Rightarrow> [] | x # ys \<Rightarrow> '' '' @ label @ ''=['' @ x @ concat (map (\<lambda>y. '','' @ y) ys) @ '']'')"

definition order_text :: "OrderBySpec \<Rightarrow> string" where
  "order_text ob = ob_column ob @ (case ob_direction ob of Asc \<Rightarrow> '':asc'' | Desc \<Rightarrow> '':desc'')
     @ (case ob_nullsFirst ob of None \<Rightarrow> [] | Some b \<Rightarrow> if b then '':nullsFirst'' else '':nullsLast'')"

definition join_text :: "JoinClause \<Rightarrow> string" where
  "join_text j = (case jc_kind j of Inner \<Rightarrow> ''Inner'' | LeftJoin \<Rightarrow> ''Left'') @ '':'' @ jc_table j @ '':'' @ jc_leftColumn j @ ''='' @ jc_rightColumn j"

definition opt_text :: "string \<Rightarrow> ('a \<Rightarrow> string result) \<Rightarrow> 'a option \<Rightarrow> string result" where
  "opt_text label f v = (case v of None \<Rightarrow> Inr [] | Some x \<Rightarrow> rbind (f x) (\<lambda>s. Inr ('' '' @ label @ ''='' @ s)))"

definition pred_toString :: "Predicate \<Rightarrow> string result" where
  "pred_toString p = (case p of None \<Rightarrow> Inr [] | Some n \<Rightarrow> node_toString n)"

definition type_text :: "CommandType \<Rightarrow> string" where
  "type_text t = (case t of Select \<Rightarrow> ''Select'' | Insert \<Rightarrow> ''Insert'' | Update \<Rightarrow> ''Update'' | Delete \<Rightarrow> ''Delete'')"

definition command_toString :: "Command \<Rightarrow> string result" where
  "command_toString c =
     rbind (opt_text ''where'' pred_toString (cmd_where c)) (\<lambda>w.
     rbind (opt_text ''values'' tuple_toString (cmd_values c)) (\<lambda>v.
     rbind (opt_text ''limit'' (\<lambda>n. Inr (show_nat n)) (cmd_limit c)) (\<lambda>l.
     rbind (opt_text ''offset'' (\<lambda>n. Inr (show_nat n)) (cmd_offset c)) (\<lambda>off.
     rbind (opt_text ''txn'' (\<lambda>t. Inr (txn_toString t)) (cmd_txnId c)) (\<lambda>t.
       Inr (type_text (cmd_type c) @ '' table='' @ cmd_table c @ w @ v @ listed ''proj'' (cmd_projections c)
         @ listed ''orderBy'' (map order_text (cmd_orderBy c)) @ l @ off @ listed ''joins'' (map join_text (cmd_joins c)) @ t))))))"

lemma clauses_keep_wf [inv_intros]:
  "command_wf c \<Longrightarrow> command_wf (withOrderBy v c) \<and> command_wf (withLimit n c) \<and> command_wf (withOffset n c) \<and> command_wf (withJoin j c)"
  by (cases "cmd_type c") (simp_all add: command_wf_def withOrderBy_def withLimit_def withOffset_def withJoin_def)

end
