(* ===== verification/Storage_Contract.thy ===== *)
theory Storage_Contract
  imports Commands
begin

text \<open>
  \<open>includes/opendb/contracts/IStorageEngine.hpp\<close>: the back-end interface. The virtual
  methods are the fields of a record, so that the engine loop, the dispatcher and the decorators
  take an engine as an argument the way the code takes an \<open>IStorageEngine*\<close>. A method is a
  function of the engine's state; \<open>scan\<close> returns the rows in the order its callback receives
  them. The locale \<open>transactional_store\<close> is the contract in the header's comments: writes
  are private to their transaction until commit, commit publishes all of them and abort none.
\<close>

record 's engine_ops =
  eget :: "'s \<Rightarrow> TxnId \<Rightarrow> string \<Rightarrow> Value \<Rightarrow> 's \<times> Tuple option"
  eput :: "'s \<Rightarrow> TxnId \<Rightarrow> string \<Rightarrow> Value \<Rightarrow> Tuple \<Rightarrow> 's \<times> DbError"
  eremove :: "'s \<Rightarrow> TxnId \<Rightarrow> string \<Rightarrow> Value \<Rightarrow> 's \<times> DbError"
  escan :: "'s \<Rightarrow> TxnId \<Rightarrow> string \<Rightarrow> Tuple list"
  eprepare :: "'s \<Rightarrow> TxnId \<Rightarrow> 's \<times> DbError"
  ecommit_internal :: "'s \<Rightarrow> TxnId \<Rightarrow> 's \<times> DbError"
  ecommit :: "'s \<Rightarrow> TxnId \<Rightarrow> u64 \<Rightarrow> 's \<times> DbError"
  eabort :: "'s \<Rightarrow> TxnId \<Rightarrow> 's \<times> DbError"

section \<open>Batches of writes\<close>

datatype storage_write = WPut string Value Tuple | WRemove string Value

primrec run_write :: "'s engine_ops \<Rightarrow> TxnId \<Rightarrow> storage_write \<Rightarrow> 's \<Rightarrow> 's" where
  "run_write ops t (WPut tbl k row) s = fst (eput ops s t tbl k row)"
| "run_write ops t (WRemove tbl k) s = fst (eremove ops s t tbl k)"

primrec write_key :: "storage_write \<Rightarrow> Value" where
  "write_key (WPut tbl k row) = k"
| "write_key (WRemove tbl k) = k"

type_synonym view = "string \<Rightarrow> Value \<Rightarrow> Tuple option"

text \<open>What a write means: the addressed entry changes, up to the engine's key equivalence.\<close>

primrec overlay :: "(Value \<Rightarrow> Value \<Rightarrow> bool) \<Rightarrow> storage_write \<Rightarrow> view \<Rightarrow> view" where
  "overlay same (WPut tbl k row) vw = (\<lambda>tbl' k'. if tbl' = tbl \<and> same k k' then Some row else vw tbl' k')"
| "overlay same (WRemove tbl k) vw = (\<lambda>tbl' k'. if tbl' = tbl \<and> same k k' then None else vw tbl' k')"

definition view_of :: "'s engine_ops \<Rightarrow> 's \<Rightarrow> TxnId \<Rightarrow> view" where
  "view_of ops s t tbl k = snd (eget ops s t tbl k)"

text \<open>Views are compared on the keys an engine can store.\<close>

definition agree :: "(Value \<Rightarrow> bool) \<Rightarrow> view \<Rightarrow> view \<Rightarrow> bool" where
  "agree ok v w \<longleftrightarrow> (\<forall>tbl k. ok k \<longrightarrow> v tbl k = w tbl k)"

lemma agree_refl [simp]: "agree ok v v"
  by (simp add: agree_def)

lemma agree_sym: "agree ok v w \<Longrightarrow> agree ok w v"
  by (simp add: agree_def)

lemma agree_trans: "agree ok u v \<Longrightarrow> agree ok v w \<Longrightarrow> agree ok u w"
  by (simp add: agree_def)

lemma agree_overlay: "agree ok v w \<Longrightarrow> agree ok (overlay same x v) (overlay same x w)"
  by (cases x) (simp_all add: agree_def)

lemma overlay_other: "\<not> same (write_key x) k \<Longrightarrow> overlay same x v tbl k = v tbl k"
  by (cases x) simp_all

lemma overlay_at: "v tbl k = w tbl k \<Longrightarrow> overlay same x v tbl k = overlay same x w tbl k"
  by (cases x) simp_all

lemma agree_overlays:
  "agree ok v w \<Longrightarrow> agree ok (fold (overlay same) ws v) (fold (overlay same) ws w)"
  by (induction ws arbitrary: v w) (auto simp: agree_overlay)

section \<open>The contract\<close>

text \<open>
  \<open>idle s t\<close>: transaction \<open>t\<close> has no uncommitted writes; \<open>ok\<close>: the keys covered;
  \<open>same\<close>: which keys address the same entry.
\<close>

locale transactional_store =
  fixes ops :: "'s engine_ops"
    and inv :: "'s \<Rightarrow> bool"
    and idle :: "'s \<Rightarrow> TxnId \<Rightarrow> bool"
    and ok :: "Value \<Rightarrow> bool"
    and same :: "Value \<Rightarrow> Value \<Rightarrow> bool"
  assumes write_inv: "\<lbrakk>inv s; ok (write_key x)\<rbrakk> \<Longrightarrow> inv (run_write ops t x s)"
    and write_own: "\<lbrakk>inv s; ok (write_key x)\<rbrakk> \<Longrightarrow>
      agree ok (view_of ops (run_write ops t x s) t) (overlay same x (view_of ops s t))"
    and write_other: "\<lbrakk>inv s; ok (write_key x); u \<noteq> t\<rbrakk> \<Longrightarrow>
      agree ok (view_of ops (run_write ops t x s) u) (view_of ops s u)"
    and write_idle: "\<lbrakk>inv s; ok (write_key x); u \<noteq> t\<rbrakk> \<Longrightarrow> idle (run_write ops t x s) u = idle s u"
    and idle_agree: "\<lbrakk>inv s; idle s t; idle s u\<rbrakk> \<Longrightarrow> agree ok (view_of ops s t) (view_of ops s u)"
    and commit_ok: "\<lbrakk>inv s; seq \<noteq> 0\<rbrakk> \<Longrightarrow> isSentinel (snd (ecommit ops s t seq))"
    and commit_inv: "\<lbrakk>inv s; seq \<noteq> 0\<rbrakk> \<Longrightarrow> inv (fst (ecommit ops s t seq))"
    and commit_publishes: "\<lbrakk>inv s; seq \<noteq> 0; u = t \<or> idle s u\<rbrakk> \<Longrightarrow>
      agree ok (view_of ops (fst (ecommit ops s t seq)) u) (view_of ops s t)"
    and commit_idle: "\<lbrakk>inv s; seq \<noteq> 0\<rbrakk> \<Longrightarrow> idle (fst (ecommit ops s t seq)) u = (u = t \<or> idle s u)"
    and abort_inv: "inv s \<Longrightarrow> inv (fst (eabort ops s t))"
    and abort_other: "\<lbrakk>inv s; u \<noteq> t\<rbrakk> \<Longrightarrow> agree ok (view_of ops (fst (eabort ops s t)) u) (view_of ops s u)"
    and abort_idle: "inv s \<Longrightarrow> idle (fst (eabort ops s t)) u = (u = t \<or> idle s u)"
begin

lemma writes_inv:
  "\<lbrakk>inv s; \<forall>x \<in> set ws. ok (write_key x)\<rbrakk> \<Longrightarrow> inv (fold (run_write ops t) ws s)"
  by (induction ws arbitrary: s) (auto simp: write_inv)

lemma writes_own:
  "\<lbrakk>inv s; \<forall>x \<in> set ws. ok (write_key x)\<rbrakk> \<Longrightarrow>
   agree ok (view_of ops (fold (run_write ops t) ws s) t) (fold (overlay same) ws (view_of ops s t))"
proof (induction ws arbitrary: s)
  case (Cons x ws)
  then have "agree ok (view_of ops (fold (run_write ops t) ws (run_write ops t x s)) t)
      (fold (overlay same) ws (view_of ops (run_write ops t x s) t))"
    by (simp add: write_inv)
  moreover have "agree ok (fold (overlay same) ws (view_of ops (run_write ops t x s) t))
      (fold (overlay same) ws (overlay same x (view_of ops s t)))"
    using Cons.prems write_own agree_overlays by auto
  ultimately show ?case using agree_trans by fastforce
qed simp

lemma writes_other:
  "\<lbrakk>inv s; \<forall>x \<in> set ws. ok (write_key x); u \<noteq> t\<rbrakk> \<Longrightarrow>
   agree ok (view_of ops (fold (run_write ops t) ws s) u) (view_of ops s u) \<and>
   idle (fold (run_write ops t) ws s) u = idle s u"
proof (induction ws arbitrary: s)
  case (Cons x ws)
  then have "agree ok (view_of ops (fold (run_write ops t) ws (run_write ops t x s)) u)
      (view_of ops (run_write ops t x s) u) \<and> idle (fold (run_write ops t) ws (run_write ops t x s)) u = idle s u"
    by (simp add: write_inv write_idle)
  then show ?case using Cons.prems write_other [of s x u t] agree_trans by auto
qed simp

text \<open>A transaction that writes and commits: readers go from the old view to all its writes at once.\<close>

lemma commit_atomic:
  assumes "inv s" "idle s t" "idle s u" "u \<noteq> t" "\<forall>x \<in> set ws. ok (write_key x)" "seq \<noteq> 0"
  defines "s' \<equiv> fold (run_write ops t) ws s"
  shows "agree ok (view_of ops s' u) (view_of ops s u)"
    and "agree ok (view_of ops (fst (ecommit ops s' t seq)) u) (fold (overlay same) ws (view_of ops s u))"
proof -
  have s': "inv s'" "idle s' u" "agree ok (view_of ops s' u) (view_of ops s u)"
    using writes_inv [OF assms(1,5)] writes_other [OF assms(1,5,4)] assms(3) by (simp_all add: s'_def)
  then show "agree ok (view_of ops s' u) (view_of ops s u)" by blast
  have "agree ok (view_of ops s' t) (fold (overlay same) ws (view_of ops s t))"
    using writes_own [OF assms(1,5)] by (simp add: s'_def)
  then have "agree ok (view_of ops s' t) (fold (overlay same) ws (view_of ops s u))"
    using idle_agree [OF assms(1-3)] agree_overlays agree_trans by blast
  then show "agree ok (view_of ops (fst (ecommit ops s' t seq)) u) (fold (overlay same) ws (view_of ops s u))"
    using commit_publishes [OF s'(1) assms(6)] s'(2) agree_trans by blast
qed

text \<open>A transaction that writes and aborts leaves every idle reader, and itself, with the old view.\<close>

lemma abort_rolls_back:
  assumes "inv s" "idle s t" "idle s u" "u \<noteq> t" "\<forall>x \<in> set ws. ok (write_key x)"
  defines "s' \<equiv> fst (eabort ops (fold (run_write ops t) ws s) t)"
  shows "agree ok (view_of ops s' u) (view_of ops s u)" and "agree ok (view_of ops s' t) (view_of ops s t)"
proof -
  let ?w = "fold (run_write ops t) ws s"
  have w: "inv ?w" "idle ?w u" "agree ok (view_of ops ?w u) (view_of ops s u)"
    using writes_inv [OF assms(1,5)] writes_other [OF assms(1,5,4)] assms(3) by simp_all
  show u: "agree ok (view_of ops s' u) (view_of ops s u)"
    using agree_trans [OF abort_other [OF w(1) assms(4)] w(3)] by (simp add: s'_def)
  have "inv s'" "idle s' t" "idle s' u" using abort_inv w abort_idle by (simp_all add: s'_def)
  then have "agree ok (view_of ops s' t) (view_of ops s' u)" using idle_agree by blast
  then show "agree ok (view_of ops s' t) (view_of ops s t)"
    using u idle_agree [OF assms(1) assms(3,2)] agree_trans by blast
qed

end

end
