(* ===== verification/InMemory_Engine.thy ===== *)
theory InMemory_Engine
  imports Storage_Contract
begin

text \<open>
  \<open>includes/opendb/storage/InMemoryStorageEngine.hpp\<close>: append-only versioned rows. A table
  is a \<open>std::map\<close> from keys to version lists (newest last), ordered by \<open>Value::operator<\<close>; the
  hash table of tables is an association list whose order nothing depends on.
\<close>

section \<open>State\<close>

record Version =
  commitSeq :: u64
  ver_txn :: u64
  payload :: Tuple
  tombstone :: bool

type_synonym version_map = "(Value \<times> Version list) list"

record InMemory =
  im_tables :: "(string \<times> version_map) list"
  im_auto_id :: "(string \<times> u64) list"
  im_internal_seq :: u64
  im_visible_seq :: u64

definition im_init :: InMemory where
  "im_init = \<lparr>im_tables = [], im_auto_id = [], im_internal_seq = 0, im_visible_seq = 0\<rparr>"

section \<open>Operations\<close>

definition isVisible :: "InMemory \<Rightarrow> TxnId \<Rightarrow> Version \<Rightarrow> bool" where
  "isVisible s txn v = (if commitSeq v = 0 then ver_txn v = txn else commitSeq v \<le> im_visible_seq s)"

text \<open>The walk over one version list from the newest version on.\<close>

definition newest_live :: "(Version \<Rightarrow> bool) \<Rightarrow> Version list \<Rightarrow> Tuple option" where
  "newest_live vis vs =
     (case find vis (rev vs) of
        None \<Rightarrow> None
      | Some v \<Rightarrow> if tombstone v then None else Some (payload v))"

definition im_get :: "InMemory \<Rightarrow> TxnId \<Rightarrow> string \<Rightarrow> Value \<Rightarrow> Tuple option" where
  "im_get s txn table key =
     (case map_of (im_tables s) table of
        None \<Rightarrow> None
      | Some rows \<Rightarrow>
          (case map_find value_less key rows of
             None \<Rightarrow> None
           | Some versions \<Rightarrow> newest_live (isVisible s txn) versions))"

text \<open>\<open>tables_[table][key].push_back(v)\<close>\<close>

definition append_version :: "InMemory \<Rightarrow> string \<Rightarrow> Value \<Rightarrow> Version \<Rightarrow> InMemory" where
  "append_version s table key v =
     s\<lparr>im_tables := AList.update table
         (map_adjust value_less key [] (\<lambda>vs. vs @ [v])
            (case map_of (im_tables s) table of None \<Rightarrow> [] | Some rows \<Rightarrow> rows)) (im_tables s)\<rparr>"

definition next_auto_id :: "InMemory \<Rightarrow> string \<Rightarrow> u64" where
  "next_auto_id s table = (case map_of (im_auto_id s) table of None \<Rightarrow> 0 | Some n \<Rightarrow> n) + 1"

definition im_put :: "InMemory \<Rightarrow> TxnId \<Rightarrow> string \<Rightarrow> Value \<Rightarrow> Tuple \<Rightarrow> InMemory \<times> DbError" where
  "im_put s txn table key row =
     (let (s1, effective_key, stored_row) =
        (if isNull key
         then (s\<lparr>im_auto_id := AList.update table (next_auto_id s table) (im_auto_id s)\<rparr>,
               VInt64 (next_auto_id s table), tset row ''_id'' (VInt64 (next_auto_id s table)))
         else (s, key, row))
      in (append_version s1 table effective_key
            \<lparr>commitSeq = 0, ver_txn = txn, payload = stored_row, tombstone = False\<rparr>, sentinel))"

definition im_remove :: "InMemory \<Rightarrow> TxnId \<Rightarrow> string \<Rightarrow> Value \<Rightarrow> InMemory \<times> DbError" where
  "im_remove s txn table key =
     (append_version s table key
        \<lparr>commitSeq = 0, ver_txn = txn, payload = Tuple_empty, tombstone = True\<rparr>, sentinel)"

definition im_scan :: "InMemory \<Rightarrow> TxnId \<Rightarrow> string \<Rightarrow> Tuple list" where
  "im_scan s txn table =
     (case map_of (im_tables s) table of
        None \<Rightarrow> []
      | Some rows \<Rightarrow> List.map_filter (\<lambda>(key, versions). newest_live (isVisible s txn) versions) rows)"

definition im_prepare :: "InMemory \<Rightarrow> TxnId \<Rightarrow> InMemory \<times> DbError" where
  "im_prepare s txn = (s, sentinel)"

definition staged_by :: "TxnId \<Rightarrow> Version \<Rightarrow> bool" where
  "staged_by txn v \<longleftrightarrow> ver_txn v = txn \<and> commitSeq v = 0"

definition stamp :: "TxnId \<Rightarrow> u64 \<Rightarrow> Version \<Rightarrow> Version" where
  "stamp txn seq v = (if staged_by txn v then v\<lparr>commitSeq := seq\<rparr> else v)"

definition im_commit :: "InMemory \<Rightarrow> TxnId \<Rightarrow> u64 \<Rightarrow> InMemory \<times> DbError" where
  "im_commit s txn visibleSeq =
     (s\<lparr>im_tables := map (\<lambda>(name, rows). (name, map (\<lambda>(key, vs). (key, map (stamp txn visibleSeq) vs)) rows))
          (im_tables s),
        im_visible_seq := max (im_visible_seq s) visibleSeq\<rparr>, sentinel)"

definition im_commit_internal :: "InMemory \<Rightarrow> TxnId \<Rightarrow> InMemory \<times> DbError" where
  "im_commit_internal s txn =
     (let seq = im_internal_seq s + 1 in im_commit (s\<lparr>im_internal_seq := seq\<rparr>) txn seq)"

definition unstage_rows :: "TxnId \<Rightarrow> version_map \<Rightarrow> version_map" where
  "unstage_rows txn rows =
     filter (\<lambda>(key, vs). vs \<noteq> []) (map (\<lambda>(key, vs). (key, filter (\<lambda>v. \<not> staged_by txn v) vs)) rows)"

definition im_abort :: "InMemory \<Rightarrow> TxnId \<Rightarrow> InMemory \<times> DbError" where
  "im_abort s txn =
     (let unstaged = map (\<lambda>(name, rows). (name, unstage_rows txn rows)) (im_tables s);
          dropped = map fst (filter (\<lambda>(name, rows). rows = []) unstaged)
      in (s\<lparr>im_tables := filter (\<lambda>(name, rows). rows \<noteq> []) unstaged,
            im_auto_id := filter (\<lambda>(name, n). name \<notin> set dropped) (im_auto_id s)\<rparr>, sentinel))"

definition tableCount :: "InMemory \<Rightarrow> nat" where
  "tableCount s = length (im_tables s)"

definition rowCount :: "InMemory \<Rightarrow> string \<Rightarrow> nat" where
  "rowCount s table = (case map_of (im_tables s) table of None \<Rightarrow> 0 | Some rows \<Rightarrow> length rows)"

definition InMemoryStorageEngine :: "InMemory engine_ops" where
  "InMemoryStorageEngine =
     \<lparr>eget = \<lambda>s t tbl k. (s, im_get s t tbl k), eput = im_put, eremove = im_remove, escan = im_scan,
      eprepare = im_prepare, ecommit_internal = im_commit_internal, ecommit = im_commit,
      eabort = im_abort\<rparr>"

section \<open>Version lists\<close>

text \<open>
  The abstraction the proofs work on: the version list a table and a key address. Every
  operation is one list function on it.
\<close>

definition versions_at :: "InMemory \<Rightarrow> string \<Rightarrow> Value \<Rightarrow> Version list" where
  "versions_at s table key =
     (case map_of (im_tables s) table of
        None \<Rightarrow> []
      | Some rows \<Rightarrow> (case map_find value_less key rows of None \<Rightarrow> [] | Some vs \<Rightarrow> vs))"

definition versions_ok :: "u64 \<Rightarrow> Version list \<Rightarrow> bool" where
  "versions_ok seq vs \<longleftrightarrow> vs \<noteq> [] \<and> (\<forall>v \<in> set vs. commitSeq v \<le> seq)"

definition rows_ok :: "u64 \<Rightarrow> version_map \<Rightarrow> bool" where
  "rows_ok seq rows \<longleftrightarrow> vo.ascending rows \<and> rows \<noteq> [] \<and> (\<forall>r \<in> set rows. versions_ok seq (snd r))"

definition im_inv :: "InMemory \<Rightarrow> bool" where
  "im_inv s \<longleftrightarrow> distinct (map fst (im_tables s)) \<and>
     (\<forall>e \<in> set (im_tables s). rows_ok (im_visible_seq s) (snd e))"

definition im_idle :: "InMemory \<Rightarrow> TxnId \<Rightarrow> bool" where
  "im_idle s t \<longleftrightarrow> (\<forall>e \<in> set (im_tables s). \<forall>r \<in> set (snd e). \<forall>v \<in> set (snd r). \<not> staged_by t v)"

definition key_ok :: "Value \<Rightarrow> bool" where
  "key_ok k \<longleftrightarrow> not_nan k \<and> k \<noteq> VNull"

lemma im_get_versions: "im_get s t tbl k = newest_live (isVisible s t) (versions_at s tbl k)"
  by (simp add: im_get_def versions_at_def newest_live_def split: option.splits)

lemma map_of_filter_snd:
  "distinct (map fst al) \<Longrightarrow> map_of (filter (\<lambda>(k, v). P v) al) k =
     (case map_of al k of None \<Rightarrow> None | Some v \<Rightarrow> if P v then Some v else None)"
proof (induction al)
  case (Cons e al)
  have "map_of al (fst e) = None" using Cons.prems by (simp add: map_of_eq_None_iff)
  then show ?case using Cons by (cases e) auto
qed simp

lemma set_AList_update: "e \<in> set (AList.update k v al) \<Longrightarrow> e = (k, v) \<or> e \<in> set al"
  by (induction al) (auto split: if_splits)

lemma distinct_filter_keys: "distinct (map fst al) \<Longrightarrow> distinct (map fst (filter P al))"
  by (induction al) auto

text \<open>The rows of a table, none when the table is missing.\<close>

definition rows_of :: "InMemory \<Rightarrow> string \<Rightarrow> version_map" where
  "rows_of s tbl = (case map_of (im_tables s) tbl of None \<Rightarrow> [] | Some rows \<Rightarrow> rows)"

lemma versions_at_rows_of:
  "versions_at s tbl k = (case map_find value_less k (rows_of s tbl) of None \<Rightarrow> [] | Some vs \<Rightarrow> vs)"
  by (simp add: versions_at_def rows_of_def split: option.splits)

lemma ascending_rows_of: "im_inv s \<Longrightarrow> vo.ascending (rows_of s tbl)"
  by (auto simp: im_inv_def rows_ok_def rows_of_def dest!: map_of_SomeD split: option.splits)

lemma rows_of_append:
  "rows_of (append_version s tbl k v) tbl' =
     (if tbl' = tbl then map_adjust value_less k [] (\<lambda>vs. vs @ [v]) (rows_of s tbl) else rows_of s tbl')"
  by (auto simp: rows_of_def append_version_def update_conv')

lemma versions_at_append:
  assumes "im_inv s" "not_nan k" "not_nan k'"
  shows "versions_at (append_version s tbl k v) tbl' k' =
    versions_at s tbl' k' @ (if tbl' = tbl \<and> vo.eqv k k' then [v] else [])"
proof -
  have asc: "vo.ascending (rows_of s tbl)" by (rule ascending_rows_of [OF assms(1)])
  have "vo.eqv k k' \<Longrightarrow> map_find value_less k (rows_of s tbl) = map_find value_less k' (rows_of s tbl)"
    by (rule vo.find_eqv [OF asc assms(2,3)])
  then show ?thesis
    using vo.find_adjust [OF asc assms(2,3), of "[]" "\<lambda>vs. vs @ [v]"]
    by (auto simp: versions_at_rows_of rows_of_append split: option.splits)
qed

lemma rows_of_commit:
  "rows_of (fst (im_commit s t seq)) tbl = map (\<lambda>(key, vs). (key, map (stamp t seq) vs)) (rows_of s tbl)"
  by (simp add: rows_of_def im_commit_def map_of_map split: option.splits)

lemma versions_at_commit: "versions_at (fst (im_commit s t seq)) tbl k = map (stamp t seq) (versions_at s tbl k)"
  by (simp add: versions_at_rows_of rows_of_commit vo.find_map_snd split: option.splits)

lemma rows_of_abort:
  assumes "im_inv s"
  shows "rows_of (fst (im_abort s t)) tbl = unstage_rows t (rows_of s tbl)"
proof -
  let ?u = "map (\<lambda>(name, rows). (name, unstage_rows t rows)) (im_tables s)"
  have "distinct (map fst ?u)" using assms by (simp add: im_inv_def comp_def case_prod_unfold)
  then have "map_of (filter (\<lambda>(name, rows). rows \<noteq> []) ?u) tbl =
      (case map_of ?u tbl of None \<Rightarrow> None | Some rows \<Rightarrow> if rows \<noteq> [] then Some rows else None)"
    by (rule map_of_filter_snd)
  then show ?thesis
    by (simp add: rows_of_def im_abort_def Let_def map_of_map unstage_rows_def split: option.splits)
qed

lemma ascending_unstage: "vo.ascending rows \<Longrightarrow> vo.ascending (unstage_rows t rows)"
  by (simp add: unstage_rows_def vo.ascending_filter vo.ascending_map_snd)

lemma versions_at_abort:
  assumes "im_inv s" "not_nan k"
  shows "versions_at (fst (im_abort s t)) tbl k = filter (\<lambda>v. \<not> staged_by t v) (versions_at s tbl k)"
proof -
  let ?m = "map (\<lambda>(key, vs). (key, filter (\<lambda>v. \<not> staged_by t v) vs)) (rows_of s tbl)"
  have "vo.ascending ?m" using ascending_rows_of [OF assms(1)] by (simp add: vo.ascending_map_snd)
  then show ?thesis
    using assms vo.find_filter [of ?m k "\<lambda>vs. vs \<noteq> []"]
    by (simp add: versions_at_rows_of rows_of_abort unstage_rows_def vo.find_map_snd split: option.splits)
qed

section \<open>Invariant\<close>

lemma im_inv_init [inv_intros]: "im_inv im_init"
  by (simp add: im_inv_def im_init_def)

lemma rows_of_ok: "im_inv s \<Longrightarrow> rows_of s tbl = [] \<or> rows_ok (im_visible_seq s) (rows_of s tbl)"
  by (auto simp: im_inv_def rows_of_def dest!: map_of_SomeD split: option.splits)

lemma versions_adjust:
  assumes "\<forall>r \<in> set m. versions_ok seq (snd r)" "commitSeq v \<le> seq"
  shows "\<forall>r \<in> set (map_adjust value_less k [] (\<lambda>vs. vs @ [v]) m). versions_ok seq (snd r)"
  using assms
proof (induction m)
  case Nil
  then show ?case by (simp add: versions_ok_def)
next
  case (Cons e m)
  then show ?case by (cases e) (auto simp: versions_ok_def)
qed

lemma adjust_nonempty [simp]: "map_adjust lt k d f m \<noteq> []"
  by (induction lt k d f m rule: map_adjust.induct) auto

lemma im_inv_append [inv_intros]:
  assumes "im_inv s" "not_nan k" "commitSeq v = 0"
  shows "im_inv (append_version s tbl k v)"
proof -
  let ?rows = "map_adjust value_less k [] (\<lambda>vs. vs @ [v]) (rows_of s tbl)"
  have "\<forall>r \<in> set (rows_of s tbl). versions_ok (im_visible_seq s) (snd r)"
    using rows_of_ok [OF assms(1), of tbl] by (auto simp: rows_ok_def)
  then have "\<forall>r \<in> set ?rows. versions_ok (im_visible_seq s) (snd r)"
    using assms(3) by (intro versions_adjust) simp_all
  then have "rows_ok (im_visible_seq s) ?rows"
    using vo.ascending_adjust [OF ascending_rows_of [OF assms(1)] assms(2)] by (simp add: rows_ok_def)
  then have "rows_ok (im_visible_seq s) (snd e)" if "e \<in> set (AList.update tbl ?rows (im_tables s))" for e
    using set_AList_update [OF that] assms(1) by (auto simp: im_inv_def)
  then show ?thesis
    using assms(1) by (simp add: im_inv_def append_version_def rows_of_def [symmetric] distinct_update)
qed

lemma rows_ok_stamp:
  assumes "rows_ok seq rows"
  shows "rows_ok (max seq q) (map (\<lambda>(key, vs). (key, map (stamp t q) vs)) rows)"
proof -
  have "commitSeq (stamp t q v) \<le> max seq q" if "commitSeq v \<le> seq" for v
    using that by (auto simp: stamp_def max_def)
  then have "versions_ok (max seq q) (map (stamp t q) vs)" if "versions_ok seq vs" for vs
    using that by (auto simp: versions_ok_def)
  then show ?thesis using assms by (auto simp: rows_ok_def vo.ascending_map_snd)
qed

lemma im_inv_commit [inv_intros]: "im_inv s \<Longrightarrow> im_inv (fst (im_commit s t seq))"
  using rows_ok_stamp by (auto simp: im_inv_def im_commit_def comp_def case_prod_unfold)

lemma rows_ok_unstage:
  assumes "rows_ok seq rows" "unstage_rows t rows \<noteq> []"
  shows "rows_ok seq (unstage_rows t rows)"
proof -
  have "versions_ok seq (snd r)" if "r \<in> set (unstage_rows t rows)" for r
    using that assms(1) by (auto simp: unstage_rows_def rows_ok_def versions_ok_def)
  then show ?thesis using assms ascending_unstage by (simp add: rows_ok_def)
qed

lemma im_inv_abort [inv_intros]: "im_inv s \<Longrightarrow> im_inv (fst (im_abort s t))"
proof -
  assume inv: "im_inv s"
  let ?u = "map (\<lambda>(name, rows). (name, unstage_rows t rows)) (im_tables s)"
  have "distinct (map fst ?u)" using inv by (simp add: im_inv_def comp_def case_prod_unfold)
  then have "distinct (map fst (filter (\<lambda>(name, rows). rows \<noteq> []) ?u))" by (rule distinct_filter_keys)
  moreover have "rows_ok (im_visible_seq s) (snd e)" if "e \<in> set (filter (\<lambda>(name, rows). rows \<noteq> []) ?u)" for e
    using that inv rows_ok_unstage by (auto simp: im_inv_def)
  ultimately show ?thesis by (simp add: im_inv_def im_abort_def Let_def)
qed

section \<open>Visibility\<close>

lemma newest_live_snoc:
  "newest_live vis (vs @ [v]) =
     (if vis v then (if tombstone v then None else Some (payload v)) else newest_live vis vs)"
  by (simp add: newest_live_def)

lemma newest_live_map:
  assumes "\<And>v. v \<in> set vs \<Longrightarrow> vis' (f v) = vis v"
    and "\<And>v. tombstone (f v) = tombstone v \<and> payload (f v) = payload v"
  shows "newest_live vis' (map f vs) = newest_live vis vs"
  using assms by (induction vs rule: rev_induct) (auto simp: newest_live_snoc newest_live_def)

lemma newest_live_filter:
  "(\<And>v. v \<in> set vs \<Longrightarrow> vis v \<Longrightarrow> P v) \<Longrightarrow> newest_live vis (filter P vs) = newest_live vis vs"
  by (induction vs rule: rev_induct) (auto simp: newest_live_snoc newest_live_def)

lemma newest_live_cong:
  "(\<And>v. v \<in> set vs \<Longrightarrow> vis v = vis' v) \<Longrightarrow> newest_live vis vs = newest_live vis' vs"
  by (induction vs rule: rev_induct) (auto simp: newest_live_snoc newest_live_def)

lemma stamp_simps [simp]:
  "tombstone (stamp t q v) = tombstone v" "payload (stamp t q v) = payload v" "ver_txn (stamp t q v) = ver_txn v"
  by (simp_all add: stamp_def)

lemma versions_at_mem:
  assumes "im_inv s" "v \<in> set (versions_at s tbl k)"
  shows "\<exists>e \<in> set (im_tables s). \<exists>r \<in> set (snd e). v \<in> set (snd r)"
proof -
  obtain vs where vs: "map_find value_less k (rows_of s tbl) = Some vs" "v \<in> set vs"
    using assms(2) by (cases "map_find value_less k (rows_of s tbl)") (auto simp: versions_at_rows_of)
  then obtain a where a: "(a, vs) \<in> set (rows_of s tbl)" using vo.find_SomeD [of k "rows_of s tbl" vs] by auto
  then have "(tbl, rows_of s tbl) \<in> set (im_tables s)"
    by (auto simp: rows_of_def dest: map_of_SomeD split: option.splits)
  then show ?thesis using a vs(2) by force
qed

lemma versions_at_seq: "im_inv s \<Longrightarrow> v \<in> set (versions_at s tbl k) \<Longrightarrow> commitSeq v \<le> im_visible_seq s"
  using versions_at_mem [of s v tbl k] by (force simp: im_inv_def rows_ok_def versions_ok_def)

lemma im_idle_iff:
  assumes "im_inv s"
  shows "im_idle s t \<longleftrightarrow> (\<forall>tbl k. not_nan k \<longrightarrow> (\<forall>v \<in> set (versions_at s tbl k). \<not> staged_by t v))"
proof
  assume "im_idle s t"
  then show "\<forall>tbl k. not_nan k \<longrightarrow> (\<forall>v \<in> set (versions_at s tbl k). \<not> staged_by t v)"
    using versions_at_mem [OF assms] by (meson im_idle_def)
next
  assume r: "\<forall>tbl k. not_nan k \<longrightarrow> (\<forall>v \<in> set (versions_at s tbl k). \<not> staged_by t v)"
  have "\<not> staged_by t v" if e: "e \<in> set (im_tables s)" and "r \<in> set (snd e)" and v: "v \<in> set (snd r)" for e r v
  proof -
    have "map_of (im_tables s) (fst e) = Some (snd e)" using assms e by (simp add: im_inv_def)
    then have rows: "rows_of s (fst e) = snd e" by (simp add: rows_of_def)
    have "vo.ascending (snd e)" using assms e by (simp add: im_inv_def rows_ok_def)
    then have "map_find value_less (fst r) (snd e) = Some (snd r)" "not_nan (fst r)"
      using vo.find_mem [of "snd e" "fst r" "snd r"] that(2) by (auto simp: vo.ascending_def)
    then have "not_nan (fst r)" "v \<in> set (versions_at s (fst e) (fst r))"
      using v rows by (simp_all add: versions_at_rows_of)
    then show ?thesis using r by blast
  qed
  then show "im_idle s t" by (simp add: im_idle_def)
qed

lemma im_view: "view_of InMemoryStorageEngine s t tbl k = newest_live (isVisible s t) (versions_at s tbl k)"
  by (simp add: view_of_def InMemoryStorageEngine_def im_get_versions)

lemma im_ops [simp]:
  "ecommit InMemoryStorageEngine = im_commit" "eabort InMemoryStorageEngine = im_abort"
  by (simp_all add: InMemoryStorageEngine_def)

text \<open>Each write appends one version.\<close>

primrec write_version :: "TxnId \<Rightarrow> storage_write \<Rightarrow> Version" where
  "write_version t (WPut tbl k row) = \<lparr>commitSeq = 0, ver_txn = t, payload = row, tombstone = False\<rparr>"
| "write_version t (WRemove tbl k) = \<lparr>commitSeq = 0, ver_txn = t, payload = Tuple_empty, tombstone = True\<rparr>"

primrec write_table :: "storage_write \<Rightarrow> string" where
  "write_table (WPut tbl k row) = tbl"
| "write_table (WRemove tbl k) = tbl"

lemma staged_write_version [simp]: "staged_by u (write_version t x) \<longleftrightarrow> u = t"
  by (cases x) (auto simp: staged_by_def)

lemma run_write_append:
  "key_ok (write_key x) \<Longrightarrow>
   run_write InMemoryStorageEngine t x s = append_version s (write_table x) (write_key x) (write_version t x)"
  by (cases x) (simp_all add: InMemoryStorageEngine_def im_put_def im_remove_def key_ok_def)

lemma overlay_write_version:
  "overlay same x old tbl k = (if tbl = write_table x \<and> same (write_key x) k
     then (if tombstone (write_version t x) then None else Some (payload (write_version t x))) else old tbl k)"
  by (cases x) simp_all

lemma isVisible_append [simp]: "isVisible (append_version s tbl k v) = isVisible s"
  by (simp add: isVisible_def append_version_def fun_eq_iff)

lemma isVisible_staged: "staged_by t v \<Longrightarrow> isVisible s u v \<longleftrightarrow> u = t"
  by (auto simp: staged_by_def isVisible_def)

lemma isVisible_write_version [simp]: "isVisible s u (write_version t x) \<longleftrightarrow> u = t"
  by (simp add: isVisible_staged [of t])

lemma key_ok_not_nan: "key_ok k \<Longrightarrow> not_nan k"
  by (simp add: key_ok_def)

lemma im_inv_write [inv_intros]:
  "im_inv s \<Longrightarrow> key_ok k \<Longrightarrow> im_inv (append_version s tbl k (write_version t x))"
  using staged_write_version [of t t x] by (simp add: im_inv_append key_ok_not_nan staged_by_def)

lemma im_idleD:
  "im_inv s \<Longrightarrow> im_idle s t \<Longrightarrow> key_ok k \<Longrightarrow> v \<in> set (versions_at s tbl k) \<Longrightarrow> \<not> staged_by t v"
  unfolding im_idle_iff using key_ok_not_nan by blast

lemmas write_simps = run_write_append versions_at_append key_ok_not_nan newest_live_snoc

interpretation im: transactional_store InMemoryStorageEngine im_inv im_idle key_ok vo.eqv
proof (unfold_locales, goal_cases)
  case (1 s x t)
  then show ?case by (simp add: run_write_append im_inv_write)
next
  case (2 s x t)
  then show ?case by (simp add: agree_def im_view write_simps overlay_write_version [where t = t])
next
  case (3 s x u t)
  then show ?case by (simp add: agree_def im_view write_simps)
next
  case (4 s x u t)
  then show ?case by (simp add: im_idle_iff im_inv_write write_simps ball_Un)
next
  case (5 s t u)
  have "isVisible s t v = isVisible s u v" if "v \<in> set (versions_at s tbl k)" "key_ok k" for tbl k v
    using im_idleD [OF 5(1,2) that(2,1)] im_idleD [OF 5(1,3) that(2,1)]
    by (auto simp: isVisible_def staged_by_def)
  then show ?case by (simp add: agree_def im_view cong: newest_live_cong)
next
  case (6 s seq t)
  then show ?case by (simp add: im_commit_def)
next
  case (7 s seq t)
  then show ?case by (simp add: im_inv_commit)
next
  case (8 s seq u t)
  have "isVisible (fst (im_commit s t seq)) u (stamp t seq v) = isVisible s t v"
    if "v \<in> set (versions_at s tbl k)" "key_ok k" for tbl k v
  proof -
    have "commitSeq v \<le> im_visible_seq s" "u \<noteq> t \<Longrightarrow> \<not> staged_by u v"
      using 8 that versions_at_seq im_idleD by blast+
    then show ?thesis using 8(2)
      by (auto simp: isVisible_def im_commit_def stamp_def staged_by_def le_max_iff_disj)
  qed
  then show ?case by (simp add: agree_def im_view versions_at_commit newest_live_map)
next
  case (9 s seq t u)
  have st: "staged_by u (stamp t seq v) \<longleftrightarrow> u \<noteq> t \<and> staged_by u v" for v
    using 9(2) by (auto simp: stamp_def staged_by_def)
  have "im_inv (fst (im_commit s t seq))" using 9 by (simp add: im_inv_commit)
  then show ?case using 9 st
    by (auto simp: im_idle_iff versions_at_commit)
next
  case (10 s t)
  then show ?case by (simp add: im_inv_abort)
next
  case (11 s u t)
  have "isVisible (fst (im_abort s t)) u = isVisible s u"
    by (auto simp: isVisible_def im_abort_def Let_def fun_eq_iff)
  moreover have "newest_live (isVisible s u) (filter (\<lambda>v. \<not> staged_by t v) vs) = newest_live (isVisible s u) vs" for vs
    using 11 by (intro newest_live_filter) (auto simp: isVisible_staged)
  ultimately show ?case using 11 by (simp add: agree_def im_view versions_at_abort key_ok_not_nan)
next
  case (12 s t u)
  have "im_inv (fst (im_abort s t))" using 12 by (simp add: im_inv_abort)
  then show ?case using 12
    by (auto simp: im_idle_iff versions_at_abort staged_by_def)
qed

section \<open>Properties\<close>

text \<open>
  C1. Atomic commit: a transaction \<open>t\<close> that writes any sequence of rows and tombstones is
  invisible to every reader that has no writes of its own until it commits, and after the commit
  such a reader sees exactly all of them on top of what it saw before.
\<close>

theorem im_commit_atomic:
  assumes "im_inv s" "im_idle s t" "im_idle s u" "u \<noteq> t" "\<forall>x \<in> set ws. key_ok (write_key x)"
    "seq \<noteq> 0" "key_ok k"
  shows "im_get (fold (run_write InMemoryStorageEngine t) ws s) u tbl k = im_get s u tbl k \<and>
    im_get (fst (im_commit (fold (run_write InMemoryStorageEngine t) ws s) t seq)) u tbl k =
      fold (overlay vo.eqv) ws (im_get s u) tbl k"
  using im.commit_atomic [OF assms(1-6)] assms(7)
  by (simp add: agree_def view_of_def [abs_def] InMemoryStorageEngine_def)

text \<open>
  C10. Abort: after a transaction that wrote any sequence of rows and tombstones aborts, every
  reader without writes of its own, and the transaction itself, sees what it saw before.
\<close>

theorem im_abort_rolls_back:
  assumes "im_inv s" "im_idle s t" "im_idle s u" "u \<noteq> t" "\<forall>x \<in> set ws. key_ok (write_key x)" "key_ok k"
  shows "im_get (fst (im_abort (fold (run_write InMemoryStorageEngine t) ws s) t)) u tbl k = im_get s u tbl k \<and>
    im_get (fst (im_abort (fold (run_write InMemoryStorageEngine t) ws s) t)) t tbl k = im_get s t tbl k"
  using im.abort_rolls_back [OF assms(1-5)] assms(6)
  by (simp add: agree_def view_of_def [abs_def] InMemoryStorageEngine_def)

text \<open>
  Read your writes, and nobody else's: a put or a remove is seen at once by its own
  transaction under every key that compares equal, and by no other transaction.
\<close>

theorem im_read_your_writes:
  assumes "im_inv s" "key_ok k" "key_ok k'"
  shows "im_get (fst (im_put s t tbl k row)) t tbl k' =
      (if compare k k' = SEqual then Some row else im_get s t tbl k') \<and>
    im_get (fst (im_remove s t tbl k)) t tbl k' =
      (if compare k k' = SEqual then None else im_get s t tbl k') \<and>
    (u \<noteq> t \<longrightarrow> im_get (fst (im_put s t tbl k row)) u tbl k' = im_get s u tbl k' \<and>
      im_get (fst (im_remove s t tbl k)) u tbl k' = im_get s u tbl k')"
  using im.write_own [of s "WPut tbl k row" t] im.write_own [of s "WRemove tbl k" t]
    im.write_other [of s "WPut tbl k row" u t] im.write_other [of s "WRemove tbl k" u t] assms
  by (simp add: agree_def view_of_def [abs_def] InMemoryStorageEngine_def value_eqv_iff key_ok_not_nan)

text \<open>
  \<open>scan\<close> and \<open>get\<close> agree: a scan emits, in ascending key order, exactly the rows
  that \<open>get\<close> returns for the stored keys, and every row that \<open>get\<close> finds under any key is
  emitted.
\<close>

theorem im_scan_matches_get:
  assumes "im_inv s"
  shows "im_scan s t tbl = List.map_filter (im_get s t tbl) (map fst (rows_of s tbl)) \<and>
    sorted_wrt value_less (map fst (rows_of s tbl)) \<and>
    (im_get s t tbl k = Some row \<longrightarrow> row \<in> set (im_scan s t tbl))"
proof -
  let ?rows = "rows_of s tbl"
  have asc: "vo.ascending ?rows" by (rule ascending_rows_of [OF assms])
  have scan: "im_scan s t tbl = List.map_filter (\<lambda>(key, vs). newest_live (isVisible s t) vs) ?rows"
    by (simp add: im_scan_def rows_of_def map_filter_def split: option.splits)
  have entry: "im_get s t tbl key = newest_live (isVisible s t) vs" if "(key, vs) \<in> set ?rows" for key vs
    using vo.find_mem [OF asc that] by (simp add: im_get_versions versions_at_rows_of)
  have "List.map_filter (\<lambda>(key, vs). newest_live (isVisible s t) vs) rs =
      List.map_filter (im_get s t tbl) (map fst rs)" if "set rs \<subseteq> set ?rows" for rs
    using that by (induction rs) (auto simp: entry map_filter_simps split: option.splits)
  moreover have "row \<in> set (im_scan s t tbl)" if row: "im_get s t tbl k = Some row"
  proof -
    obtain vs where vs: "map_find value_less k ?rows = Some vs" "newest_live (isVisible s t) vs = Some row"
      using row
      by (cases "map_find value_less k ?rows") (auto simp: im_get_versions versions_at_rows_of newest_live_def)
    then obtain a where "(a, vs) \<in> set ?rows" using vo.find_SomeD [of k ?rows vs] by auto
    then show ?thesis using vs(2) unfolding scan by (force simp: map_filter_def)
  qed
  ultimately show ?thesis using scan asc by (auto simp: vo.ascending_def)
qed

text \<open>
  Automatic keys: inserting under the null key stores the row, extended by its \<open>_id\<close>, under
  the next value of the table's counter, which is one more than the previous automatic key of the
  table; the row is found under that key.
\<close>

theorem im_auto_key:
  assumes "im_inv s"
  shows "im_get (fst (im_put s t tbl VNull row)) t tbl (VInt64 (next_auto_id s tbl)) =
      Some (tset row ''_id'' (VInt64 (next_auto_id s tbl))) \<and>
    next_auto_id (fst (im_put s t tbl VNull row)) tbl = next_auto_id s tbl + 1"
proof -
  let ?s = "s\<lparr>im_auto_id := AList.update tbl (next_auto_id s tbl) (im_auto_id s)\<rparr>"
  let ?k = "VInt64 (next_auto_id s tbl)"
  have "im_inv ?s" using assms by (simp add: im_inv_def)
  moreover have "key_ok ?k" by (simp add: key_ok_def)
  moreover have "fst (im_put s t tbl VNull row) = fst (im_put ?s t tbl ?k (tset row ''_id'' ?k))"
    by (simp add: im_put_def)
  moreover have "vo.eqv ?k ?k" by (simp add: vo.eqv_refl)
  ultimately have "im_get (fst (im_put s t tbl VNull row)) t tbl ?k = Some (tset row ''_id'' ?k)"
    using im.write_own [of ?s "WPut tbl ?k (tset row ''_id'' ?k)" t]
    by (simp add: agree_def view_of_def [abs_def] InMemoryStorageEngine_def)
  then show ?thesis by (simp add: im_put_def append_version_def next_auto_id_def update_conv')
qed

text \<open>Witnesses, on the empty engine and on one with a committed row.\<close>

definition one_row :: Tuple where
  "one_row = Tuple_of [(''id'', VInt64 7), (''n'', VText ''x'')]"

lemma im_idle_init [simp]: "im_idle im_init t"
  by (simp add: im_idle_def im_init_def)

lemma im_get_init: "im_get im_init t tbl k = None"
  by (simp add: im_get_def im_init_def)

theorem im_commit_atomic_witness:
  "im_get (fst (im_commit (fold (run_write InMemoryStorageEngine 1) [WPut ''u'' (VInt64 7) one_row] im_init) 1 1))
     2 ''u'' (VInt64 7) = Some one_row"
  using im_commit_atomic [OF im_inv_init, of 1 2 "[WPut ''u'' (VInt64 7) one_row]" 1 "VInt64 7" "''u''"]
  by (simp add: key_ok_def vo.eqv_refl)

theorem im_abort_rolls_back_witness:
  "im_get (fst (im_abort (fold (run_write InMemoryStorageEngine 1) [WPut ''u'' (VInt64 7) one_row] im_init) 1))
     2 ''u'' (VInt64 7) = None"
  using im_abort_rolls_back [OF im_inv_init, of 1 2 "[WPut ''u'' (VInt64 7) one_row]" "VInt64 7" "''u''"]
  by (simp add: key_ok_def im_get_init)

theorem im_read_your_writes_witness:
  "im_get (fst (im_put im_init 1 ''u'' (VInt64 7) one_row)) 1 ''u'' (VInt64 7) = Some one_row"
  using im_read_your_writes [OF im_inv_init, of "VInt64 7" "VInt64 7" 1 "''u''" one_row]
  by (simp add: key_ok_def)

theorem im_scan_matches_get_witness:
  "one_row \<in> set (im_scan (fst (im_put im_init 1 ''u'' (VInt64 7) one_row)) 1 ''u'')"
proof -
  have "im_inv (run_write InMemoryStorageEngine 1 (WPut ''u'' (VInt64 7) one_row) im_init)"
    by (rule im.write_inv) (simp_all add: im_inv_init key_ok_def)
  then have "im_inv (fst (im_put im_init 1 ''u'' (VInt64 7) one_row))" by (simp add: InMemoryStorageEngine_def)
  moreover have "im_get (fst (im_put im_init 1 ''u'' (VInt64 7) one_row)) 1 ''u'' (VInt64 7) = Some one_row"
    by (simp add: im_put_def append_version_def im_init_def im_get_def newest_live_def isVisible_def value_less_def)
  ultimately show ?thesis using im_scan_matches_get by blast
qed

theorem im_auto_key_witness: "im_inv im_init \<and> next_auto_id (fst (im_put im_init 1 ''u'' VNull one_row)) ''u'' = 2"
  using im_auto_key [OF im_inv_init, of 1 "''u''" one_row] im_inv_init by (simp add: next_auto_id_def im_init_def)

end
