(* ===== verification/Caching.thy ===== *)
theory Caching
  imports InMemory_Engine
begin

text \<open>
  \<open>includes/opendb/storage/CachingStorageEngine.hpp\<close>: the decorator that caches reads of the
  pseudo transaction 0. The cache key is built from \<open>Value::toString\<close>, which has no defined
  result for a few dates, so the operations that build it return a \<open>result\<close>.
\<close>

section \<open>State and operations\<close>

record 's caching =
  c_inner :: 's
  c_cache :: "(string \<times> Tuple option) list"

definition makeKey :: "string \<Rightarrow> Value \<Rightarrow> string result" where
  "makeKey table key = rbind (toString key) (\<lambda>s. Inr (table @ ''|->'' @ s))"

definition cacheSize :: "'s caching \<Rightarrow> nat" where
  "cacheSize c = length (c_cache c)"

definition cache_get ::
  "'s engine_ops \<Rightarrow> 's caching \<Rightarrow> TxnId \<Rightarrow> string \<Rightarrow> Value \<Rightarrow> ('s caching \<times> Tuple option) result" where
  "cache_get ops c txn table key =
     (if txn = 0 then
        rbind (makeKey table key) (\<lambda>ck.
          case map_of (c_cache c) ck of
            Some v \<Rightarrow> Inr (c, v)
          | None \<Rightarrow>
              (let (s, v) = eget ops (c_inner c) txn table key
               in Inr (c\<lparr>c_inner := s, c_cache := AList.update ck v (c_cache c)\<rparr>, v)))
      else (let (s, v) = eget ops (c_inner c) txn table key in Inr (c\<lparr>c_inner := s\<rparr>, v)))"

definition invalidate :: "'s caching \<Rightarrow> string \<Rightarrow> Value \<Rightarrow> 's caching result" where
  "invalidate c table key = rbind (makeKey table key) (\<lambda>ck. Inr (c\<lparr>c_cache := AList.delete ck (c_cache c)\<rparr>))"

definition cache_put ::
  "'s engine_ops \<Rightarrow> 's caching \<Rightarrow> TxnId \<Rightarrow> string \<Rightarrow> Value \<Rightarrow> Tuple \<Rightarrow> ('s caching \<times> DbError) result" where
  "cache_put ops c txn table key row =
     (let (s, e) = eput ops (c_inner c) txn table key row; c' = c\<lparr>c_inner := s\<rparr>
      in if isSentinel e then rbind (invalidate c' table key) (\<lambda>c''. Inr (c'', e)) else Inr (c', e))"

definition cache_remove ::
  "'s engine_ops \<Rightarrow> 's caching \<Rightarrow> TxnId \<Rightarrow> string \<Rightarrow> Value \<Rightarrow> ('s caching \<times> DbError) result" where
  "cache_remove ops c txn table key =
     (let (s, e) = eremove ops (c_inner c) txn table key; c' = c\<lparr>c_inner := s\<rparr>
      in if isSentinel e then rbind (invalidate c' table key) (\<lambda>c''. Inr (c'', e)) else Inr (c', e))"

definition cache_scan :: "'s engine_ops \<Rightarrow> 's caching \<Rightarrow> TxnId \<Rightarrow> string \<Rightarrow> Tuple list" where
  "cache_scan ops c txn table = escan ops (c_inner c) txn table"

definition cache_prepare :: "'s engine_ops \<Rightarrow> 's caching \<Rightarrow> TxnId \<Rightarrow> 's caching \<times> DbError" where
  "cache_prepare ops c txn = (let (s, e) = eprepare ops (c_inner c) txn in (c\<lparr>c_inner := s\<rparr>, e))"

definition cache_commit :: "'s engine_ops \<Rightarrow> 's caching \<Rightarrow> TxnId \<Rightarrow> u64 \<Rightarrow> 's caching \<times> DbError" where
  "cache_commit ops c txn vs = (let (s, e) = ecommit ops (c_inner c) txn vs in (c\<lparr>c_inner := s\<rparr>, e))"

definition cache_commit_internal :: "'s engine_ops \<Rightarrow> 's caching \<Rightarrow> TxnId \<Rightarrow> 's caching \<times> DbError" where
  "cache_commit_internal ops c txn = (let (s, e) = ecommit_internal ops (c_inner c) txn in (c\<lparr>c_inner := s\<rparr>, e))"

definition cache_abort :: "'s engine_ops \<Rightarrow> 's caching \<Rightarrow> TxnId \<Rightarrow> 's caching \<times> DbError" where
  "cache_abort ops c txn = (let (s, e) = eabort ops (c_inner c) txn in (c\<lparr>c_inner := s\<rparr>, e))"

section \<open>Coherence\<close>

text \<open>
  Every answer cached for one of the requests \<open>R\<close> is what the inner engine would answer now. The
  cache tells requests apart by their text only, so \<open>R\<close> must not contain two with the same text.
\<close>

definition coherent :: "'s engine_ops \<Rightarrow> (string \<times> Value) set \<Rightarrow> 's caching \<Rightarrow> bool" where
  "coherent ops R c \<longleftrightarrow> (\<forall>(table, key) \<in> R. \<forall>ck v. makeKey table key = Inr ck \<longrightarrow> map_of (c_cache c) ck = Some v \<longrightarrow>
     v = snd (eget ops (c_inner c) 0 table key))"

definition told_apart :: "(string \<times> Value) set \<Rightarrow> bool" where
  "told_apart R \<longleftrightarrow> inj_on (\<lambda>(table, key). makeKey table key) R"

definition pure_get :: "'s engine_ops \<Rightarrow> bool" where
  "pure_get ops \<longleftrightarrow> (\<forall>s t tbl k. fst (eget ops s t tbl k) = s)"

lemma cache_get_coherent:
  assumes "coherent ops R c" "pure_get ops" "told_apart R" "(table, key) \<in> R" "cache_get ops c txn table key = Inr (c', v)"
  shows "v = snd (eget ops (c_inner c) txn table key)" and "c_inner c' = c_inner c" and "coherent ops R c'"
proof -
  have g: "fst (eget ops s t tbl k) = s" for s t tbl k using assms(2) by (simp add: pure_get_def)
  have "v = snd (eget ops (c_inner c) txn table key) \<and> c_inner c' = c_inner c \<and> coherent ops R c'"
  proof (cases "txn = 0")
    case False
    then show ?thesis using assms(1,5) g by (auto simp: cache_get_def Let_def case_prod_unfold)
  next
    case True
    then obtain ck where ck: "makeKey table key = Inr ck" using assms(5) by (auto simp: cache_get_def rbind_Inr_iff)
    show ?thesis
    proof (cases "map_of (c_cache c) ck")
      case None
      then have r: "c' = c\<lparr>c_cache := AList.update ck v (c_cache c)\<rparr>" "v = snd (eget ops (c_inner c) 0 table key)"
        using assms(5) True ck g by (auto simp: cache_get_def Let_def case_prod_unfold)
      have "w = snd (eget ops (c_inner c) 0 t k)"
        if k: "(t, k) \<in> R" "makeKey t k = Inr ck'" "map_of (c_cache c') ck' = Some w" for t k ck' w
      proof (cases "ck' = ck")
        case True
        then have "(t, k) = (table, key)"
          using assms(3,4) ck k(1,2) by (intro inj_onD [OF assms(3) [unfolded told_apart_def]]) auto
        then show ?thesis using k(3) r True by (simp add: update_conv')
      next
        case False
        then have "map_of (c_cache c) ck' = Some w" using k(3) r(1) by (simp add: update_conv')
        then show ?thesis using k(1,2) assms(1) by (force simp: coherent_def)
      qed
      then have "coherent ops R c'" using r(1) by (auto simp: coherent_def)
      then show ?thesis using r True by simp
    next
      case (Some w)
      then show ?thesis using assms(1,4,5) True ck by (force simp: cache_get_def coherent_def)
    qed
  qed
  then show "v = snd (eget ops (c_inner c) txn table key)" "c_inner c' = c_inner c" "coherent ops R c'" by blast+
qed

section \<open>Properties\<close>

text \<open>A sequence of reads.\<close>

fun cache_reads ::
  "'s engine_ops \<Rightarrow> 's caching \<Rightarrow> (TxnId \<times> string \<times> Value) list \<Rightarrow> Tuple option list result" where
  "cache_reads ops c [] = Inr []"
| "cache_reads ops c ((txn, table, key) # rs) =
     rbind (cache_get ops c txn table key) (\<lambda>(c', v). rbind (cache_reads ops c' rs) (\<lambda>vs. Inr (v # vs)))"

lemma cache_reads_coherent:
  assumes "pure_get ops" "told_apart R"
  shows "coherent ops R c \<Longrightarrow> snd ` set rs \<subseteq> R \<Longrightarrow> cache_reads ops c rs = Inr vs \<Longrightarrow>
    vs = map (\<lambda>(txn, table, key). snd (eget ops (c_inner c) txn table key)) rs"
proof (induction rs arbitrary: c vs)
  case (Cons r rs)
  obtain txn table key where r: "r = (txn, table, key)" by (cases r)
  then obtain c' v ws where c': "cache_get ops c txn table key = Inr (c', v)" "cache_reads ops c' rs = Inr ws" "vs = v # ws"
    using Cons.prems(3) by (auto simp: rbind_Inr_iff)
  have "(table, key) \<in> R" using Cons.prems(2) r by simp
  note g = cache_get_coherent [OF Cons.prems(1) assms this c'(1)]
  then show ?case using Cons.IH [OF g(3) _ c'(2)] Cons.prems(2) c'(3) r by simp
qed simp


text \<open>
  The cache is not invalidated by commits: an answer cached for transaction 0 is returned again
  after any commit or abort, whatever the inner engine now holds.
\<close>

theorem cached_answer_survives_commit:
  assumes "makeKey table key = Inr ck" "map_of (c_cache c) ck = Some v"
  shows "cache_get ops (fst (cache_commit ops c txn seq)) 0 table key = Inr (fst (cache_commit ops c txn seq), v) \<and>
    cache_get ops (fst (cache_abort ops c txn)) 0 table key = Inr (fst (cache_abort ops c txn), v)"
  using assms by (simp add: cache_commit_def cache_abort_def cache_get_def Let_def case_prod_unfold)

text \<open>The stale read on the in-memory engine: transaction 1 commits a row, the cached reader still sees none.\<close>

lemma cache_stale_read:
  "\<exists>c1 c2. cache_put InMemoryStorageEngine \<lparr>c_inner = im_init, c_cache = []\<rparr> 1 ''t'' (VInt64 7) Tuple_empty = Inr (c1, sentinel) \<and>
     cache_get InMemoryStorageEngine c1 0 ''t'' (VInt64 7) = Inr (c2, None) \<and>
     im_get (c_inner (fst (cache_commit InMemoryStorageEngine c2 1 1))) 0 ''t'' (VInt64 7) = Some Tuple_empty \<and>
     cache_get InMemoryStorageEngine (fst (cache_commit InMemoryStorageEngine c2 1 1)) 0 ''t'' (VInt64 7) =
       Inr (fst (cache_commit InMemoryStorageEngine c2 1 1), None)"
  by (simp add: cache_put_def cache_get_def cache_commit_def invalidate_def makeKey_def InMemoryStorageEngine_def
      im_put_def im_get_def im_commit_def append_version_def im_init_def newest_live_def isVisible_def value_less_def
      stamp_def staged_by_def)


theorem cached_answer_survives_commit_witness:
  "cache_get InMemoryStorageEngine (fst (cache_commit InMemoryStorageEngine \<lparr>c_inner = im_init, c_cache = [(''t|->7'', None)]\<rparr> 1 1)) 0 ''t'' (VInt64 7) =
     Inr (fst (cache_commit InMemoryStorageEngine \<lparr>c_inner = im_init, c_cache = [(''t|->7'', None)]\<rparr> 1 1), None)"
proof -
  have "makeKey ''t'' (VInt64 7) = Inr ''t|->7''" by code_simp
  from cached_answer_survives_commit [OF this, of "\<lparr>c_inner = im_init, c_cache = [(''t|->7'', None)]\<rparr>" None] show ?thesis by simp
qed

end
