(* ===== verification/Sharding.thy ===== *)
theory Sharding
  imports InMemory_Engine
begin

text \<open>
  \<open>includes/opendb/storage/ShardedStorageEngine.hpp\<close>: an engine that routes each operation to one of
  several child engines. The children are engines of one kind (their operations are the argument
  \<open>ops\<close>, their states a list).
\<close>

section \<open>State and routing\<close>

record 's sharded =
  sh_children :: "'s list"
  sh_policies :: "(string \<times> PartitionPolicy) list"

definition fnv1a :: "bytes \<Rightarrow> u64" where
  "fnv1a bs = foldl (\<lambda>h b. (h XOR ucast b) * 1099511628211) 1469598103934665603 bs"

definition routeByKey :: "nat \<Rightarrow> Value \<Rightarrow> nat option" where
  "routeByKey n key =
     (if n = 0 then None else if n = 1 then Some 0 else Some (unat (fnv1a (toBytes key)) mod n))"

definition policyFor :: "'s sharded \<Rightarrow> string \<Rightarrow> PartitionPolicy" where
  "policyFor s table = (case map_of (sh_policies s) table of None \<Rightarrow> PartitionPolicy_init | Some p \<Rightarrow> p)"

text \<open>The first shard whose half-open interval contains the value, and the first whose list does.\<close>

definition range_shard :: "Value list \<Rightarrow> nat \<Rightarrow> Value \<Rightarrow> nat option" where
  "range_shard bounds n v =
     find (\<lambda>i. compare v (bounds ! i) \<noteq> SLess \<and> compare v (bounds ! (i + 1)) = SLess) [0..<n]"

definition list_shard :: "Value list list \<Rightarrow> nat \<Rightarrow> Value \<Rightarrow> nat option" where
  "list_shard members n v = find (\<lambda>i. \<exists>w \<in> set (members ! i). value_eq v w) [0..<n]"

definition routeByPolicy :: "nat \<Rightarrow> PartitionPolicy \<Rightarrow> Tuple \<Rightarrow> nat option" where
  "routeByPolicy n policy row =
     (if pp_kind policy = PNone then None
      else if n = 0 then None
      else (case maybeGet row (pp_column policy) of
              None \<Rightarrow> None
            | Some v \<Rightarrow>
                (case pp_kind policy of
                   PHash \<Rightarrow> if pp_shardCount policy = 0 then None else Some (unat (fnv1a (toBytes v)) mod n)
                 | PRange \<Rightarrow> if length (pp_boundaries policy) \<noteq> n + 1 then None else range_shard (pp_boundaries policy) n v
                 | PList \<Rightarrow> if length (pp_lists policy) \<noteq> n then None else list_shard (pp_lists policy) n v
                 | PNone \<Rightarrow> None)))"

section \<open>Operations\<close>

definition with_child :: "'s sharded \<Rightarrow> nat \<Rightarrow> ('s \<Rightarrow> 's \<times> 'a) \<Rightarrow> 's sharded \<times> 'a" where
  "with_child s i f = (let (c, r) = f (sh_children s ! i) in (s\<lparr>sh_children := (sh_children s)[i := c]\<rparr>, r))"

definition no_shard :: DbError where
  "no_shard = db_error NotFound ''no shard to route to''"

definition sh_get :: "'s engine_ops \<Rightarrow> 's sharded \<Rightarrow> TxnId \<Rightarrow> string \<Rightarrow> Value \<Rightarrow> 's sharded \<times> Tuple option" where
  "sh_get ops s txn table key =
     (case routeByKey (length (sh_children s)) key of
        None \<Rightarrow> (s, None)
      | Some i \<Rightarrow> with_child s i (\<lambda>c. eget ops c txn table key))"

definition sh_put :: "'s engine_ops \<Rightarrow> 's sharded \<Rightarrow> TxnId \<Rightarrow> string \<Rightarrow> Value \<Rightarrow> Tuple \<Rightarrow> 's sharded \<times> DbError" where
  "sh_put ops s txn table key row =
     (let n = length (sh_children s)
      in case routeByPolicy n (policyFor s table) row of
           Some i \<Rightarrow> with_child s i (\<lambda>c. eput ops c txn table key row)
         | None \<Rightarrow>
             (case routeByKey n key of
                Some i \<Rightarrow> with_child s i (\<lambda>c. eput ops c txn table key row)
              | None \<Rightarrow> (s, no_shard)))"

definition sh_remove :: "'s engine_ops \<Rightarrow> 's sharded \<Rightarrow> TxnId \<Rightarrow> string \<Rightarrow> Value \<Rightarrow> 's sharded \<times> DbError" where
  "sh_remove ops s txn table key =
     (case routeByKey (length (sh_children s)) key of
        None \<Rightarrow> (s, no_shard)
      | Some i \<Rightarrow> with_child s i (\<lambda>c. eremove ops c txn table key))"

definition sh_scan :: "'s engine_ops \<Rightarrow> 's sharded \<Rightarrow> TxnId \<Rightarrow> string \<Rightarrow> Tuple list" where
  "sh_scan ops s txn table = concat (map (\<lambda>c. escan ops c txn table) (sh_children s))"

text \<open>The loops of \<open>prepare\<close> and \<open>commit\<close>, which stop at the first child that fails.\<close>

fun until_error :: "('s \<Rightarrow> 's \<times> DbError) \<Rightarrow> 's list \<Rightarrow> 's list \<times> DbError" where
  "until_error f [] = ([], sentinel)"
| "until_error f (c # cs) =
     (let (c', r) = f c
      in if isSentinel r then (let (cs', e) = until_error f cs in (c' # cs', e)) else (c' # cs, r))"

definition on_children :: "('s list \<Rightarrow> 's list \<times> DbError) \<Rightarrow> 's sharded \<Rightarrow> 's sharded \<times> DbError" where
  "on_children g s = (let (cs, e) = g (sh_children s) in (s\<lparr>sh_children := cs\<rparr>, e))"

definition sh_prepare :: "'s engine_ops \<Rightarrow> 's sharded \<Rightarrow> TxnId \<Rightarrow> 's sharded \<times> DbError" where
  "sh_prepare ops s txn = on_children (until_error (\<lambda>c. eprepare ops c txn)) s"

definition sh_commit_internal :: "'s engine_ops \<Rightarrow> 's sharded \<Rightarrow> TxnId \<Rightarrow> 's sharded \<times> DbError" where
  "sh_commit_internal ops s txn = on_children (until_error (\<lambda>c. ecommit_internal ops c txn)) s"

definition sh_commit :: "'s engine_ops \<Rightarrow> 's sharded \<Rightarrow> TxnId \<Rightarrow> u64 \<Rightarrow> 's sharded \<times> DbError" where
  "sh_commit ops s txn seq = on_children (until_error (\<lambda>c. ecommit ops c txn seq)) s"

definition sh_abort :: "'s engine_ops \<Rightarrow> 's sharded \<Rightarrow> TxnId \<Rightarrow> 's sharded \<times> DbError" where
  "sh_abort ops s txn = on_children (\<lambda>cs. (map (\<lambda>c. fst (eabort ops c txn)) cs, sentinel)) s"

definition installPartitionPolicy :: "'s sharded \<Rightarrow> string \<Rightarrow> PartitionPolicy \<Rightarrow> 's sharded" where
  "installPartitionPolicy s table policy = s\<lparr>sh_policies := AList.update table policy (sh_policies s)\<rparr>"

definition clearPartitionPolicy :: "'s sharded \<Rightarrow> string \<Rightarrow> 's sharded" where
  "clearPartitionPolicy s table = s\<lparr>sh_policies := AList.delete table (sh_policies s)\<rparr>"

definition ShardedStorageEngine :: "'s engine_ops \<Rightarrow> 's sharded engine_ops" where
  "ShardedStorageEngine ops =
     \<lparr>eget = sh_get ops, eput = sh_put ops, eremove = sh_remove ops, escan = sh_scan ops, eprepare = sh_prepare ops,
      ecommit_internal = sh_commit_internal ops, ecommit = sh_commit ops, eabort = sh_abort ops\<rparr>"

section \<open>Routing facts\<close>

lemma find_upt: "find P [0..<n] = Some i \<longleftrightarrow> i < n \<and> P i \<and> (\<forall>j < i. \<not> P j)"
proof
  show "find P [0..<n] = Some i \<Longrightarrow> i < n \<and> P i \<and> (\<forall>j < i. \<not> P j)" by (auto simp: find_Some_iff)
  assume "i < n \<and> P i \<and> (\<forall>j < i. \<not> P j)"
  then show "find P [0..<n] = Some i" unfolding find_Some_iff by (intro exI [of _ i]) auto
qed

lemma routeByKey_bound: "routeByKey n key = Some i \<Longrightarrow> i < n"
  by (auto simp: routeByKey_def split: if_splits)

lemma routeByKey_total: "0 < n \<Longrightarrow> \<exists>i < n. routeByKey n key = Some i"
  by (auto simp: routeByKey_def)

lemma routeByPolicy_bound: "routeByPolicy n policy row = Some i \<Longrightarrow> i < n"
  by (auto simp: routeByPolicy_def range_shard_def list_shard_def find_upt
      split: if_splits option.splits PartitionKind.splits)

section \<open>Hash sharding preserves the transactional contract\<close>

definition shard_of :: "'s sharded \<Rightarrow> Value \<Rightarrow> nat" where
  "shard_of s key = (case routeByKey (length (sh_children s)) key of None \<Rightarrow> 0 | Some i \<Rightarrow> i)"

definition sh_inv :: "('s \<Rightarrow> bool) \<Rightarrow> 's sharded \<Rightarrow> bool" where
  "sh_inv iv s \<longleftrightarrow> sh_children s \<noteq> [] \<and> sh_policies s = [] \<and> (\<forall>c \<in> set (sh_children s). iv c)"

definition sh_idle :: "('s \<Rightarrow> TxnId \<Rightarrow> bool) \<Rightarrow> 's sharded \<Rightarrow> TxnId \<Rightarrow> bool" where
  "sh_idle idle s t \<longleftrightarrow> (\<forall>c \<in> set (sh_children s). idle c t)"

lemma shard_of_bound: "sh_children s \<noteq> [] \<Longrightarrow> shard_of s key < length (sh_children s)"
  using routeByKey_total [of "length (sh_children s)" key] by (auto simp: shard_of_def)

lemma route_shard_of: "sh_children s \<noteq> [] \<Longrightarrow> routeByKey (length (sh_children s)) key = Some (shard_of s key)"
  using routeByKey_total [of "length (sh_children s)" key] by (auto simp: shard_of_def)

lemma view_sharded:
  "sh_children s \<noteq> [] \<Longrightarrow> view_of (ShardedStorageEngine ops) s t tbl k = view_of ops (sh_children s ! shard_of s k) t tbl k"
  by (simp add: view_of_def ShardedStorageEngine_def sh_get_def route_shard_of with_child_def Let_def case_prod_unfold)

lemma routeByPolicy_none [simp]: "routeByPolicy n PartitionPolicy_init row = None"
  by (simp add: routeByPolicy_def PartitionPolicy_init_def)

lemma run_write_sharded:
  assumes "sh_children s \<noteq> []" "sh_policies s = []"
  shows "run_write (ShardedStorageEngine ops) t x s =
    s\<lparr>sh_children := (sh_children s)[shard_of s (write_key x) := run_write ops t x (sh_children s ! shard_of s (write_key x))]\<rparr>"
  using assms
  by (cases x) (simp_all add: ShardedStorageEngine_def sh_put_def sh_remove_def route_shard_of with_child_def
      policyFor_def Let_def case_prod_unfold)

lemma until_error_ok: "(\<And>c. c \<in> set cs \<Longrightarrow> isSentinel (snd (f c))) \<Longrightarrow> until_error f cs = (map (\<lambda>c. fst (f c)) cs, sentinel)"
  by (induction cs) (auto simp: Let_def case_prod_unfold)

locale shardable = transactional_store ops inv idle ok "(=)"
  for ops :: "'s engine_ops" and inv idle ok
begin

lemma children_inv: "sh_inv inv s \<Longrightarrow> i < length (sh_children s) \<Longrightarrow> inv (sh_children s ! i)"
  by (simp add: sh_inv_def)

lemma sh_commit_eq:
  assumes "sh_inv inv s" "seq \<noteq> 0"
  shows "sh_commit ops s t seq = (s\<lparr>sh_children := map (\<lambda>c. fst (ecommit ops c t seq)) (sh_children s)\<rparr>, sentinel)"
proof -
  have "until_error (\<lambda>c. ecommit ops c t seq) (sh_children s) = (map (\<lambda>c. fst (ecommit ops c t seq)) (sh_children s), sentinel)"
    by (rule until_error_ok) (use assms commit_ok in \<open>simp add: sh_inv_def\<close>)
  then show ?thesis by (simp add: sh_commit_def on_children_def)
qed

lemma shard_of_update [simp]: "length cs = length (sh_children s) \<Longrightarrow> shard_of (s\<lparr>sh_children := cs\<rparr>) k = shard_of s k"
  by (simp add: shard_of_def)

end

sublocale shardable \<subseteq> sh: transactional_store "ShardedStorageEngine ops" "sh_inv inv" "sh_idle idle" ok "(=)"
proof (unfold_locales, goal_cases)
  case (1 s x t)
  have ne: "sh_children s \<noteq> []" "sh_policies s = []" using 1 by (auto simp: sh_inv_def)
  then show ?case
    using 1 write_inv [OF children_inv [OF 1(1) shard_of_bound [OF ne(1)]] 1(2)]
    by (auto simp: sh_inv_def run_write_sharded dest!: set_update_subset_insert [THEN subsetD])
next
  case (2 s x t)
  have ne: "sh_children s \<noteq> []" "sh_policies s = []" using 2 by (auto simp: sh_inv_def)
  have "agree ok (view_of ops (run_write ops t x (sh_children s ! shard_of s (write_key x))) t)
     (overlay (=) x (view_of ops (sh_children s ! shard_of s (write_key x)) t))"
    using write_own [OF children_inv [OF 2(1) shard_of_bound [OF ne(1)]] 2(2)] .
  then have own: "view_of ops (run_write ops t x (sh_children s ! shard_of s (write_key x))) t tbl k =
      overlay (=) x (view_of ops (sh_children s ! shard_of s (write_key x)) t) tbl k" if "ok k" for tbl k
    using that by (simp add: agree_def)
  have "view_of (ShardedStorageEngine ops) (run_write (ShardedStorageEngine ops) t x s) t tbl k =
      overlay (=) x (view_of (ShardedStorageEngine ops) s t) tbl k" if "ok k" for tbl k
  proof (cases "shard_of s k = shard_of s (write_key x)")
    case True
    have "overlay (=) x (view_of (ShardedStorageEngine ops) s t) tbl k =
        overlay (=) x (view_of ops (sh_children s ! shard_of s (write_key x)) t) tbl k"
      by (rule overlay_at) (simp add: view_sharded [OF ne(1)] True)
    then show ?thesis
      using own [OF that, of tbl] ne shard_of_bound [OF ne(1)] True by (simp add: run_write_sharded view_sharded)
  next
    case False
    then have "write_key x \<noteq> k" by auto
    then have "overlay (=) x (view_of (ShardedStorageEngine ops) s t) tbl k = view_of (ShardedStorageEngine ops) s t tbl k"
      by (rule overlay_other)
    then show ?thesis using ne False by (simp add: run_write_sharded view_sharded)
  qed
  then show ?case by (simp add: agree_def)
next
  case (3 s x u t)
  have ne: "sh_children s \<noteq> []" "sh_policies s = []" using 3 by (auto simp: sh_inv_def)
  have "agree ok (view_of ops (run_write ops t x (sh_children s ! shard_of s (write_key x))) u)
     (view_of ops (sh_children s ! shard_of s (write_key x)) u)"
    using write_other [OF children_inv [OF 3(1) shard_of_bound [OF ne(1)]] 3(2,3)] .
  then show ?case
    using ne shard_of_bound [OF ne(1)]
    by (auto simp: agree_def run_write_sharded view_sharded nth_list_update)
next
  case (4 s x u t)
  have ne: "sh_children s \<noteq> []" "sh_policies s = []" using 4 by (auto simp: sh_inv_def)
  note b = shard_of_bound [OF ne(1), of "write_key x"]
  have "idle (run_write ops t x (sh_children s ! shard_of s (write_key x))) u = idle (sh_children s ! shard_of s (write_key x)) u"
    using write_idle [OF children_inv [OF 4(1) b] 4(2,3)] .
  then show ?case
    using ne b by (auto simp: sh_idle_def run_write_sharded all_set_conv_all_nth nth_list_update)
next
  case (5 s t u)
  have ne: "sh_children s \<noteq> []" using 5 by (auto simp: sh_inv_def)
  have "agree ok (view_of ops (sh_children s ! i) t) (view_of ops (sh_children s ! i) u)" if "i < length (sh_children s)" for i
    using idle_agree [OF children_inv [OF 5(1) that]] 5(2,3) that by (simp add: sh_idle_def)
  then show ?case using shard_of_bound [OF ne] by (simp add: agree_def view_sharded [OF ne])
next
  case (6 s seq t)
  then show ?case by (simp add: ShardedStorageEngine_def sh_commit_eq)
next
  case (7 s seq t)
  then show ?case by (simp add: ShardedStorageEngine_def sh_commit_eq) (simp add: sh_inv_def commit_inv)
next
  case (8 s seq u t)
  have ne: "sh_children s \<noteq> []" using 8 by (auto simp: sh_inv_def)
  have "agree ok (view_of ops (fst (ecommit ops (sh_children s ! i) t seq)) u) (view_of ops (sh_children s ! i) t)"
    if "i < length (sh_children s)" for i
    using commit_publishes [OF children_inv [OF 8(1) that] 8(2)] 8(3) that by (auto simp: sh_idle_def)
  moreover have c: "fst (ecommit (ShardedStorageEngine ops) s t seq) = s\<lparr>sh_children := map (\<lambda>c. fst (ecommit ops c t seq)) (sh_children s)\<rparr>"
    using 8(1,2) by (simp add: ShardedStorageEngine_def sh_commit_eq)
  ultimately show ?case using ne shard_of_bound [OF ne] unfolding c by (simp add: agree_def view_sharded)
next
  case (9 s seq t u)
  then show ?case
    by (auto simp: ShardedStorageEngine_def sh_commit_eq) (auto simp: sh_idle_def sh_inv_def commit_idle)
next
  case (10 s t)
  then show ?case by (simp add: ShardedStorageEngine_def sh_abort_def on_children_def sh_inv_def abort_inv)
next
  case (11 s u t)
  have ne: "sh_children s \<noteq> []" using 11 by (auto simp: sh_inv_def)
  have "agree ok (view_of ops (fst (eabort ops (sh_children s ! i) t)) u) (view_of ops (sh_children s ! i) u)"
    if "i < length (sh_children s)" for i
    using abort_other [OF children_inv [OF 11(1) that] 11(2)] .
  moreover have c: "fst (eabort (ShardedStorageEngine ops) s t) = s\<lparr>sh_children := map (\<lambda>c. fst (eabort ops c t)) (sh_children s)\<rparr>"
    by (simp add: ShardedStorageEngine_def sh_abort_def on_children_def)
  ultimately show ?case using ne shard_of_bound [OF ne] unfolding c by (simp add: agree_def view_sharded)
next
  case (12 s t u)
  then show ?case
    by (auto simp: ShardedStorageEngine_def sh_abort_def on_children_def sh_idle_def sh_inv_def abort_idle)
qed

section \<open>Shards of in-memory engines\<close>

text \<open>
  Keys are routed by their bytes and compared by value, so the two must not disagree: texts, and
  64-bit integers in the range where comparison is exact.
\<close>

fun canonical_key :: "Value \<Rightarrow> bool" where
  "canonical_key (VInt64 x) \<longleftrightarrow> \<bar>sint x\<bar> \<le> 2 ^ 53"
| "canonical_key (VText s) \<longleftrightarrow> True"
| "canonical_key v \<longleftrightarrow> False"

lemma canonical_key_ok: "canonical_key k \<Longrightarrow> key_ok k"
  by (cases k) (simp_all add: key_ok_def)

lemma canonical_eqv: "canonical_key k \<Longrightarrow> canonical_key k' \<Longrightarrow> vo.eqv k k' \<longleftrightarrow> k = k'"
proof -
  assume k: "canonical_key k" "canonical_key k'"
  have "compare k k' = SEqual \<longleftrightarrow> k = k'"
    using k by (cases k; cases k') (auto simp: compare_Int64_exact signed_word_eqI, auto simp: compare_def three_way_def split: if_splits)
  then show ?thesis using k canonical_key_ok key_ok_not_nan value_eqv_iff by blast
qed

lemma agree_canonical: "agree key_ok v w \<Longrightarrow> agree canonical_key v w"
  by (simp add: agree_def canonical_key_ok)

lemma overlay_canonical:
  "canonical_key (write_key x) \<Longrightarrow> agree canonical_key (overlay vo.eqv x v) (overlay (=) x v)"
  by (cases x) (auto simp: agree_def canonical_eqv)

interpretation ims: shardable InMemoryStorageEngine im_inv im_idle canonical_key
proof (unfold_locales, goal_cases)
  case (1 s x t)
  then show ?case by (simp add: im.write_inv canonical_key_ok)
next
  case (2 s x t)
  then show ?case
    using agree_canonical [OF im.write_own [OF 2(1) canonical_key_ok [OF 2(2)]]] overlay_canonical agree_trans by blast
next
  case (3 s x u t)
  then show ?case by (simp add: agree_canonical im.write_other canonical_key_ok)
next
  case (4 s x u t)
  then show ?case by (simp add: im.write_idle canonical_key_ok)
next
  case (5 s t u)
  then show ?case by (simp add: agree_canonical im.idle_agree)
next
  case (6 s seq t)
  then show ?case by (rule im.commit_ok)
next
  case (7 s seq t)
  then show ?case by (rule im.commit_inv)
next
  case (8 s seq u t)
  then show ?case by (intro agree_canonical im.commit_publishes)
next
  case (9 s seq t u)
  then show ?case by (rule im.commit_idle)
next
  case (10 s t)
  then show ?case by (rule im.abort_inv)
next
  case (11 s u t)
  then show ?case by (intro agree_canonical im.abort_other)
next
  case (12 s t u)
  then show ?case by (rule im.abort_idle)
qed

section \<open>Properties\<close>


text \<open>
  Range partitioning: with ascending boundaries a value is routed to shard \<open>i\<close> if and only if it
  lies in the half-open interval from the \<open>i\<close>-th to the next boundary; a value outside all intervals
  is not routed by the policy.
\<close>

theorem range_routing:
  assumes "sorted_wrt value_less bounds" "\<forall>b \<in> set bounds. not_nan b" "not_nan v" "length bounds = n + 1"
  shows "range_shard bounds n v = Some i \<longleftrightarrow>
    i < n \<and> \<not> value_less v (bounds ! i) \<and> value_less v (bounds ! (i + 1))"
proof -
  let ?P = "\<lambda>i. compare v (bounds ! i) \<noteq> SLess \<and> compare v (bounds ! (i + 1)) = SLess"
  have key: "value_less v (bounds ! j) \<longleftrightarrow> sort_key v < sort_key (bounds ! j)" if "j < n + 1" for j
    using assms that by (simp add: value_less_iff)
  have mono: "sort_key (bounds ! a) \<le> sort_key (bounds ! b)" if "a \<le> b" "b < n + 1" for a b
  proof (cases "a = b")
    case False
    then have "value_less (bounds ! a) (bounds ! b)" using sorted_wrt_nth_less [OF assms(1)] that assms(4) by simp
    then show ?thesis using assms that by (simp add: value_less_iff)
  qed simp
  have uniq: "\<not> ?P j" if "?P i" "j < i" "i < n" for j
    using that key [of "j + 1"] key [of i] mono [of "j + 1" i] by (auto simp: value_less_def)
  have "range_shard bounds n v = Some i \<longleftrightarrow> i < n \<and> ?P i \<and> (\<forall>j < i. \<not> ?P j)"
    by (simp add: range_shard_def find_upt)
  then show ?thesis using uniq by (auto simp: value_less_def)
qed

text \<open>
  Rows placed by a partition policy are looked up by key hash: when the two disagree, a row that
  was just put is not found under its key, not even by its own transaction.
\<close>

theorem policy_row_not_found:
  assumes "routeByPolicy (length (sh_children s)) (policyFor s tbl) row = Some i"
    "routeByKey (length (sh_children s)) key = Some j" "i \<noteq> j"
  shows "snd (sh_get ops (fst (sh_put ops s t tbl key row)) t tbl key) = snd (sh_get ops s t tbl key)"
  using assms by (simp add: sh_put_def sh_get_def with_child_def Let_def case_prod_unfold)

text \<open>Witnesses: two empty in-memory shards.\<close>

definition two_shards :: "InMemory sharded" where
  "two_shards = \<lparr>sh_children = [im_init, im_init], sh_policies = []\<rparr>"

lemma two_shards_ok: "sh_inv im_inv two_shards" "sh_idle im_idle two_shards t"
  by (simp_all add: sh_inv_def sh_idle_def two_shards_def im_inv_init)

lemma even_ucast8: "even (ucast (b :: u8) :: u64) \<longleftrightarrow> even b"
proof -
  have "bit (ucast b :: u64) 0 = bit b 0" by (simp only: bit_ucast_iff) simp
  then show ?thesis by (simp add: bit_0)
qed

lemma even_unat: "even (unat (w :: u64)) \<longleftrightarrow> even w"
proof -
  have "bit (unat w) 0 = bit w 0" by (simp only: bit_unsigned_iff) simp
  then show ?thesis by (simp add: bit_0)
qed

text \<open>The prime is odd, so the lowest bit of the hash is the parity of the bytes.\<close>

lemma even_fnv_step: "even (((h :: u64) XOR ucast (b :: u8)) * 1099511628211) \<longleftrightarrow> (even h \<longleftrightarrow> even b)"
  by (simp add: even_xor_iff even_ucast8)

lemma fnv_example: "unat (fnv1a (toBytes (VInt64 1))) mod 2 = 1"
proof -
  have "toBytes (VInt64 1) = [3, 1, 0, 0, 0, 0, 0, 0, 0]" by code_simp
  then have "odd (fnv1a (toBytes (VInt64 1)))" by (simp add: fnv1a_def even_fnv_step)
  then have "odd (unat (fnv1a (toBytes (VInt64 1))))" by (simp add: even_unat)
  then show ?thesis by (simp add: odd_iff_mod_2_eq_one)
qed


theorem range_routing_witness:
  "range_shard [VInt64 0, VInt64 10, VInt64 20] 2 (VInt64 12) = Some 1"
  by (subst range_routing) (auto simp: value_less_def compare_Int64_exact)

theorem policy_row_not_found_witness:
  "snd (sh_get InMemoryStorageEngine (fst (sh_put InMemoryStorageEngine
     (installPartitionPolicy two_shards ''u'' (PartitionPolicy_init\<lparr>pp_kind := PList, pp_column := ''a'', pp_lists := [[VText ''x''], [VText ''y'']]\<rparr>))
     1 ''u'' (VInt64 1) (Tuple_of [(''a'', VText ''x'')]))) 1 ''u'' (VInt64 1)) =
   snd (sh_get InMemoryStorageEngine
     (installPartitionPolicy two_shards ''u'' (PartitionPolicy_init\<lparr>pp_kind := PList, pp_column := ''a'', pp_lists := [[VText ''x''], [VText ''y'']]\<rparr>))
     1 ''u'' (VInt64 1))"
  by (rule policy_row_not_found [of _ _ _ 0 _ 1])
     (simp_all add: installPartitionPolicy_def two_shards_def routeByPolicy_def policyFor_def PartitionPolicy_init_def
       maybeGet_map_of list_shard_def routeByKey_def fnv_example [simplified numeral_2_eq_2] fnv_example)

end
