(* ===== verification/Provider_Contract.thy ===== *)
theory Provider_Contract
  imports Commands
begin

text \<open>
  The schema half of \<open>includes/opendb/contracts/IStorageProvider.hpp\<close>: create, drop and
  alter a table, describe it, list the tables. \<open>ddl_spec\<close> is the specification over a plain
  map from table names to schemas; the locale \<open>schema_registry\<close> says that a provider
  implements it and draws the consequences for every history of statements.
\<close>

datatype ddl = CreateTable Schema | DropTable string | AlterTable string AlterSpec

fun remove_column :: "string \<Rightarrow> ColumnDef list \<Rightarrow> ColumnDef list" where
  "remove_column col [] = []"
| "remove_column col (c # cs) = (if cd_name c = col then cs else c # remove_column col cs)"

text \<open>\<open>None\<close>: the statement is refused and nothing changes.\<close>

definition alter_spec :: "string \<Rightarrow> AlterSpec \<Rightarrow> (string \<rightharpoonup> Schema) \<Rightarrow> (string \<rightharpoonup> Schema) option" where
  "alter_spec name sp m =
     (case m name of
        None \<Rightarrow> None
      | Some s \<Rightarrow>
          (case as_kind sp of
             AddColumn \<Rightarrow>
               if hasColumn s (cd_name (as_columnDef sp)) then None
               else Some (m(name \<mapsto> s\<lparr>sc_columns := sc_columns s @ [as_columnDef sp]\<rparr>))
           | DropColumn \<Rightarrow>
               if hasColumn s (as_column sp)
               then Some (m(name \<mapsto> s\<lparr>sc_columns := remove_column (as_column sp) (sc_columns s)\<rparr>))
               else None
           | RenameTable \<Rightarrow>
               if as_column sp = [] \<or> m (as_column sp) \<noteq> None then None
               else Some ((m(name := None))(as_column sp \<mapsto> s\<lparr>sc_table := as_column sp\<rparr>))))"

fun ddl_spec :: "ddl \<Rightarrow> (string \<rightharpoonup> Schema) \<Rightarrow> (string \<rightharpoonup> Schema) option" where
  "ddl_spec (CreateTable s) m = (if m (sc_table s) = None then Some (m(sc_table s \<mapsto> s)) else None)"
| "ddl_spec (DropTable name) m = (if m name = None then None else Some (m(name := None)))"
| "ddl_spec (AlterTable name sp) m = alter_spec name sp m"

text \<open>Every schema is filed under its own name and has pairwise different column names.\<close>

definition columns_distinct :: "Schema \<Rightarrow> bool" where
  "columns_distinct s \<longleftrightarrow> distinct (map cd_name (sc_columns s))"

definition registry_ok :: "(string \<rightharpoonup> Schema) \<Rightarrow> bool" where
  "registry_ok m \<longleftrightarrow> (\<forall>name s. m name = Some s \<longrightarrow> sc_table s = name \<and> columns_distinct s)"

primrec ddl_ok :: "ddl \<Rightarrow> bool" where
  "ddl_ok (CreateTable s) = columns_distinct s"
| "ddl_ok (DropTable name) = True"
| "ddl_ok (AlterTable name sp) = True"

lemma set_remove_column: "set (remove_column col cs) \<subseteq> set cs"
  by (induction col cs rule: remove_column.induct) auto

lemma distinct_remove_column: "distinct (map cd_name cs) \<Longrightarrow> distinct (map cd_name (remove_column col cs))"
  using set_remove_column by (induction col cs rule: remove_column.induct) fastforce+

lemma registry_ok_upd:
  "registry_ok m \<Longrightarrow> sc_table s = name \<Longrightarrow> columns_distinct s \<Longrightarrow> registry_ok (m(name \<mapsto> s))"
  "registry_ok m \<Longrightarrow> registry_ok (m(name := None))"
  by (simp_all add: registry_ok_def)

lemma registry_ok_alter:
  assumes "registry_ok m" "alter_spec name sp m = Some m'"
  shows "registry_ok m'"
proof (cases "m name")
  case None
  then show ?thesis using assms(2) by (simp add: alter_spec_def)
next
  case (Some s)
  then have s: "sc_table s = name" "columns_distinct s" using assms(1) by (auto simp: registry_ok_def)
  show ?thesis
  proof (cases "as_kind sp")
    case AddColumn
    then have "registry_ok (m(name \<mapsto> s\<lparr>sc_columns := sc_columns s @ [as_columnDef sp]\<rparr>))"
      if "\<not> hasColumn s (cd_name (as_columnDef sp))"
      using that s assms(1) by (intro registry_ok_upd) (auto simp: columns_distinct_def hasColumn_iff)
    then show ?thesis using AddColumn Some assms(2) by (auto simp: alter_spec_def split: if_splits)
  next
    case DropColumn
    have "registry_ok (m(name \<mapsto> s\<lparr>sc_columns := remove_column (as_column sp) (sc_columns s)\<rparr>))"
      using s assms(1) by (intro registry_ok_upd) (auto simp: columns_distinct_def distinct_remove_column)
    then show ?thesis using DropColumn Some assms(2) by (auto simp: alter_spec_def split: if_splits)
  next
    case RenameTable
    have "registry_ok ((m(name := None))(as_column sp \<mapsto> s\<lparr>sc_table := as_column sp\<rparr>))"
      using s assms(1) by (intro registry_ok_upd) (auto simp: columns_distinct_def)
    then show ?thesis using RenameTable Some assms(2) by (auto simp: alter_spec_def split: if_splits)
  qed
qed

lemma registry_ok_ddl [inv_intros]:
  "registry_ok m \<Longrightarrow> ddl_ok op \<Longrightarrow> ddl_spec op m = Some m' \<Longrightarrow> registry_ok m'"
  by (cases op) (auto intro: registry_ok_upd registry_ok_alter split: if_splits)

locale schema_registry =
  fixes ddl_step :: "ddl \<Rightarrow> 's \<Rightarrow> 's \<times> DbError"
    and describe :: "'s \<Rightarrow> string \<Rightarrow> Schema option"
    and inv :: "'s \<Rightarrow> bool"
  assumes step_inv: "inv s \<Longrightarrow> inv (fst (ddl_step op s))"
    and step_accepts: "\<lbrakk>inv s; ddl_spec op (describe s) = Some m\<rbrakk> \<Longrightarrow>
      describe (fst (ddl_step op s)) = m \<and> isSentinel (snd (ddl_step op s))"
    and step_refuses: "\<lbrakk>inv s; ddl_spec op (describe s) = None\<rbrakk> \<Longrightarrow>
      describe (fst (ddl_step op s)) = describe s \<and> \<not> isSentinel (snd (ddl_step op s))"
begin

definition spec_step :: "ddl \<Rightarrow> (string \<rightharpoonup> Schema) \<Rightarrow> (string \<rightharpoonup> Schema)" where
  "spec_step op m = (case ddl_spec op m of None \<Rightarrow> m | Some m' \<Rightarrow> m')"

lemma describe_step: "inv s \<Longrightarrow> describe (fst (ddl_step op s)) = spec_step op (describe s)"
  using step_accepts step_refuses by (cases "ddl_spec op (describe s)") (auto simp: spec_step_def)

lemma describe_run:
  "inv s \<Longrightarrow> inv (fold (\<lambda>op s. fst (ddl_step op s)) ops s) \<and>
     describe (fold (\<lambda>op s. fst (ddl_step op s)) ops s) = fold spec_step ops (describe s)"
  by (induction ops arbitrary: s) (auto simp: describe_step step_inv)

lemma registry_run:
  assumes "inv s" "registry_ok (describe s)" "\<forall>op \<in> set ops. ddl_ok op"
  shows "registry_ok (describe (fold (\<lambda>op s. fst (ddl_step op s)) ops s))"
proof -
  have "registry_ok (fold spec_step ops m)" if "registry_ok m" for m
    using that assms(3)
    by (induction ops arbitrary: m) (auto simp: spec_step_def registry_ok_ddl split: option.splits)
  then show ?thesis using describe_run [OF assms(1)] assms(2) by simp
qed

end

end
