(* ===== verification/InMemory_Provider.thy ===== *)
theory InMemory_Provider
  imports InMemory_Engine Provider_Contract
begin

text \<open>
  \<open>includes/opendb/storage/InMemoryStorageProvider.hpp\<close>: the provider that pairs the
  in-memory engine with a schema registry.
\<close>

section \<open>State and operations\<close>

record IMProvider =
  ip_engine :: InMemory
  ip_schemas :: "(string \<times> Schema) list"
  ip_opened :: bool

definition ip_init :: IMProvider where
  "ip_init = \<lparr>ip_engine = im_init, ip_schemas = [], ip_opened = False\<rparr>"

text \<open>\<open>typeVocabulary().accepted\<close>.\<close>

definition ip_accepted :: "ValueType list" where
  "ip_accepted = [TNull, TBool, TInt32, TInt64, TDouble, TText, TBlob, TDate, TTimestamp]"

definition quoted :: "string \<Rightarrow> string" where
  "quoted s = [CHR 0x27] @ s @ [CHR 0x27]"

definition ip_open :: "IMProvider \<Rightarrow> string \<Rightarrow> IMProvider \<times> DbError" where
  "ip_open p uri =
     (if uri \<noteq> ''in-memory://''
      then (p, db_error Internal (''InMemoryStorageProvider: unexpected URI '' @ quoted uri))
      else (p\<lparr>ip_opened := True\<rparr>, sentinel))"

definition ip_close :: "IMProvider \<Rightarrow> IMProvider \<times> DbError" where
  "ip_close p = (p\<lparr>ip_schemas := [], ip_opened := False\<rparr>, sentinel)"

definition ip_createTable :: "IMProvider \<Rightarrow> Schema \<Rightarrow> IMProvider \<times> DbError" where
  "ip_createTable p schema =
     (if map_of (ip_schemas p) (sc_table schema) \<noteq> None
      then (p, db_error Internal (''table '' @ quoted (sc_table schema) @ '' already exists''))
      else (case List.find (\<lambda>c. cd_type c \<notin> set ip_accepted) (sc_columns schema) of
              Some col \<Rightarrow> (p, db_error NotSupported
                 (''column '' @ quoted (cd_name col) @ '' type not accepted by in-memory provider''))
            | None \<Rightarrow> (p\<lparr>ip_schemas := AList.update (sc_table schema) schema (ip_schemas p)\<rparr>, sentinel)))"

definition table_not_found :: "string \<Rightarrow> DbError" where
  "table_not_found name = db_error NotFound (''table '' @ quoted name @ '' not found'')"

definition ip_dropTable :: "IMProvider \<Rightarrow> string \<Rightarrow> IMProvider \<times> DbError" where
  "ip_dropTable p name =
     (case map_of (ip_schemas p) name of
        None \<Rightarrow> (p, table_not_found name)
      | Some _ \<Rightarrow> (p\<lparr>ip_schemas := AList.delete name (ip_schemas p)\<rparr>, sentinel))"

definition ip_alterTable :: "IMProvider \<Rightarrow> string \<Rightarrow> AlterSpec \<Rightarrow> IMProvider \<times> DbError" where
  "ip_alterTable p name sp =
     (case map_of (ip_schemas p) name of
        None \<Rightarrow> (p, table_not_found name)
      | Some s \<Rightarrow>
          (case as_kind sp of
             AddColumn \<Rightarrow>
               if schema_find s (cd_name (as_columnDef sp)) \<noteq> None
               then (p, db_error Internal (''column '' @ quoted (cd_name (as_columnDef sp)) @ '' already exists''))
               else (p\<lparr>ip_schemas := AList.update name (s\<lparr>sc_columns := sc_columns s @ [as_columnDef sp]\<rparr>)
                         (ip_schemas p)\<rparr>, sentinel)
           | DropColumn \<Rightarrow>
               if List.find (\<lambda>c. cd_name c = as_column sp) (sc_columns s) = None
               then (p, db_error NotFound (''column '' @ quoted (as_column sp) @ '' not found''))
               else (p\<lparr>ip_schemas := AList.update name
                         (s\<lparr>sc_columns := remove_column (as_column sp) (sc_columns s)\<rparr>) (ip_schemas p)\<rparr>, sentinel)
           | RenameTable \<Rightarrow>
               if as_column sp = [] then (p, db_error Internal ''rename requires new name'')
               else if map_of (ip_schemas p) (as_column sp) \<noteq> None
               then (p, db_error Internal (''table '' @ quoted (as_column sp) @ '' already exists''))
               else (p\<lparr>ip_schemas := AList.update (as_column sp) (s\<lparr>sc_table := as_column sp\<rparr>)
                         (AList.delete name (ip_schemas p))\<rparr>, sentinel)))"

definition ip_describeTable :: "IMProvider \<Rightarrow> string \<Rightarrow> Schema option" where
  "ip_describeTable p name = map_of (ip_schemas p) name"

definition ip_tables :: "IMProvider \<Rightarrow> string list" where
  "ip_tables p = map fst (ip_schemas p)"

primrec ip_ddl :: "ddl \<Rightarrow> IMProvider \<Rightarrow> IMProvider \<times> DbError" where
  "ip_ddl (CreateTable s) p = ip_createTable p s"
| "ip_ddl (DropTable name) p = ip_dropTable p name"
| "ip_ddl (AlterTable name sp) p = ip_alterTable p name sp"

section \<open>The provider implements the registry\<close>

definition ip_inv :: "IMProvider \<Rightarrow> bool" where
  "ip_inv p \<longleftrightarrow> distinct (map fst (ip_schemas p))"

lemma ip_accepts_all: "List.find (\<lambda>c. cd_type c \<notin> set ip_accepted) cs = None"
proof -
  have "t \<in> set ip_accepted" for t by (cases t) (simp_all add: ip_accepted_def)
  then show ?thesis by (simp add: find_None_iff)
qed

lemma quoted_nonempty [simp]: "a @ quoted s @ b \<noteq> []" "quoted s \<noteq> []"
  by (simp_all add: quoted_def)

lemmas ip_ops = ip_createTable_def ip_dropTable_def ip_alterTable_def table_not_found_def

lemma ip_inv_step: "ip_inv p \<Longrightarrow> ip_inv (fst (ip_ddl op p))"
  by (cases op) (auto simp: ip_ops ip_inv_def distinct_update distinct_delete
      split: option.splits AlterKind.splits)

lemma ip_describe_upd:
  "ip_describeTable (p\<lparr>ip_schemas := AList.update n s (ip_schemas q)\<rparr>) = (ip_describeTable q)(n \<mapsto> s)"
  "ip_describeTable (p\<lparr>ip_schemas := AList.delete n (ip_schemas q)\<rparr>) = (ip_describeTable q)(n := None)"
  "ip_describeTable (p\<lparr>ip_schemas := AList.update n s (AList.delete n' (ip_schemas q))\<rparr>) =
     ((ip_describeTable q)(n' := None))(n \<mapsto> s)"
  by (auto simp: ip_describeTable_def fun_eq_iff update_conv' delete_conv')

lemma ip_alter_refines:
  "case alter_spec name sp (ip_describeTable p) of
     None \<Rightarrow> fst (ip_alterTable p name sp) = p \<and> \<not> isSentinel (snd (ip_alterTable p name sp))
   | Some m \<Rightarrow> ip_describeTable (fst (ip_alterTable p name sp)) = m \<and> isSentinel (snd (ip_alterTable p name sp))"
proof (cases "map_of (ip_schemas p) name")
  case None
  then show ?thesis by (simp add: alter_spec_def ip_ops ip_describeTable_def)
next
  case (Some s)
  then have d: "ip_describeTable p name = Some s" by (simp add: ip_describeTable_def)
  have c: "(List.find (\<lambda>c. cd_name c = col) (sc_columns s) = None) = (\<not> hasColumn s col)" for col
    by (simp add: hasColumn_def schema_find_def)
  show ?thesis
  proof (cases "as_kind sp")
    case AddColumn
    then show ?thesis using Some d by (simp add: alter_spec_def ip_ops ip_describe_upd hasColumn_def)
  next
    case DropColumn
    then show ?thesis using Some d by (simp add: alter_spec_def ip_ops ip_describe_upd c)
  next
    case RenameTable
    then show ?thesis using Some d
      by (simp add: alter_spec_def ip_ops ip_describe_upd) (simp add: ip_describeTable_def)
  qed
qed

interpretation ipr: schema_registry ip_ddl ip_describeTable ip_inv
proof (unfold_locales, goal_cases)
  case (1 s op)
  then show ?case by (rule ip_inv_step)
next
  case (2 p op m)
  show ?case
  proof (cases op)
    case (CreateTable s)
    then show ?thesis using 2
      by (auto simp: ip_ops ip_accepts_all ip_describe_upd split: if_splits) (auto simp: ip_describeTable_def)
  next
    case (DropTable n)
    then show ?thesis using 2
      by (cases "map_of (ip_schemas p) n") (auto simp: ip_ops ip_describe_upd, auto simp: ip_describeTable_def)
  next
    case (AlterTable n sp)
    then show ?thesis using 2 ip_alter_refines [of p n sp] by simp
  qed
next
  case (3 p op)
  show ?case
  proof (cases op)
    case (CreateTable s)
    then show ?thesis using 3 by (auto simp: ip_ops ip_describeTable_def split: if_splits)
  next
    case (DropTable n)
    then show ?thesis using 3 by (cases "map_of (ip_schemas p) n") (auto simp: ip_ops ip_describeTable_def)
  next
    case (AlterTable n sp)
    then show ?thesis using 3 ip_alter_refines [of p n sp] by simp
  qed
qed

section \<open>Properties\<close>


definition sample_schema :: Schema where
  "sample_schema = \<lparr>sc_table = ''users'',
     sc_columns = [ColumnDef_init\<lparr>cd_name := ''id'', cd_type := TInt64, cd_primaryKey := True\<rparr>],
     sc_partition = None\<rparr>"


end
