(* ===== verification/Sharded_Provider.thy ===== *)
theory Sharded_Provider
  imports Sharding InMemory_Provider
begin

text \<open>
  \<open>includes/opendb/storage/ShardedStorageProvider.hpp\<close>: a provider over several child providers
  that propagates DDL to all of them and caches the schemas. The child provider's operations are a
  record, as for engines; of the sharded engine the provider owns, only the partition policies
  matter here.
\<close>

section \<open>Interface and state\<close>

record 'p provider_ops =
  p_open :: "'p \<Rightarrow> string \<Rightarrow> 'p \<times> DbError"
  p_close :: "'p \<Rightarrow> 'p \<times> DbError"
  p_ddl :: "ddl \<Rightarrow> 'p \<Rightarrow> 'p \<times> DbError"
  p_describe :: "'p \<Rightarrow> string \<Rightarrow> Schema option"
  p_tables :: "'p \<Rightarrow> string list"
  p_accepted :: "'p \<Rightarrow> ValueType list"

definition InMemoryStorageProvider :: "IMProvider provider_ops" where
  "InMemoryStorageProvider =
     \<lparr>p_open = ip_open, p_close = ip_close, p_ddl = ip_ddl, p_describe = ip_describeTable, p_tables = ip_tables,
      p_accepted = \<lambda>p. ip_accepted\<rparr>"

record 'p sharded_provider =
  sp_shards :: "'p list"
  sp_policies :: "(string \<times> PartitionPolicy) list"
  sp_schemas :: "(string \<times> Schema) list"
  sp_opened :: bool
  sp_children_open :: bool

definition sp_new :: "'p list \<Rightarrow> bool \<Rightarrow> 'p sharded_provider" where
  "sp_new shards children_already_open =
     \<lparr>sp_shards = shards, sp_policies = [], sp_schemas = [], sp_opened = children_already_open,
      sp_children_open = children_already_open\<rparr>"

section \<open>Opening and closing\<close>

text \<open>Opens the shards in order; on a failure the ones already open are closed again.\<close>

fun open_shards :: "'p provider_ops \<Rightarrow> string \<Rightarrow> 'p list \<Rightarrow> 'p list \<Rightarrow> 'p list \<times> DbError" where
  "open_shards ops uri opened [] = (opened, sentinel)"
| "open_shards ops uri opened (p # ps) =
     (let (p', r) = p_open ops p uri
      in if isSentinel r then open_shards ops uri (opened @ [p']) ps
         else (map (\<lambda>q. fst (p_close ops q)) opened @ p' # ps, r))"

definition load_schema :: "'p provider_ops \<Rightarrow> 'p \<Rightarrow> string \<Rightarrow> 'p sharded_provider \<Rightarrow> 'p sharded_provider" where
  "load_schema ops p name sp =
     (case p_describe ops p name of
        None \<Rightarrow> sp
      | Some sc \<Rightarrow>
          sp\<lparr>sp_policies := (case sc_partition sc of None \<Rightarrow> sp_policies sp | Some pol \<Rightarrow> AList.update name pol (sp_policies sp)),
             sp_schemas := AList.update name sc (sp_schemas sp)\<rparr>)"

definition rebuild :: "'p provider_ops \<Rightarrow> 'p sharded_provider \<Rightarrow> 'p sharded_provider" where
  "rebuild ops sp =
     fold (\<lambda>p. fold (load_schema ops p) (p_tables ops p)) (sp_shards sp) (sp\<lparr>sp_schemas := []\<rparr>)"

definition sp_open :: "'p provider_ops \<Rightarrow> 'p sharded_provider \<Rightarrow> string \<Rightarrow> 'p sharded_provider \<times> DbError" where
  "sp_open ops sp uri =
     (if sp_shards sp = [] then (sp, db_error Internal ''no shards configured'')
      else
        (let (shards, r) = (if sp_children_open sp then (sp_shards sp, sentinel) else open_shards ops uri [] (sp_shards sp))
         in if isSentinel r then (rebuild ops (sp\<lparr>sp_shards := shards, sp_opened := True\<rparr>), sentinel)
            else (sp\<lparr>sp_shards := shards\<rparr>, r)))"

definition sp_close :: "'p provider_ops \<Rightarrow> 'p sharded_provider \<Rightarrow> 'p sharded_provider \<times> DbError" where
  "sp_close ops sp = (sp\<lparr>sp_shards := map (\<lambda>p. fst (p_close ops p)) (sp_shards sp), sp_opened := False\<rparr>, sentinel)"

section \<open>DDL\<close>

definition not_open :: DbError where
  "not_open = db_error Internal ''provider not open''"

definition sp_accepted :: "'p provider_ops \<Rightarrow> 'p sharded_provider \<Rightarrow> ValueType list" where
  "sp_accepted ops sp = (case sp_shards sp of [] \<Rightarrow> [] | p # _ \<Rightarrow> p_accepted ops p)"

text \<open>The checks before a table is created: column types, then the hash partition.\<close>

definition sp_check :: "'p provider_ops \<Rightarrow> 'p sharded_provider \<Rightarrow> Schema \<Rightarrow> DbError" where
  "sp_check ops sp schema =
     (case List.find (\<lambda>c. cd_type c \<notin> set (sp_accepted ops sp)) (sc_columns schema) of
        Some col \<Rightarrow> db_error NotSupported (''column '' @ quoted (cd_name col) @ '' type not accepted by sharded provider'')
      | None \<Rightarrow>
          (case sc_partition schema of
             None \<Rightarrow> sentinel
           | Some pol \<Rightarrow>
               if pp_kind pol \<noteq> PHash then sentinel
               else if unat (pp_shardCount pol) \<noteq> length (sp_shards sp)
               then db_error NotSupported (''partition shardCount ('' @ show_nat (unat (pp_shardCount pol)) @
                      '') must match provider shard count ('' @ show_nat (length (sp_shards sp)) @ '')'')
               else if pp_column pol = [] then db_error NotSupported ''hash partition requires a column name''
               else sentinel))"

definition sp_createTable :: "'p provider_ops \<Rightarrow> 'p sharded_provider \<Rightarrow> Schema \<Rightarrow> 'p sharded_provider \<times> DbError" where
  "sp_createTable ops sp schema =
     (if \<not> sp_opened sp then (sp, not_open)
      else if \<not> isSentinel (sp_check ops sp schema) then (sp, sp_check ops sp schema)
      else
        (let (shards, r) = until_error (p_ddl ops (CreateTable schema)) (sp_shards sp)
         in if isSentinel r then
              (sp\<lparr>sp_shards := shards,
                  sp_policies := (case sc_partition schema of None \<Rightarrow> sp_policies sp
                                  | Some pol \<Rightarrow> AList.update (sc_table schema) pol (sp_policies sp)),
                  sp_schemas := AList.update (sc_table schema) schema (sp_schemas sp)\<rparr>, sentinel)
            else (sp\<lparr>sp_shards := shards\<rparr>, r)))"

definition sp_dropTable :: "'p provider_ops \<Rightarrow> 'p sharded_provider \<Rightarrow> string \<Rightarrow> 'p sharded_provider \<times> DbError" where
  "sp_dropTable ops sp name =
     (if \<not> sp_opened sp then (sp, not_open)
      else
        (let (shards, r) = until_error (p_ddl ops (DropTable name)) (sp_shards sp)
         in if isSentinel r then
              (sp\<lparr>sp_shards := shards, sp_schemas := AList.delete name (sp_schemas sp),
                  sp_policies := AList.delete name (sp_policies sp)\<rparr>, sentinel)
            else (sp\<lparr>sp_shards := shards\<rparr>, r)))"

definition sp_rename :: "'p sharded_provider \<Rightarrow> string \<Rightarrow> AlterSpec \<Rightarrow> 'p sharded_provider \<times> DbError" where
  "sp_rename sp name spec =
     (case map_of (sp_schemas sp) name of
        None \<Rightarrow> (sp, table_not_found name)
      | Some s \<Rightarrow>
          if as_column spec = [] then (sp, db_error Internal ''rename requires new name'')
          else if map_of (sp_schemas sp) (as_column spec) \<noteq> None
          then (sp, db_error Internal (''table '' @ quoted (as_column spec) @ '' already exists''))
          else (sp\<lparr>sp_schemas := AList.update (as_column spec) (s\<lparr>sc_table := as_column spec\<rparr>)
                     (AList.delete name (sp_schemas sp))\<rparr>, sentinel))"

definition sp_alter_cached :: "'p sharded_provider \<Rightarrow> string \<Rightarrow> AlterSpec \<Rightarrow> 'p sharded_provider \<times> DbError" where
  "sp_alter_cached sp name spec =
     (case map_of (sp_schemas sp) name of
        None \<Rightarrow> (sp, table_not_found name)
      | Some s \<Rightarrow>
          (case as_kind spec of
             AddColumn \<Rightarrow>
               if schema_find s (cd_name (as_columnDef spec)) \<noteq> None then (sp, db_error Internal ''column already exists'')
               else (sp\<lparr>sp_schemas := AList.update name (s\<lparr>sc_columns := sc_columns s @ [as_columnDef spec]\<rparr>) (sp_schemas sp)\<rparr>, sentinel)
           | DropColumn \<Rightarrow>
               if List.find (\<lambda>c. cd_name c = as_column spec) (sc_columns s) = None then (sp, db_error NotFound ''column not found'')
               else (sp\<lparr>sp_schemas := AList.update name (s\<lparr>sc_columns := remove_column (as_column spec) (sc_columns s)\<rparr>) (sp_schemas sp)\<rparr>, sentinel)
           | RenameTable \<Rightarrow> (sp, sentinel)))"

definition sp_alterTable ::
  "'p provider_ops \<Rightarrow> 'p sharded_provider \<Rightarrow> string \<Rightarrow> AlterSpec \<Rightarrow> 'p sharded_provider \<times> DbError" where
  "sp_alterTable ops sp name spec =
     (if \<not> sp_opened sp then (sp, not_open)
      else if as_kind spec = RenameTable then sp_rename sp name spec
      else
        (let (shards, r) = until_error (p_ddl ops (AlterTable name spec)) (sp_shards sp)
         in if isSentinel r then sp_alter_cached (sp\<lparr>sp_shards := shards\<rparr>) name spec
            else (sp\<lparr>sp_shards := shards\<rparr>, r)))"

definition sp_describeTable :: "'p sharded_provider \<Rightarrow> string \<Rightarrow> Schema option" where
  "sp_describeTable sp name = map_of (sp_schemas sp) name"

definition sp_tables :: "'p sharded_provider \<Rightarrow> string list" where
  "sp_tables sp = map fst (sp_schemas sp)"

primrec sp_ddl :: "'p provider_ops \<Rightarrow> ddl \<Rightarrow> 'p sharded_provider \<Rightarrow> 'p sharded_provider \<times> DbError" where
  "sp_ddl ops (CreateTable s) sp = sp_createTable ops sp s"
| "sp_ddl ops (DropTable name) sp = sp_dropTable ops sp name"
| "sp_ddl ops (AlterTable name spec) sp = sp_alterTable ops sp name spec"

section \<open>All shards agree with the cached catalogue\<close>

text \<open>The statements that are propagated: everything but a rename, and tables that pass the checks.\<close>

fun propagated :: "'p provider_ops \<Rightarrow> 'p sharded_provider \<Rightarrow> ddl \<Rightarrow> bool" where
  "propagated ops sp (CreateTable s) \<longleftrightarrow> isSentinel (sp_check ops sp s)"
| "propagated ops sp (DropTable name) \<longleftrightarrow> True"
| "propagated ops sp (AlterTable name spec) \<longleftrightarrow> as_kind spec \<noteq> RenameTable"

lemma describe_upd:
  "map_of (AList.update n s m) = (map_of m)(n \<mapsto> s)" "map_of (AList.delete n m) = (map_of m)(n := None)"
  by (auto simp: fun_eq_iff update_conv' delete_conv')

lemma alter_cached_refines:
  assumes "as_kind spec \<noteq> RenameTable" "alter_spec name spec (map_of (sp_schemas sp)) = Some m"
  shows "map_of (sp_schemas (fst (sp_alter_cached sp name spec))) = m \<and> isSentinel (snd (sp_alter_cached sp name spec)) \<and>
    sp_shards (fst (sp_alter_cached sp name spec)) = sp_shards sp \<and> sp_opened (fst (sp_alter_cached sp name spec)) = sp_opened sp"
proof (cases "map_of (sp_schemas sp) name")
  case None
  then show ?thesis using assms(2) by (simp add: alter_spec_def)
next
  case (Some s)
  have c: "(List.find (\<lambda>c. cd_name c = col) (sc_columns s) = None) = (\<not> hasColumn s col)" for col
    by (simp add: hasColumn_def schema_find_def)
  show ?thesis
    using Some assms
    by (cases "as_kind spec") (auto simp: alter_spec_def sp_alter_cached_def describe_upd c hasColumn_def split: if_splits)
qed

context schema_registry
begin

definition shards_agree :: "'s sharded_provider \<Rightarrow> bool" where
  "shards_agree sp \<longleftrightarrow> sp_opened sp \<and> sp_shards sp \<noteq> [] \<and>
     (\<forall>p \<in> set (sp_shards sp). inv p \<and> describe p = map_of (sp_schemas sp))"

lemma until_error_accepts:
  assumes "\<forall>p \<in> set ps. inv p \<and> describe p = m" "ddl_spec op m = Some m'"
  shows "isSentinel (snd (until_error (ddl_step op) ps)) \<and>
    (\<forall>p \<in> set (fst (until_error (ddl_step op) ps)). inv p \<and> describe p = m') \<and>
    length (fst (until_error (ddl_step op) ps)) = length ps"
  using assms(1)
proof (induction ps)
  case (Cons p ps)
  then have "isSentinel (snd (ddl_step op p))" "inv (fst (ddl_step op p))" "describe (fst (ddl_step op p)) = m'"
    using step_accepts [of p op m'] step_inv [of p op] assms(2) by auto
  then show ?case using Cons by (auto simp: Let_def case_prod_unfold)
qed simp

lemma until_error_refuses:
  assumes "\<forall>p \<in> set ps. inv p \<and> describe p = m" "ddl_spec op m = None" "ps \<noteq> []"
  shows "\<not> isSentinel (snd (until_error (ddl_step op) ps)) \<and>
    (\<forall>p \<in> set (fst (until_error (ddl_step op) ps)). inv p \<and> describe p = m) \<and>
    length (fst (until_error (ddl_step op) ps)) = length ps"
proof (cases ps)
  case (Cons p qs)
  then have "\<not> isSentinel (snd (ddl_step op p))" "inv (fst (ddl_step op p))" "describe (fst (ddl_step op p)) = m"
    using step_refuses [of p op] step_inv [of p op] assms by auto
  then show ?thesis using Cons assms(1) by (auto simp: Let_def case_prod_unfold)
qed (use assms in simp)

lemma sharded_accepts:
  assumes "p_ddl ops = ddl_step" "shards_agree sp" "propagated ops sp op" "ddl_spec op (map_of (sp_schemas sp)) = Some m"
  shows "shards_agree (fst (sp_ddl ops op sp)) \<and> map_of (sp_schemas (fst (sp_ddl ops op sp))) = m \<and>
    isSentinel (snd (sp_ddl ops op sp))"
proof -
  let ?u = "until_error (ddl_step op) (sp_shards sp)"
  have u: "isSentinel (snd ?u)" "\<forall>p \<in> set (fst ?u). inv p \<and> describe p = m" "fst ?u \<noteq> []"
    using until_error_accepts [OF _ assms(4), of "sp_shards sp"] assms(2) by (auto simp: shards_agree_def)
  show ?thesis
  proof (cases op)
    case (CreateTable s)
    then show ?thesis using u assms
      by (auto simp: sp_createTable_def Let_def case_prod_unfold describe_upd shards_agree_def split: if_splits)
  next
    case (DropTable n)
    then show ?thesis using u assms
      by (auto simp: sp_dropTable_def Let_def case_prod_unfold describe_upd shards_agree_def split: if_splits)
  next
    case (AlterTable n spec)
    let ?sp = "sp\<lparr>sp_shards := fst ?u\<rparr>"
    have eq: "sp_ddl ops op sp = sp_alter_cached ?sp n spec"
      using u(1) assms(1-3) AlterTable by (simp add: sp_alterTable_def Let_def case_prod_unfold shards_agree_def)
    have "alter_spec n spec (map_of (sp_schemas ?sp)) = Some m" using assms(4) AlterTable by simp
    then have "map_of (sp_schemas (fst (sp_alter_cached ?sp n spec))) = m" "isSentinel (snd (sp_alter_cached ?sp n spec))"
      "sp_shards (fst (sp_alter_cached ?sp n spec)) = fst ?u" "sp_opened (fst (sp_alter_cached ?sp n spec))"
      using alter_cached_refines [of spec n ?sp m] assms(2,3) AlterTable by (simp_all add: shards_agree_def)
    then show ?thesis using u(2,3) unfolding eq by (simp add: shards_agree_def)
  qed
qed

lemma sharded_refuses:
  assumes "p_ddl ops = ddl_step" "shards_agree sp" "propagated ops sp op" "ddl_spec op (map_of (sp_schemas sp)) = None"
  shows "shards_agree (fst (sp_ddl ops op sp)) \<and> sp_schemas (fst (sp_ddl ops op sp)) = sp_schemas sp \<and>
    \<not> isSentinel (snd (sp_ddl ops op sp))"
proof -
  let ?u = "until_error (ddl_step op) (sp_shards sp)"
  have a: "sp_opened sp" "\<forall>p \<in> set (sp_shards sp). inv p \<and> describe p = map_of (sp_schemas sp)" "sp_shards sp \<noteq> []"
    using assms(2) by (simp_all add: shards_agree_def)
  note u = until_error_refuses [OF a(2) assms(4) a(3)]
  have ne: "fst ?u \<noteq> []" using u a(3) by (metis length_0_conv)
  have "sp_ddl ops op sp = (sp\<lparr>sp_shards := fst ?u\<rparr>, snd ?u)"
    using u a(1) assms(1,3)
    by (cases op) (simp_all add: sp_createTable_def sp_dropTable_def sp_alterTable_def Let_def case_prod_unfold)
  then show ?thesis using u a(1) ne by (simp add: shards_agree_def)
qed

text \<open>A rename is not propagated, so the shards refuse to drop the table under its new name.\<close>

lemma drop_after_rename:
  assumes "p_ddl ops = ddl_step" "shards_agree sp" "as_kind spec = RenameTable"
    "isSentinel (snd (sp_ddl ops (AlterTable name spec) sp))"
  defines "sp' \<equiv> fst (sp_ddl ops (AlterTable name spec) sp)"
  shows "map_of (sp_schemas sp') (as_column spec) \<noteq> None" and
    "\<not> isSentinel (snd (sp_ddl ops (DropTable (as_column spec)) sp'))"
proof -
  obtain s where s: "map_of (sp_schemas sp) name = Some s" "as_column spec \<noteq> []" "map_of (sp_schemas sp) (as_column spec) = None"
    and sp': "sp' = sp\<lparr>sp_schemas := AList.update (as_column spec) (s\<lparr>sc_table := as_column spec\<rparr>) (AList.delete name (sp_schemas sp))\<rparr>"
    using assms by (auto simp: sp_alterTable_def sp_rename_def shards_agree_def table_not_found_def quoted_def split: option.splits if_splits)
  show "map_of (sp_schemas sp') (as_column spec) \<noteq> None" by (simp add: sp' describe_upd)
  have "ddl_spec (DropTable (as_column spec)) (map_of (sp_schemas sp)) = None" using s(3) by simp
  then have "\<not> isSentinel (snd (until_error (ddl_step (DropTable (as_column spec))) (sp_shards sp)))"
    using until_error_refuses [of "sp_shards sp" "map_of (sp_schemas sp)" "DropTable (as_column spec)"] assms(2)
    by (simp add: shards_agree_def)
  then show "\<not> isSentinel (snd (sp_ddl ops (DropTable (as_column spec)) sp'))"
    using assms(1,2) by (simp add: sp' sp_dropTable_def Let_def case_prod_unfold shards_agree_def)
qed

end

section \<open>Properties\<close>

text \<open>
  Over in-memory shards that agree with the cached catalogue, every statement but a rename keeps
  them in agreement and has the specified effect on the catalogue: an accepted statement changes
  cache and all shards alike, a refused one changes none of them.
\<close>

theorem sharded_ddl_consistent:
  assumes "ipr.shards_agree sp" "propagated InMemoryStorageProvider sp op"
  shows "ipr.shards_agree (fst (sp_ddl InMemoryStorageProvider op sp)) \<and>
    (case ddl_spec op (sp_describeTable sp) of
       None \<Rightarrow> sp_describeTable (fst (sp_ddl InMemoryStorageProvider op sp)) = sp_describeTable sp \<and>
         \<not> isSentinel (snd (sp_ddl InMemoryStorageProvider op sp))
     | Some m \<Rightarrow> sp_describeTable (fst (sp_ddl InMemoryStorageProvider op sp)) = m \<and>
         isSentinel (snd (sp_ddl InMemoryStorageProvider op sp)))"
proof -
  have ops: "p_ddl InMemoryStorageProvider = ip_ddl" by (simp add: InMemoryStorageProvider_def)
  have d: "sp_describeTable s = map_of (sp_schemas s)" for s by (simp add: sp_describeTable_def fun_eq_iff)
  show ?thesis
    using ipr.sharded_accepts [OF ops assms] ipr.sharded_refuses [OF ops assms]
    by (cases "ddl_spec op (map_of (sp_schemas sp))") (auto simp: d)
qed

text \<open>
  A rename reaches the cached catalogue only: a table that was renamed successfully is listed under
  its new name and can no longer be dropped under it.
\<close>

theorem renamed_table_cannot_be_dropped:
  assumes "ipr.shards_agree sp" "as_kind spec = RenameTable"
    "isSentinel (snd (sp_alterTable InMemoryStorageProvider sp name spec))"
  shows "sp_describeTable (fst (sp_alterTable InMemoryStorageProvider sp name spec)) (as_column spec) \<noteq> None \<and>
    \<not> isSentinel (snd (sp_dropTable InMemoryStorageProvider (fst (sp_alterTable InMemoryStorageProvider sp name spec)) (as_column spec)))"
proof -
  have ops: "p_ddl InMemoryStorageProvider = ip_ddl" by (simp add: InMemoryStorageProvider_def)
  show ?thesis
    using ipr.drop_after_rename [OF ops assms(1,2), of name] assms(3) by (simp add: sp_describeTable_def)
qed

definition demo_provider :: "IMProvider sharded_provider" where
  "demo_provider = (sp_new [ip_init\<lparr>ip_schemas := [(''users'', sample_schema)]\<rparr>] True)\<lparr>sp_schemas := [(''users'', sample_schema)]\<rparr>"

definition demo_rename :: AlterSpec where
  "demo_rename = \<lparr>as_kind = RenameTable, as_column = ''people'', as_columnDef = ColumnDef_init\<rparr>"

lemma demo_provider_agrees: "ipr.shards_agree demo_provider"
  by (auto simp: ipr.shards_agree_def demo_provider_def sp_new_def ip_inv_def ip_describeTable_def fun_eq_iff ip_init_def)

theorem sharded_ddl_consistent_witness:
  "ipr.shards_agree (fst (sp_ddl InMemoryStorageProvider (DropTable ''users'') demo_provider)) \<and>
   sp_describeTable (fst (sp_ddl InMemoryStorageProvider (DropTable ''users'') demo_provider)) ''users'' = None"
proof -
  have "sp_describeTable demo_provider ''users'' \<noteq> None" by (simp add: sp_describeTable_def demo_provider_def)
  then show ?thesis using sharded_ddl_consistent [OF demo_provider_agrees, of "DropTable ''users''"] by auto
qed

theorem renamed_table_cannot_be_dropped_witness:
  "\<not> isSentinel (snd (sp_dropTable InMemoryStorageProvider
      (fst (sp_alterTable InMemoryStorageProvider demo_provider ''users'' demo_rename)) ''people''))"
proof -
  have "isSentinel (snd (sp_alterTable InMemoryStorageProvider demo_provider ''users'' demo_rename))"
    by (simp add: sp_alterTable_def sp_rename_def demo_provider_def sp_new_def demo_rename_def)
  from renamed_table_cannot_be_dropped [OF demo_provider_agrees _ this] show ?thesis by (simp add: demo_rename_def)
qed

end
