(* ===== verification/Query.thy ===== *)
theory Query
  imports Storage_Contract
begin

text \<open>
  The Select handler of \<open>includes/opendb/core/EngineLoop.hpp\<close> as functions on row lists:
  filtering, projection, nested-loop joins, the ORDER BY comparator and the LIMIT/OFFSET window.
  \<open>std::sort\<close> is an argument (\<open>srt\<close>) with the contract of \<open>Std_Containers\<close>.
\<close>

section \<open>The pipeline\<close>

primrec rfilter :: "('a \<Rightarrow> bool result) \<Rightarrow> 'a list \<Rightarrow> 'a list result" where
  "rfilter p [] = Inr []"
| "rfilter p (x # xs) = rbind (p x) (\<lambda>b. rbind (rfilter p xs) (\<lambda>ys. Inr (if b then x # ys else ys)))"

definition where_holds :: "Predicate option \<Rightarrow> Tuple \<Rightarrow> bool result" where
  "where_holds w row = (case w of None \<Rightarrow> Inr True | Some p \<Rightarrow> evaluate p row)"

definition keeps_all :: "string list \<Rightarrow> bool" where
  "keeps_all projections \<longleftrightarrow> projections = [] \<or> projections = [''*'']"

definition project :: "string list \<Rightarrow> Tuple \<Rightarrow> Tuple" where
  "project projections row =
     fold (\<lambda>pc p. case maybeGet row pc of None \<Rightarrow> p | Some v \<Rightarrow> tset p pc v) projections Tuple_empty"

definition apply_projections :: "string list \<Rightarrow> Tuple list \<Rightarrow> Tuple list" where
  "apply_projections projections rs = (if keeps_all projections then rs else map (project projections) rs)"

text \<open>Joins: columns are qualified with their table, right rows are merged into left rows.\<close>

definition qualify :: "string \<Rightarrow> Tuple \<Rightarrow> Tuple" where
  "qualify tbl src = fold (\<lambda>cv t. tset t (tbl @ ''.'' @ fst cv) (snd cv)) (tcolumns src) Tuple_empty"

definition onMatches :: "JoinClause \<Rightarrow> Tuple \<Rightarrow> Tuple \<Rightarrow> bool" where
  "onMatches jc l r =
     (case (maybeGet l (jc_leftColumn jc), maybeGet r (jc_rightColumn jc)) of
        (Some lv, Some rv) \<Rightarrow> compare lv rv = SEqual
      | _ \<Rightarrow> False)"

definition merge_row :: "Tuple \<Rightarrow> Tuple \<Rightarrow> Tuple" where
  "merge_row cur rr = fold (\<lambda>cv t. tset t (fst cv) (snd cv)) (tcolumns rr) cur"

definition pad_nulls :: "Tuple list \<Rightarrow> Tuple \<Rightarrow> Tuple" where
  "pad_nulls rights cur =
     (case rights of [] \<Rightarrow> cur | r0 # _ \<Rightarrow> fold (\<lambda>cv t. tset t (fst cv) VNull) (tcolumns r0) cur)"

definition join_one :: "JoinClause \<Rightarrow> Tuple list \<Rightarrow> Tuple \<Rightarrow> Tuple list" where
  "join_one jc rights cur =
     (let hits = map (merge_row cur) (filter (onMatches jc cur) rights)
      in if hits = [] \<and> jc_kind jc = LeftJoin then [pad_nulls rights cur] else hits)"

definition join_step :: "(string \<Rightarrow> Tuple list) \<Rightarrow> JoinClause \<Rightarrow> Tuple list \<Rightarrow> Tuple list" where
  "join_step scan_of jc matched =
     concat (map (join_one jc (map (qualify (jc_table jc)) (scan_of (jc_table jc)))) matched)"

definition join_rows :: "(string \<Rightarrow> Tuple list) \<Rightarrow> string \<Rightarrow> JoinClause list \<Rightarrow> Tuple list" where
  "join_rows scan_of tbl joins = fold (join_step scan_of) joins (map (qualify tbl) (scan_of tbl))"

text \<open>ORDER BY. A missing column and a null value sort alike.\<close>

definition null_at :: "Tuple \<Rightarrow> string \<Rightarrow> bool" where
  "null_at row col = (case maybeGet row col of None \<Rightarrow> True | Some v \<Rightarrow> isNull v)"

definition nulls_first :: "OrderBySpec \<Rightarrow> bool" where
  "nulls_first s = (case ob_nullsFirst s of None \<Rightarrow> ob_direction s = Desc | Some b \<Rightarrow> b)"

definition spec_cmp :: "OrderBySpec \<Rightarrow> Tuple \<Rightarrow> Tuple \<Rightarrow> strong_ordering" where
  "spec_cmp s a b =
     (case (maybeGet a (ob_column s), maybeGet b (ob_column s)) of
        (Some av, Some bv) \<Rightarrow> compare av bv
      | _ \<Rightarrow> SEqual)"

fun order_less :: "OrderBySpec list \<Rightarrow> Tuple \<Rightarrow> Tuple \<Rightarrow> bool" where
  "order_less [] a b = False"
| "order_less (s # ss) a b =
     (if null_at a (ob_column s) \<and> null_at b (ob_column s) then order_less ss a b
      else if null_at a (ob_column s) then nulls_first s
      else if null_at b (ob_column s) then \<not> nulls_first s
      else if spec_cmp s a b = SEqual then order_less ss a b
      else if ob_direction s = Asc then spec_cmp s a b = SLess
      else spec_cmp s a b = SGreater)"

text \<open>LIMIT and OFFSET are \<open>size_t\<close>; the sum of the two wraps.\<close>

definition window :: "nat option \<Rightarrow> nat option \<Rightarrow> 'a list \<Rightarrow> 'a list" where
  "window limit offset matched =
     (let start0 = (case offset of None \<Rightarrow> 0 | Some n \<Rightarrow> n);
          end0 = (case limit of None \<Rightarrow> length matched | Some l \<Rightarrow> min (length matched) ((start0 + l) mod 2 ^ 64));
          start = (if start0 \<ge> length matched then length matched else start0);
          end = (if end0 < start then start else end0)
      in take (end - start) (drop start matched))"

definition matched_rows :: "(string \<Rightarrow> Tuple list) \<Rightarrow> Command \<Rightarrow> Tuple list result" where
  "matched_rows scan_of cmd =
     (if cmd_joins cmd = []
      then rbind (rfilter (where_holds (cmd_where cmd)) (scan_of (cmd_table cmd)))
             (\<lambda>rs. Inr (apply_projections (cmd_projections cmd) rs))
      else rbind (rfilter (where_holds (cmd_where cmd)) (join_rows scan_of (cmd_table cmd) (cmd_joins cmd)))
             (\<lambda>rs. Inr (apply_projections (cmd_projections cmd) rs)))"

definition select_rows ::
  "((Tuple \<Rightarrow> Tuple \<Rightarrow> bool) \<Rightarrow> Tuple list \<Rightarrow> Tuple list) \<Rightarrow> (string \<Rightarrow> Tuple list) \<Rightarrow> Command \<Rightarrow> Tuple list result" where
  "select_rows srt scan_of cmd =
     rbind (matched_rows scan_of cmd)
       (\<lambda>m. Inr (window (cmd_limit cmd) (cmd_offset cmd)
          (if cmd_orderBy cmd = [] then m else srt (order_less (cmd_orderBy cmd)) m)))"

section \<open>Filtering and windows\<close>

definition where_sat :: "Predicate option \<Rightarrow> Tuple \<Rightarrow> bool" where
  "where_sat w row = (case w of None \<Rightarrow> True | Some None \<Rightarrow> False | Some (Some n) \<Rightarrow> sat n row)"

definition where_ok :: "Predicate option \<Rightarrow> bool" where
  "where_ok w = (case w of Some (Some n) \<Rightarrow> no_null n | _ \<Rightarrow> True)"

lemma where_holds_sat: "where_ok w \<Longrightarrow> where_holds w row = Inr (where_sat w row)"
  by (auto simp: where_holds_def where_sat_def where_ok_def evaluate_def eval_sat split: option.splits)

lemma rfilter_Inr: "(\<And>x. x \<in> set xs \<Longrightarrow> p x = Inr (q x)) \<Longrightarrow> rfilter p xs = Inr (filter q xs)"
  by (induction xs) auto

lemma window_take_drop:
  assumes "case (limit, offset) of (Some l, Some s) \<Rightarrow> s + l < 2 ^ 64 | (Some l, None) \<Rightarrow> l < 2 ^ 64 | _ \<Rightarrow> True"
  shows "window limit offset xs =
    (case limit of None \<Rightarrow> id | Some l \<Rightarrow> take l) (drop (case offset of None \<Rightarrow> 0 | Some s \<Rightarrow> s) xs)"
  using assms by (auto simp: window_def Let_def min_def split: option.splits if_splits)

section \<open>The ORDER BY comparator\<close>

text \<open>One criterion as a comparator of its own.\<close>

definition spec_less :: "OrderBySpec \<Rightarrow> Tuple \<Rightarrow> Tuple \<Rightarrow> bool" where
  "spec_less s a b =
     (if null_at a (ob_column s) \<and> null_at b (ob_column s) then False
      else if null_at a (ob_column s) then nulls_first s
      else if null_at b (ob_column s) then \<not> nulls_first s
      else if ob_direction s = Asc then spec_cmp s a b = SLess else spec_cmp s a b = SGreater)"

text \<open>Rows whose ordering columns hold no NaN.\<close>

definition orderable :: "OrderBySpec list \<Rightarrow> Tuple \<Rightarrow> bool" where
  "orderable specs row \<longleftrightarrow> (\<forall>s \<in> set specs. \<forall>v. maybeGet row (ob_column s) = Some v \<longrightarrow> not_nan v)"

text \<open>The comparator depends on a row only through one optional value per criterion.\<close>

definition order_value :: "OrderBySpec \<Rightarrow> Tuple \<Rightarrow> Value option" where
  "order_value s row = (case maybeGet row (ob_column s) of None \<Rightarrow> None | Some v \<Rightarrow> if isNull v then None else Some v)"

lemma null_at_order_value: "null_at row (ob_column s) \<longleftrightarrow> order_value s row = None"
  by (simp add: null_at_def order_value_def split: option.splits)

definition value_before :: "OrderBySpec \<Rightarrow> Value option \<Rightarrow> Value option \<Rightarrow> bool" where
  "value_before s a b =
     (case (a, b) of
        (None, None) \<Rightarrow> False
      | (None, Some w) \<Rightarrow> nulls_first s
      | (Some v, None) \<Rightarrow> \<not> nulls_first s
      | (Some v, Some w) \<Rightarrow> if ob_direction s = Asc then value_less v w else value_less w v)"

lemma compare_greater: "not_nan v \<Longrightarrow> not_nan w \<Longrightarrow> compare v w = SGreater \<longleftrightarrow> value_less w v"
  using compare_swap [of w v] by (simp add: value_less_def)

lemma spec_cmp_values:
  "order_value s a = Some v \<Longrightarrow> order_value s b = Some w \<Longrightarrow> spec_cmp s a b = compare v w"
  by (auto simp: order_value_def spec_cmp_def split: option.splits if_splits)

lemma order_value_not_nan: "orderable (s # ss) row \<Longrightarrow> order_value s row = Some v \<Longrightarrow> not_nan v"
  by (auto simp: orderable_def order_value_def split: option.splits if_splits)

lemma spec_less_before:
  "orderable (s # ss) a \<Longrightarrow> orderable (s # ss) b \<Longrightarrow>
   spec_less s a b = value_before s (order_value s a) (order_value s b)"
  using order_value_not_nan [of s ss]
  by (cases "order_value s a"; cases "order_value s b")
     (auto simp: spec_less_def value_before_def null_at_order_value spec_cmp_values compare_greater value_less_def)

lemma value_before_order:
  "strict_weak_order (\<lambda>x. case x of None \<Rightarrow> True | Some v \<Rightarrow> not_nan v) (value_before s)"
proof
  fix x y z :: "Value option"
  let ?ok = "\<lambda>x. case x of None \<Rightarrow> True | Some v \<Rightarrow> not_nan v"
  show "\<not> value_before s x x" if "?ok x"
    using that by (cases x) (simp_all add: value_before_def value_less_iff)
  show "value_before s x z" if "?ok x" "?ok y" "?ok z" "value_before s x y" "value_before s y z"
    using that by (cases x; cases y; cases z) (simp_all add: value_before_def value_less_iff split: if_splits)
  show "\<not> value_before s x z" if "?ok x" "?ok y" "?ok z" "\<not> value_before s x y" "\<not> value_before s y z"
    using that by (cases x; cases y; cases z) (simp_all add: value_before_def value_less_iff split: if_splits)
qed

lemma spec_less_order: "strict_weak_order (orderable (s # ss)) (spec_less s)"
proof (rule strict_weak_order_image [OF value_before_order [of s]])
  fix a b
  assume a: "orderable (s # ss) a"
  then show "case order_value s a of None \<Rightarrow> True | Some v \<Rightarrow> not_nan v"
    using order_value_not_nan by (auto split: option.splits)
  assume "orderable (s # ss) b"
  with a show "spec_less s a b = value_before s (order_value s a) (order_value s b)"
    by (rule spec_less_before)
qed

lemma order_less_lex:
  assumes "orderable (s # ss) a" "orderable (s # ss) b"
  shows "order_less (s # ss) a b = (spec_less s a b \<or> \<not> spec_less s b a \<and> order_less ss a b)"
proof (cases "order_value s a = None \<or> order_value s b = None")
  case True
  then show ?thesis by (auto simp: spec_less_def null_at_order_value)
next
  case False
  then obtain v w where vw: "order_value s a = Some v" "order_value s b = Some w" by auto
  then have "not_nan v" "not_nan w" using order_value_not_nan assms by blast+
  then have "compare v w = three_way (<) (sort_key v) (sort_key w)" "compare w v = three_way (<) (sort_key w) (sort_key v)"
    by (simp_all add: compare_sort_key)
  then show ?thesis using vw
    by (auto simp: spec_less_def null_at_order_value spec_cmp_values three_way_def)
qed

lemma order_less_order: "strict_weak_order (orderable specs) (order_less specs)"
proof (induction specs)
  case Nil
  show ?case using strict_weak_order_never [of "orderable []"] by (simp add: strict_weak_order_def)
next
  case (Cons s ss)
  have "strict_weak_order (orderable (s # ss)) (order_less ss)"
    by (rule strict_weak_order_subset [OF Cons.IH]) (simp_all add: orderable_def)
  then have "strict_weak_order (orderable (s # ss)) (\<lambda>a b. spec_less s a b \<or> \<not> spec_less s b a \<and> order_less ss a b)"
    by (rule strict_weak_order_lex [OF spec_less_order])
  then show ?case by (rule strict_weak_order_subset) (simp_all add: order_less_lex del: order_less.simps)
qed

section \<open>Properties\<close>

text \<open>The rows a Select works on, as a comprehension.\<close>

definition source_rows :: "(string \<Rightarrow> Tuple list) \<Rightarrow> Command \<Rightarrow> Tuple list" where
  "source_rows scan_of cmd =
     (if cmd_joins cmd = [] then scan_of (cmd_table cmd) else join_rows scan_of (cmd_table cmd) (cmd_joins cmd))"

definition answer_rows :: "(string \<Rightarrow> Tuple list) \<Rightarrow> Command \<Rightarrow> Tuple list" where
  "answer_rows scan_of cmd =
     apply_projections (cmd_projections cmd) (filter (where_sat (cmd_where cmd)) (source_rows scan_of cmd))"

lemma matched_rows_eq: "where_ok (cmd_where cmd) \<Longrightarrow> matched_rows scan_of cmd = Inr (answer_rows scan_of cmd)"
  using rfilter_Inr [of _ "where_holds (cmd_where cmd)" "where_sat (cmd_where cmd)"] where_holds_sat
  by (auto simp: matched_rows_def answer_rows_def source_rows_def)



lemma maybeGet_project: "maybeGet (project ps row) c = (if c \<in> set ps then maybeGet row c else None)"
  using trow.lookup_restrict_to [of ps row c] by (simp add: project_def trow.restrict_to_def)

text \<open>
  Projection happens before sorting: when the projection list keeps none of the ORDER BY columns, the
  comparator is false on every pair of projected rows, so that the answer has no particular order.
\<close>

theorem order_by_needs_projection:
  assumes "\<forall>s \<in> set specs. ob_column s \<notin> set ps"
  shows "\<not> order_less specs (project ps a) (project ps b)"
  using assms by (induction specs) (simp_all add: null_at_def maybeGet_project)

text \<open>Witnesses: a two-row table.\<close>

definition demo_rows :: "Tuple list" where
  "demo_rows = [Tuple_of [(''_id'', VInt64 2), (''n'', VText ''b'')], Tuple_of [(''_id'', VInt64 1), (''n'', VText ''a'')]]"

definition demo_select :: "string list \<Rightarrow> Command" where
  "demo_select ps = \<lparr>cmd_type = Select, cmd_table = ''t'', cmd_where = None, cmd_values = None,
     cmd_projections = ps, cmd_orderBy = [\<lparr>ob_column = ''n'', ob_direction = Asc, ob_nullsFirst = None\<rparr>],
     cmd_joins = [], cmd_limit = Some 1, cmd_offset = Some 0, cmd_txnId = None\<rparr>"



theorem order_by_needs_projection_witness:
  "\<not> order_less (cmd_orderBy (demo_select [''_id''])) (project [''_id''] (demo_rows ! 1)) (project [''_id''] (demo_rows ! 0))"
  by (rule order_by_needs_projection) (simp add: demo_select_def)

end
