(* ===== verification/Transactions.thy ===== *)
theory Transactions
  imports Tuples
begin

text \<open>
  \<open>includes/opendb/core/TransactionManager.hpp\<close>: transaction ids, the per-transaction
  state machine \<open>Active\<close> to \<open>Committed\<close> or \<open>Aborted\<close>, and the commit
  sequence that storage engines stamp onto versions. Every method runs under the manager's
  mutex, so each is one atomic step.
\<close>

section \<open>State and operations\<close>

datatype TxnState = Active | Committed | Aborted | StateNotFound

record TransactionManager =
  next_id :: u64
  commit_seq :: u64
  states :: "u64 \<Rightarrow> TxnState option"

definition tm_init :: TransactionManager where
  "tm_init = \<lparr>next_id = 0, commit_seq = 0, states = Map.empty\<rparr>"

definition beginTxn :: "TransactionManager \<Rightarrow> TransactionManager \<times> TxnId" where
  "beginTxn tm =
     (let n = next_id tm + 1
      in (tm\<lparr>next_id := n, states := (states tm)(n \<mapsto> Active)\<rparr>, n))"

definition commitTxn :: "TransactionManager \<Rightarrow> TxnId \<Rightarrow> TransactionManager \<times> bool" where
  "commitTxn tm t =
     (if states tm t = Some Active
      then (tm\<lparr>states := (states tm)(t \<mapsto> Committed), commit_seq := commit_seq tm + 1\<rparr>, True)
      else (tm, False))"

definition abortTxn :: "TransactionManager \<Rightarrow> TxnId \<Rightarrow> TransactionManager \<times> bool" where
  "abortTxn tm t =
     (if states tm t = Some Active
      then (tm\<lparr>states := (states tm)(t \<mapsto> Aborted)\<rparr>, True)
      else (tm, False))"

definition getState :: "TransactionManager \<Rightarrow> TxnId \<Rightarrow> TxnState" where
  "getState tm t = (case states tm t of None \<Rightarrow> StateNotFound | Some s \<Rightarrow> s)"

definition visibleSeq :: "TransactionManager \<Rightarrow> u64" where
  "visibleSeq tm = commit_seq tm"

section \<open>Runs\<close>

datatype TxnOp = Begin | Commit TxnId | Abort TxnId

primrec tm_step :: "TxnOp \<Rightarrow> TransactionManager \<Rightarrow> TransactionManager" where
  "tm_step Begin tm = fst (beginTxn tm)"
| "tm_step (Commit t) tm = fst (commitTxn tm t)"
| "tm_step (Abort t) tm = fst (abortTxn tm t)"

definition begins :: "TxnOp list \<Rightarrow> nat" where
  "begins ops = length (filter (\<lambda>p. p = Begin) ops)"

text \<open>
  The invariant of a manager that has issued fewer than \<open>2^64\<close> ids: exactly the issued
  ids are known, and the commit sequence counts the committed transactions.
\<close>

definition committed :: "TransactionManager \<Rightarrow> TxnId set" where
  "committed tm = {t. states tm t = Some Committed}"

definition tm_inv :: "TransactionManager \<Rightarrow> bool" where
  "tm_inv tm \<longleftrightarrow> dom (states tm) = {t. 0 < t \<and> t \<le> next_id tm} \<and>
     unat (commit_seq tm) = card (committed tm) \<and>
     (\<forall>t. states tm t \<noteq> Some StateNotFound)"

lemma tm_inv_init [inv_intros]: "tm_inv tm_init"
  by (auto simp: tm_inv_def tm_init_def committed_def word_less_nat_alt word_le_nat_alt)

lemma unat_plus1: "n + 1 \<noteq> 0 \<Longrightarrow> unat (n + 1) = Suc (unat n)" for n :: "'a::len word"
  using unatSuc [of n] by (simp add: add.commute)

lemma unat_plus1_nonzero: "unat n + 1 < 2 ^ 64 \<Longrightarrow> n + 1 \<noteq> 0" for n :: u64
proof
  assume "unat n + 1 < 2 ^ 64" "n + 1 = 0"
  moreover from this have "n = - 1" by (simp add: eq_neg_iff_add_eq_0)
  moreover have "unat (- 1 :: u64) = 2 ^ 64 - 1" 
    by (simp add: unsigned_minus_1_eq_mask mask_eq_exp_minus_1)
  ultimately show False by simp
qed

lemma fresh_id:
  assumes "tm_inv tm" "next_id tm + 1 \<noteq> 0"
  shows "states tm (next_id tm + 1) = None"
proof (rule ccontr)
  assume "states tm (next_id tm + 1) \<noteq> None"
  then have "next_id tm + 1 \<in> dom (states tm)" by (simp add: dom_def)
  then have "next_id tm + 1 \<le> next_id tm" using assms(1) by (simp add: tm_inv_def)
  then show False using unat_plus1 [OF assms(2)] by (simp add: word_le_nat_alt)
qed

lemma card_issued: "A \<subseteq> {t. 0 < t \<and> t \<le> n} \<Longrightarrow> card A \<le> unat (n :: u64)"
proof -
  assume A: "A \<subseteq> {t. 0 < t \<and> t \<le> n}"
  have "inj_on unat A" by (simp add: inj_on_def word_unat_eq_iff)
  moreover have "unat ` A \<subseteq> {1..unat n}"
    using A by (auto simp: word_less_nat_alt word_le_nat_alt subset_iff)
  ultimately have "card A \<le> card {1..unat n}" by (rule card_inj_on_le) simp
  then show ?thesis by simp
qed

lemma tm_inv_begin [inv_intros]:
  assumes "tm_inv tm" "next_id tm + 1 \<noteq> 0"
  shows "tm_inv (fst (beginTxn tm))"
proof -
  note fresh = fresh_id [OF assms]
  have "{t. 0 < t \<and> t \<le> next_id tm + 1} = insert (next_id tm + 1) {t. 0 < t \<and> t \<le> next_id tm}"
    using unat_plus1 [OF assms(2)] by (auto simp: word_le_nat_alt word_less_nat_alt le_Suc_eq word_unat_eq_iff)
  moreover have "committed (fst (beginTxn tm)) = committed tm"
    using fresh by (auto simp: committed_def beginTxn_def Let_def)
  ultimately show ?thesis
    using assms(1) by (auto simp: tm_inv_def beginTxn_def Let_def)
qed

lemma tm_inv_abort [inv_intros]: "tm_inv tm \<Longrightarrow> tm_inv (fst (abortTxn tm t))"
proof (cases "states tm t = Some Active")
  case True
  assume inv: "tm_inv tm"
  have "committed (fst (abortTxn tm t)) = committed tm"
    using True by (auto simp: committed_def abortTxn_def)
  then show ?thesis using inv True by (auto simp: tm_inv_def abortTxn_def)
qed (simp add: abortTxn_def)

lemma tm_inv_commit [inv_intros]: "tm_inv tm \<Longrightarrow> tm_inv (fst (commitTxn tm t))"
proof (cases "states tm t = Some Active")
  case True
  assume inv: "tm_inv tm"
  have c: "committed (fst (commitTxn tm t)) = insert t (committed tm)" "t \<notin> committed tm"
    using True by (auto simp: committed_def commitTxn_def)
  have "insert t (committed tm) \<subseteq> {t. 0 < t \<and> t \<le> next_id tm}"
    using inv True by (auto simp: tm_inv_def committed_def dom_def)
  then have "Suc (card (committed tm)) \<le> unat (next_id tm)"
    using card_issued [of "insert t (committed tm)" "next_id tm"] c(2) by simp
  then have "unat (commit_seq tm) < unat (next_id tm)" using inv by (simp add: tm_inv_def)
  then have "commit_seq tm + 1 \<noteq> 0"
    using unsigned_less [of "next_id tm", where ?'a = nat] by (intro unat_plus1_nonzero) simp
  then have "unat (commit_seq tm + 1) = Suc (unat (commit_seq tm))" by (rule unat_plus1)
  then show ?thesis using inv True c by (auto simp: tm_inv_def commitTxn_def)
qed (simp add: commitTxn_def)

text \<open>Ids are consecutive as long as the counter has not wrapped.\<close>

lemma next_id_run:
  "begins ops + unat (next_id tm) < 2 ^ 64 \<Longrightarrow> tm_inv tm \<Longrightarrow>
   tm_inv (fold tm_step ops tm) \<and> unat (next_id (fold tm_step ops tm)) = begins ops + unat (next_id tm)"
proof (induction ops arbitrary: tm)
  case Nil
  then show ?case by (simp add: begins_def)
next
  case (Cons p ops)
  show ?case
  proof (cases p)
    case Begin
    then have lt: "unat (next_id tm) + 1 < 2 ^ 64" using Cons.prems by (simp add: begins_def)
    have n: "next_id tm + 1 \<noteq> 0" using lt by (rule unat_plus1_nonzero)
    have "unat (next_id (fst (beginTxn tm))) = Suc (unat (next_id tm))"
      using unat_plus1 [OF n] by (simp add: beginTxn_def Let_def)
    then show ?thesis
      using Cons.IH [of "fst (beginTxn tm)"] Cons.prems Begin tm_inv_begin [OF Cons.prems(2) n]
      by (simp add: begins_def)
  next
    case (Commit t)
    have "next_id (fst (commitTxn tm t)) = next_id tm" by (simp add: commitTxn_def)
    then show ?thesis
      using Cons.IH [of "fst (commitTxn tm t)"] Cons.prems Commit tm_inv_commit by (simp add: begins_def)
  next
    case (Abort t)
    have "next_id (fst (abortTxn tm t)) = next_id tm" by (simp add: abortTxn_def)
    then show ?thesis
      using Cons.IH [of "fst (abortTxn tm t)"] Cons.prems Abort tm_inv_abort by (simp add: begins_def)
  qed
qed

text \<open>A transaction that is closed stays as it is, whatever else happens.\<close>

lemma closed_step:
  "states tm t \<in> {Some Committed, Some Aborted} \<Longrightarrow> tm_inv tm \<Longrightarrow> next_id tm + 1 \<noteq> 0 \<Longrightarrow>
   states (tm_step p tm) t = states tm t"
proof (cases p)
  case Begin
  assume a: "states tm t \<in> {Some Committed, Some Aborted}" "tm_inv tm" "next_id tm + 1 \<noteq> 0"
  then have "t \<le> next_id tm" by (auto simp: tm_inv_def dom_def)
  then have "t \<noteq> next_id tm + 1" using unat_plus1 [OF a(3)] by (auto simp: word_le_nat_alt)
  then show ?thesis using Begin by (simp add: beginTxn_def Let_def)
qed (auto simp: commitTxn_def abortTxn_def)

section \<open>Properties\<close>

text \<open>
  In every run that issues fewer than \<open>2^64\<close> transactions, the known ids are exactly
  \<open>1 .. n\<close> for \<open>n\<close> issued ones, and \<open>visibleSeq\<close> is the number of committed
  transactions: the commit sequence advances once per commit and never otherwise.
\<close>

theorem txn_manager_counts:
  assumes "begins ops < 2 ^ 64"
  shows "unat (next_id (fold tm_step ops tm_init)) = begins ops \<and>
    dom (states (fold tm_step ops tm_init)) = {t. 0 < t \<and> unat t \<le> begins ops} \<and>
    unat (visibleSeq (fold tm_step ops tm_init)) = card (committed (fold tm_step ops tm_init))"
proof -
  let ?tm = "fold tm_step ops tm_init"
  have "tm_inv ?tm \<and> unat (next_id ?tm) = begins ops"
    using next_id_run [of ops tm_init] assms tm_inv_init by (simp add: tm_init_def)
  then show ?thesis by (auto simp: tm_inv_def visibleSeq_def word_le_nat_alt)
qed

theorem txn_manager_counts_witness:
  "begins [Begin, Begin, Commit 1, Commit 1, Abort 2] < 2 ^ 64 \<and>
   unat (next_id (fold tm_step [Begin, Begin, Commit 1, Commit 1, Abort 2] tm_init)) = 2"
  using txn_manager_counts [of "[Begin, Begin, Commit 1, Commit 1, Abort 2]"]
  by (simp add: begins_def)

text \<open>
  The transaction state machine: committing or aborting succeeds exactly on an active
  transaction, and a committed or aborted transaction keeps its state under every further
  operation (no double commit, no commit after abort).
\<close>

theorem txn_state_machine:
  assumes "tm_inv tm" "next_id tm + 1 \<noteq> 0"
  shows "snd (commitTxn tm t) = (getState tm t = Active) \<and>
    snd (abortTxn tm t) = (getState tm t = Active) \<and>
    getState (fst (commitTxn tm t)) t = (if getState tm t = Active then Committed else getState tm t) \<and>
    (getState tm t \<in> {Committed, Aborted} \<longrightarrow> getState (tm_step p tm) t = getState tm t) \<and>
    getState (fst (beginTxn tm)) (snd (beginTxn tm)) = Active \<and>
    getState tm (snd (beginTxn tm)) = StateNotFound"
proof -
  have "states tm (next_id tm + 1) = None" by (rule fresh_id [OF assms])
  moreover have "getState tm t \<in> {Committed, Aborted} \<Longrightarrow> getState (tm_step p tm) t = getState tm t"
    using closed_step [of tm t p] assms by (auto simp: getState_def tm_inv_def split: option.splits)
  ultimately show ?thesis
    by (auto simp: getState_def commitTxn_def abortTxn_def beginTxn_def Let_def split: option.splits)
qed

theorem txn_state_machine_witness:
  "tm_inv tm_init \<and> next_id tm_init + 1 \<noteq> 0 \<and> getState (fst (beginTxn tm_init)) (snd (beginTxn tm_init)) = Active"
  using txn_state_machine [of tm_init 1 Begin] tm_inv_init by (simp add: tm_init_def)

end
