(* ===== verification/Locks.thy ===== *)
theory Locks
  imports Tuples "HOL-Library.Multiset"
begin

text \<open>
  \<open>includes/opendb/core/LockManager.hpp\<close>: shared and exclusive locks on tables and rows
  with a wait queue. Each method body between taking and giving up \<open>mutex_\<close> is one atomic
  operation here; a call that waits on the condition variable is split at the wait into the
  part before it (\<open>acquire_enter\<close>, \<open>try_enter\<close>) and the part a wake-up runs
  (\<open>acquire_wake\<close>, \<open>try_wake\<close>, \<open>try_timeout\<close>), and the step relation
  interleaves the parts of concurrent calls in every order, spurious wake-ups included.
\<close>

section \<open>State\<close>

datatype LockMode = Shared | Exclusive

datatype LockAcquireResult = Granted | TimedOut

type_synonym ResourceKey = "string \<times> string"

record Lock =
  lock_mode :: LockMode
  holders :: "TxnId list"

record LockManager =
  held :: "(ResourceKey \<times> Lock) list"
  waiters :: "(ResourceKey \<times> (TxnId \<times> LockMode) list) list"

definition lm_init :: LockManager where
  "lm_init = \<lparr>held = [], waiters = []\<rparr>"

definition tableKey :: "string \<Rightarrow> ResourceKey" where
  "tableKey t = (t, [])"

definition rowKey :: "string \<Rightarrow> string \<Rightarrow> ResourceKey" where
  "rowKey t k = (t, k)"

section \<open>Granting\<close>

definition grantable :: "LockManager \<Rightarrow> TxnId \<Rightarrow> ResourceKey \<Rightarrow> LockMode \<Rightarrow> bool" where
  "grantable lm txn key m =
     (case map_of (held lm) key of
        None \<Rightarrow> True
      | Some l \<Rightarrow> txn \<in> set (holders l) \<or> (m = Shared \<and> lock_mode l = Shared))"

definition grant :: "LockManager \<Rightarrow> TxnId \<Rightarrow> ResourceKey \<Rightarrow> LockMode \<Rightarrow> LockManager" where
  "grant lm txn key m =
     (case map_of (held lm) key of
        None \<Rightarrow> lm\<lparr>held := AList.update key \<lparr>lock_mode = m, holders = [txn]\<rparr> (held lm)\<rparr>
      | Some l \<Rightarrow>
          if txn \<in> set (holders l) then
            (if m = Exclusive \<and> lock_mode l = Shared
             then lm\<lparr>held := AList.update key (l\<lparr>lock_mode := Exclusive\<rparr>) (held lm)\<rparr>
             else lm)
          else
            (let l' = (if m = Exclusive then l\<lparr>holders := [], lock_mode := Exclusive\<rparr> else l)
             in lm\<lparr>held := AList.update key (l'\<lparr>holders := holders l' @ [txn]\<rparr>) (held lm)\<rparr>))"

section \<open>The wait queue\<close>

text \<open>\<open>waiters_[key]\<close>, which creates the entry when it is missing.\<close>

definition waiting :: "LockManager \<Rightarrow> ResourceKey \<Rightarrow> (TxnId \<times> LockMode) list" where
  "waiting lm key = (case map_of (waiters lm) key of None \<Rightarrow> [] | Some ws \<Rightarrow> ws)"

definition push_waiter :: "LockManager \<Rightarrow> TxnId \<Rightarrow> ResourceKey \<Rightarrow> LockMode \<Rightarrow> LockManager" where
  "push_waiter lm txn key m =
     lm\<lparr>waiters := AList.update key (waiting lm key @ [(txn, m)]) (waiters lm)\<rparr>"

fun erase_first :: "TxnId \<Rightarrow> (TxnId \<times> LockMode) list \<Rightarrow> (TxnId \<times> LockMode) list" where
  "erase_first txn [] = []"
| "erase_first txn ((t, m) # ws) = (if t = txn then ws else (t, m) # erase_first txn ws)"

definition pop_waiter :: "LockManager \<Rightarrow> TxnId \<Rightarrow> ResourceKey \<Rightarrow> LockManager" where
  "pop_waiter lm txn key =
     lm\<lparr>waiters := AList.update key (erase_first txn (waiting lm key)) (waiters lm)\<rparr>"

section \<open>Blocking and bounded acquisition\<close>

text \<open>
  The result is \<open>None\<close> while the call waits. \<open>acquireKey\<close> runs its loop test on entry
  and after each wake-up, which first takes its own entry off the queue.
\<close>

definition acquire_enter ::
  "LockManager \<Rightarrow> TxnId \<Rightarrow> ResourceKey \<Rightarrow> LockMode \<Rightarrow> LockManager \<times> LockAcquireResult option" where
  "acquire_enter lm txn key m =
     (if grantable lm txn key m then (grant lm txn key m, Some Granted)
      else (push_waiter lm txn key m, None))"

definition acquire_wake ::
  "LockManager \<Rightarrow> TxnId \<Rightarrow> ResourceKey \<Rightarrow> LockMode \<Rightarrow> LockManager \<times> LockAcquireResult option" where
  "acquire_wake lm txn key m = acquire_enter (pop_waiter lm txn key) txn key m"

definition try_enter ::
  "LockManager \<Rightarrow> TxnId \<Rightarrow> ResourceKey \<Rightarrow> LockMode \<Rightarrow> LockManager \<times> LockAcquireResult option" where
  "try_enter lm txn key m =
     (if grantable lm txn key m then (grant lm txn key m, Some Granted)
      else (push_waiter lm txn key m, None))"

definition try_wake ::
  "LockManager \<Rightarrow> TxnId \<Rightarrow> ResourceKey \<Rightarrow> LockMode \<Rightarrow> LockManager \<times> LockAcquireResult option" where
  "try_wake lm txn key m =
     (if grantable lm txn key m then (grant (pop_waiter lm txn key) txn key m, Some Granted)
      else (lm, None))"

definition try_timeout ::
  "LockManager \<Rightarrow> TxnId \<Rightarrow> ResourceKey \<Rightarrow> LockManager \<times> LockAcquireResult option" where
  "try_timeout lm txn key =
     (let lm' = pop_waiter lm txn key
      in (if waiting lm' key = [] then lm'\<lparr>waiters := AList.delete key (waiters lm')\<rparr> else lm',
          Some TimedOut))"

section \<open>Release\<close>

text \<open>The flag is whether \<open>notify_all\<close> is called.\<close>

definition release_lock :: "TxnId \<Rightarrow> ResourceKey \<times> Lock \<Rightarrow> (ResourceKey \<times> Lock) list" where
  "release_lock txn e =
     (case e of (key, l) \<Rightarrow>
        if txn \<in> set (holders l)
        then (if remove1 txn (holders l) = [] then [] else [(key, l\<lparr>holders := remove1 txn (holders l)\<rparr>)])
        else [(key, l)])"

definition release :: "LockManager \<Rightarrow> TxnId \<Rightarrow> LockManager \<times> bool" where
  "release lm txn =
     (lm\<lparr>held := concat (map (release_lock txn) (held lm))\<rparr>,
      \<exists>e \<in> set (held lm). txn \<in> set (holders (snd e)))"

definition releaseKey :: "LockManager \<Rightarrow> TxnId \<Rightarrow> ResourceKey \<Rightarrow> LockManager \<times> bool" where
  "releaseKey lm txn key =
     (case map_of (held lm) key of
        None \<Rightarrow> (lm, False)
      | Some l \<Rightarrow>
          if txn \<in> set (holders l)
          then (if remove1 txn (holders l) = []
                then (lm\<lparr>held := AList.delete key (held lm)\<rparr>, True)
                else (lm\<lparr>held := AList.update key (l\<lparr>holders := remove1 txn (holders l)\<rparr>) (held lm)\<rparr>, True))
          else (lm, False))"

section \<open>Queries\<close>

text \<open>
  The iteration order of an \<open>unordered_map\<close> or \<open>unordered_set\<close> is not specified: the
  queries take it as an argument, a reordering of the entries.
\<close>

definition reorders :: "('a list \<Rightarrow> 'a list) \<Rightarrow> bool" where
  "reorders ord \<longleftrightarrow> (\<forall>xs. set (ord xs) = set xs)"

definition getHolders :: "(TxnId list \<Rightarrow> TxnId list) \<Rightarrow> LockManager \<Rightarrow> string \<Rightarrow> TxnId list" where
  "getHolders ord lm table =
     ord (remdups (concat (map (\<lambda>(key, l). if fst key = table then holders l else []) (held lm))))"

definition getWaiters :: "(TxnId list \<Rightarrow> TxnId list) \<Rightarrow> LockManager \<Rightarrow> string \<Rightarrow> TxnId list" where
  "getWaiters ord lm table =
     ord (remdups (concat (map (\<lambda>(key, ws). if fst key = table then map fst ws else []) (waiters lm))))"

definition waiterResource ::
  "(ResourceKey list \<Rightarrow> ResourceKey list) \<Rightarrow> LockManager \<Rightarrow> TxnId \<Rightarrow> ResourceKey" where
  "waiterResource ord lm txn =
     (case find (\<lambda>key. txn \<in> fst ` set (waiting lm key)) (ord (map fst (waiters lm))) of
        None \<Rightarrow> ([], [])
      | Some key \<Rightarrow> key)"

definition waiterTable ::
  "(ResourceKey list \<Rightarrow> ResourceKey list) \<Rightarrow> LockManager \<Rightarrow> TxnId \<Rightarrow> string" where
  "waiterTable ord lm txn = fst (waiterResource ord lm txn)"

definition isGranted :: "LockManager \<Rightarrow> TxnId \<Rightarrow> string \<Rightarrow> bool" where
  "isGranted lm txn table \<longleftrightarrow> (\<exists>e \<in> set (held lm). fst (fst e) = table \<and> txn \<in> set (holders (snd e)))"

definition isGrantedKey :: "LockManager \<Rightarrow> TxnId \<Rightarrow> ResourceKey \<Rightarrow> bool" where
  "isGrantedKey lm txn key =
     (case map_of (held lm) key of None \<Rightarrow> False | Some l \<Rightarrow> txn \<in> set (holders l))"

section \<open>Concurrent calls\<close>

text \<open>
  A blocked call remembers its arguments; \<open>bounded\<close> tells \<open>tryAcquireKey\<close> from
  \<open>acquireKey\<close>.
\<close>

record call =
  caller :: TxnId
  target :: ResourceKey
  wanted :: LockMode
  bounded :: bool

type_synonym lock_state = "LockManager \<times> call multiset"

definition enter :: "LockManager \<Rightarrow> call \<Rightarrow> LockManager \<times> LockAcquireResult option" where
  "enter lm c = (if bounded c then try_enter lm (caller c) (target c) (wanted c)
                 else acquire_enter lm (caller c) (target c) (wanted c))"

definition wake :: "LockManager \<Rightarrow> call \<Rightarrow> LockManager \<times> LockAcquireResult option" where
  "wake lm c = (if bounded c then try_wake lm (caller c) (target c) (wanted c)
                else acquire_wake lm (caller c) (target c) (wanted c))"

definition still_blocked :: "call \<Rightarrow> LockAcquireResult option \<Rightarrow> call multiset" where
  "still_blocked c r = (if r = None then {#c#} else {#})"

datatype event = Requests call | TimesOut call | Releases TxnId | ReleasesKey TxnId ResourceKey

inductive lock_step :: "lock_state \<Rightarrow> event \<Rightarrow> lock_state \<Rightarrow> bool" where
  call: "enter lm c = (lm', r) \<Longrightarrow> lock_step (lm, B) (Requests c) (lm', B + still_blocked c r)"
| woken: "c \<in># B \<Longrightarrow> wake lm c = (lm', r) \<Longrightarrow>
    lock_step (lm, B) (Requests c) (lm', B - {#c#} + still_blocked c r)"
| timeout: "c \<in># B \<Longrightarrow> bounded c \<Longrightarrow> try_timeout lm (caller c) (target c) = (lm', r) \<Longrightarrow>
    lock_step (lm, B) (TimesOut c) (lm', B - {#c#})"
| released: "release lm t = (lm', n) \<Longrightarrow> lock_step (lm, B) (Releases t) (lm', B)"
| released_key: "releaseKey lm t k = (lm', n) \<Longrightarrow> lock_step (lm, B) (ReleasesKey t k) (lm', B)"

inductive lock_reachable :: "lock_state \<Rightarrow> bool" where
  start: "lock_reachable (lm_init, {#})"
| step: "lock_reachable s \<Longrightarrow> lock_step s ev s' \<Longrightarrow> lock_reachable s'"

section \<open>Invariants\<close>

declare split_paired_All [simp del]

text \<open>
  The lock table: one entry per key, held by at least one and by distinct transactions. The
  wait queue: for every key, the queued transactions are exactly those of the blocked calls.
\<close>

definition held_inv :: "LockManager \<Rightarrow> bool" where
  "held_inv lm \<longleftrightarrow> distinct (map fst (held lm)) \<and>
     (\<forall>key l. map_of (held lm) key = Some l \<longrightarrow> holders l \<noteq> [] \<and> distinct (holders l))"

definition queue_inv :: "LockManager \<Rightarrow> call multiset \<Rightarrow> bool" where
  "queue_inv lm B \<longleftrightarrow> (\<forall>key. mset (map fst (waiting lm key)) =
     image_mset caller (filter_mset (\<lambda>c. target c = key) B))"

definition drop_holder :: "TxnId \<Rightarrow> Lock \<Rightarrow> Lock option" where
  "drop_holder t l =
     (if t \<in> set (holders l)
      then (if remove1 t (holders l) = [] then None else Some (l\<lparr>holders := remove1 t (holders l)\<rparr>))
      else Some l)"

lemmas alist_simps = update_conv' delete_conv' distinct_update distinct_delete

lemma held_simps [simp]:
  "held (push_waiter lm t k m) = held lm" "held (pop_waiter lm t k) = held lm"
  "held (fst (try_timeout lm t k)) = held lm" "waiters (grant lm t k m) = waiters lm"
  by (auto simp: push_waiter_def pop_waiter_def try_timeout_def grant_def Let_def split: option.splits)

lemma grantable_cong: "held lm = held lm' \<Longrightarrow> grantable lm t k m = grantable lm' t k m"
  by (simp add: grantable_def)

lemma held_grant_cong: "held lm = held lm' \<Longrightarrow> held (grant lm t k m) = held (grant lm' t k m)"
  by (auto simp: grant_def Let_def split: option.splits)

lemma waiting_simps [simp]:
  "waiting (push_waiter lm t k m) k' = (if k' = k then waiting lm k @ [(t, m)] else waiting lm k')"
  "waiting (pop_waiter lm t k) k' = (if k' = k then erase_first t (waiting lm k) else waiting lm k')"
  "waiting (grant lm t k m) k' = waiting lm k'"
  by (auto simp: waiting_def push_waiter_def pop_waiter_def alist_simps)

lemma waiting_timeout [simp]:
  "waiting (fst (try_timeout lm t k)) k' = (if k' = k then erase_first t (waiting lm k) else waiting lm k')"
proof -
  have "waiting (lm\<lparr>waiters := AList.delete k (waiters lm)\<rparr>) k' = (if k' = k then [] else waiting lm k')" for lm k'
    by (simp add: waiting_def alist_simps)
  then show ?thesis by (auto simp: try_timeout_def Let_def)
qed

lemma mset_erase_first:
  "t \<in># mset (map fst ws) \<Longrightarrow> mset (map fst (erase_first t ws)) = mset (map fst ws) - {#t#}"
  by (induction t ws rule: erase_first.induct) auto

text \<open>Both entry points behave alike, and so do both wake-ups up to the queue.\<close>

lemma enter_eq:
  "enter lm c = (if grantable lm (caller c) (target c) (wanted c)
                 then (grant lm (caller c) (target c) (wanted c), Some Granted)
                 else (push_waiter lm (caller c) (target c) (wanted c), None))"
  by (simp add: enter_def acquire_enter_def try_enter_def)

lemma wake_held:
  "held (fst (wake lm c)) = held (fst (enter lm c))"
  "snd (wake lm c) = snd (enter lm c)"
  using grantable_cong [of "pop_waiter lm (caller c) (target c)" lm]
    held_grant_cong [of "pop_waiter lm (caller c) (target c)" lm]
  by (simp_all add: wake_def enter_eq acquire_wake_def acquire_enter_def try_wake_def)

lemma map_of_grant:
  assumes "grantable lm t k m"
  shows "map_of (held (grant lm t k m)) k' =
    (if k' \<noteq> k then map_of (held lm) k'
     else Some (case map_of (held lm) k of
        None \<Rightarrow> \<lparr>lock_mode = m, holders = [t]\<rparr>
      | Some l \<Rightarrow> if t \<in> set (holders l)
          then (if m = Exclusive then l\<lparr>lock_mode := Exclusive\<rparr> else l)
          else l\<lparr>holders := holders l @ [t]\<rparr>))"
  using assms
  by (cases "map_of (held lm) k"; cases m)
     (auto simp: grant_def grantable_def alist_simps Let_def intro: LockMode.exhaust)

lemma distinct_grant: "distinct (map fst (held lm)) \<Longrightarrow> distinct (map fst (held (grant lm t k m)))"
  by (auto simp: grant_def Let_def distinct_update split: option.splits)

lemma held_inv_grant [inv_intros]:
  assumes "held_inv lm" "grantable lm t k m"
  shows "held_inv (grant lm t k m)"
  unfolding held_inv_def
proof (intro conjI allI impI)
  show "distinct (map fst (held (grant lm t k m)))"
    using assms(1) by (simp add: held_inv_def distinct_grant)
next
  fix key l
  assume "map_of (held (grant lm t k m)) key = Some l"
  then show "holders l \<noteq> []" "distinct (holders l)"
    using assms by (auto simp: map_of_grant held_inv_def split: if_splits option.splits)
qed

lemma held_inv_cong: "held lm = held lm' \<Longrightarrow> held_inv lm = held_inv lm'"
  by (simp add: held_inv_def)

lemma held_inv_enter [inv_intros]: "held_inv lm \<Longrightarrow> held_inv (fst (enter lm c))"
  using held_inv_cong [of "push_waiter lm (caller c) (target c) (wanted c)" lm]
  by (auto simp: enter_eq held_inv_grant)

lemma release_lock_drop:
  "release_lock t (k, l) = (case drop_holder t l of None \<Rightarrow> [] | Some l' \<Rightarrow> [(k, l')])"
  by (simp add: release_lock_def drop_holder_def)

lemma keys_release: "fst ` set (concat (map (release_lock t) al)) \<subseteq> fst ` set al"
proof (induction al)
  case (Cons e al)
  then show ?case by (cases e) (auto simp: release_lock_drop split: option.splits)
qed simp

lemma distinct_release:
  "distinct (map fst al) \<Longrightarrow> distinct (map fst (concat (map (release_lock t) al)))"
proof (induction al)
  case (Cons e al)
  then have "fst e \<notin> fst ` set (concat (map (release_lock t) al))"
    using keys_release [of t al] by auto
  with Cons show ?case by (cases e) (auto simp: release_lock_drop split: option.splits)
qed simp

lemma map_of_release:
  "distinct (map fst al) \<Longrightarrow>
   map_of (concat (map (release_lock t) al)) k = Option.bind (map_of al k) (drop_holder t)"
proof (induction al)
  case (Cons e al)
  obtain k' l where e: "e = (k', l)" by (cases e)
  have "map_of al k' = None" using Cons.prems e by (simp add: map_of_eq_None_iff)
  then show ?case using Cons e
    by (cases "drop_holder t l") (auto simp: release_lock_drop)
qed simp

lemma held_release: "held_inv lm \<Longrightarrow> map_of (held (fst (release lm t))) k = Option.bind (map_of (held lm) k) (drop_holder t)"
  by (simp add: release_def map_of_release held_inv_def)

lemma held_releaseKey:
  "map_of (held (fst (releaseKey lm t k))) k' =
   (if k' = k then Option.bind (map_of (held lm) k) (drop_holder t) else map_of (held lm) k')"
  by (auto simp: releaseKey_def drop_holder_def alist_simps split: option.splits)

lemma drop_holder_inv:
  "drop_holder t l = Some l' \<Longrightarrow> holders l \<noteq> [] \<Longrightarrow> distinct (holders l) \<Longrightarrow> holders l' \<noteq> [] \<and> distinct (holders l')"
  by (auto simp: drop_holder_def split: if_splits)

lemma held_inv_release [inv_intros]: "held_inv lm \<Longrightarrow> held_inv (fst (release lm t))"
  using drop_holder_inv
  by (simp add: held_inv_def map_of_release distinct_release release_def bind_eq_Some_conv
      del: map_of_eq_Some_iff) blast

lemma held_inv_releaseKey [inv_intros]: "held_inv lm \<Longrightarrow> held_inv (fst (releaseKey lm t k))"
proof -
  assume inv: "held_inv lm"
  have "distinct (map fst (held (fst (releaseKey lm t k))))"
    using inv by (auto simp: held_inv_def releaseKey_def distinct_update distinct_delete split: option.splits)
  then show ?thesis using inv drop_holder_inv
    by (auto simp: held_inv_def held_releaseKey bind_eq_Some_conv split: if_splits)
qed

lemma waiting_release [simp]:
  "waiting (fst (release lm t)) k = waiting lm k" "waiting (fst (releaseKey lm t k')) k = waiting lm k"
  by (auto simp: waiting_def release_def releaseKey_def split: option.splits)

lemma queue_inv_enter: "queue_inv lm B \<Longrightarrow> enter lm c = (lm', r) \<Longrightarrow> queue_inv lm' (B + still_blocked c r)"
  by (auto simp: queue_inv_def enter_eq still_blocked_def split: if_splits)

text \<open>Taking a blocked call off the queue removes exactly its own entry.\<close>

lemma queue_inv_pop:
  assumes "queue_inv lm B" "c \<in># B"
    and "\<And>k. waiting lm' k = (if k = target c then erase_first (caller c) (waiting lm k) else waiting lm k)"
  shows "queue_inv lm' (B - {#c#})"
  unfolding queue_inv_def
proof (intro allI)
  fix key
  let ?F = "\<lambda>B. image_mset caller (filter_mset (\<lambda>c. target c = key) B)"
  have q: "mset (map fst (waiting lm key)) = ?F B" using assms(1) by (simp add: queue_inv_def)
  obtain B' where B: "B = add_mset c B'" using assms(2) by (metis mset_add)
  show "mset (map fst (waiting lm' key)) = ?F (B - {#c#})"
  proof (cases "key = target c")
    case True
    then have "caller c \<in># mset (map fst (waiting lm key))" unfolding q B by simp
    then have "mset (map fst (waiting lm' key)) = mset (map fst (waiting lm key)) - {#caller c#}"
      using True assms(3) mset_erase_first by simp
    then show ?thesis unfolding q B using True by simp
  next
    case False
    then show ?thesis using q assms(3) unfolding B by simp
  qed
qed

lemma queue_inv_wake:
  assumes "queue_inv lm B" "c \<in># B" "wake lm c = (lm', r)"
  shows "queue_inv lm' (B - {#c#} + still_blocked c r)"
proof -
  let ?p = "pop_waiter lm (caller c) (target c)"
  have pop: "queue_inv ?p (B - {#c#})"
    by (rule queue_inv_pop [OF assms(1,2)]) simp
  have "queue_inv (grant ?p (caller c) (target c) (wanted c)) (B - {#c#})"
    using pop by (simp add: queue_inv_def)
  then show ?thesis
    using assms queue_inv_enter [OF pop, of c lm' r] 
    by (auto simp: wake_def try_wake_def acquire_wake_def enter_def acquire_enter_def try_enter_def
        still_blocked_def split: if_splits)
qed

lemma lock_step_inv [inv_intros]:
  assumes "lock_step s ev s'" "held_inv (fst s)" "queue_inv (fst s) (snd s)"
  shows "held_inv (fst s') \<and> queue_inv (fst s') (snd s')"
  using assms
proof cases
  case (call lm c lm' r B)
  then show ?thesis using assms held_inv_enter [of lm c] queue_inv_enter by auto
next
  case (woken c B lm lm' r)
  moreover have "held_inv lm'"
    using assms woken held_inv_enter [of lm c] held_inv_cong [OF wake_held(1) [of lm c]] by simp
  ultimately show ?thesis using assms queue_inv_wake by auto
next
  case (timeout c B lm lm' r)
  have lm': "lm' = fst (try_timeout lm (caller c) (target c))" using timeout by simp
  have "held_inv lm'" using assms timeout held_inv_cong [of lm' lm] unfolding lm' by simp
  moreover have "queue_inv lm' (B - {#c#})"
    using assms timeout unfolding lm' by (intro queue_inv_pop) auto
  ultimately show ?thesis using timeout by simp
next
  case (released lm t lm' n B)
  have lm': "lm' = fst (release lm t)" using released by simp
  show ?thesis using released assms held_inv_release [of lm t] unfolding lm' by (simp add: queue_inv_def)
next
  case (released_key lm t k lm' n B)
  have lm': "lm' = fst (releaseKey lm t k)" using released_key by simp
  show ?thesis using released_key assms held_inv_releaseKey [of lm t k] unfolding lm' by (simp add: queue_inv_def)
qed

lemma lock_reachable_inv: "lock_reachable s \<Longrightarrow> held_inv (fst s) \<and> queue_inv (fst s) (snd s)"
proof (induction rule: lock_reachable.induct)
  case start
  then show ?case by (simp add: held_inv_def queue_inv_def lm_init_def waiting_def)
next
  case (step s ev s')
  then show ?case using lock_step_inv by blast
qed

section \<open>Who holds what\<close>

lemma isGrantedKey_grant:
  "grantable lm t k m \<Longrightarrow> isGrantedKey (grant lm t k m) t' k' \<longleftrightarrow> t' = t \<and> k' = k \<or> isGrantedKey lm t' k'"
  by (auto simp: isGrantedKey_def map_of_grant split: option.splits)

lemma isGrantedKey_release:
  assumes "held_inv lm"
  shows "isGrantedKey (fst (release lm t)) t' k \<longleftrightarrow> t' \<noteq> t \<and> isGrantedKey lm t' k"
proof (cases "map_of (held lm) k")
  case None
  then show ?thesis by (simp add: isGrantedKey_def held_release [OF assms])
next
  case (Some l)
  then have "distinct (holders l)" using assms by (auto simp: held_inv_def)
  moreover have "t' \<notin> set (holders l)" if "remove1 t (holders l) = []" "t' \<noteq> t"
    using that in_set_remove1 [of t' t "holders l"] by simp
  ultimately show ?thesis
    using Some by (auto simp: isGrantedKey_def held_release [OF assms] drop_holder_def)
qed

text \<open>The transactions that hold some lock.\<close>

definition lock_owners :: "LockManager \<Rightarrow> TxnId set" where
  "lock_owners lm = {t. \<exists>k. isGrantedKey lm t k}"

lemma lock_owners_cong: "held lm = held lm' \<Longrightarrow> lock_owners lm = lock_owners lm'"
  by (simp add: lock_owners_def isGrantedKey_def)

lemma lock_owners_release: "held_inv lm \<Longrightarrow> lock_owners (fst (release lm t)) = lock_owners lm - {t}"
  by (auto simp: lock_owners_def isGrantedKey_release)

lemma lock_owners_enter: "lock_owners (fst (enter lm c)) \<subseteq> insert (caller c) (lock_owners lm)"
  using lock_owners_cong [of "push_waiter lm (caller c) (target c) (wanted c)" lm]
  by (auto simp: enter_eq lock_owners_def isGrantedKey_grant)

lemma no_owners: "held_inv lm \<Longrightarrow> lock_owners lm = {} \<longleftrightarrow> held lm = []"
proof -
  assume inv: "held_inv lm"
  have "held lm = []" if "lock_owners lm = {}"
  proof (rule ccontr)
    assume "held lm \<noteq> []"
    then obtain k l rest where "held lm = (k, l) # rest" by (metis list.exhaust surj_pair)
    then have "map_of (held lm) k = Some l" by simp
    moreover from this have "holders l \<noteq> []" using inv by (auto simp: held_inv_def)
    ultimately have "isGrantedKey lm (hd (holders l)) k" by (simp add: isGrantedKey_def)
    then show False using that unfolding lock_owners_def by blast
  qed
  then show ?thesis by (auto simp: lock_owners_def isGrantedKey_def)
qed

section \<open>Mutual exclusion\<close>

text \<open>
  The one way to lose it: a request for an exclusive lock by a transaction that shares the lock
  with others (the upgrade path of \<open>grantableUnlocked\<close>). A run is \<open>disciplined\<close> when
  no step takes that path.
\<close>

definition contended_upgrade :: "LockManager \<Rightarrow> call \<Rightarrow> bool" where
  "contended_upgrade lm c \<longleftrightarrow> wanted c = Exclusive \<and>
     (case map_of (held lm) (target c) of
        None \<Rightarrow> False
      | Some l \<Rightarrow> caller c \<in> set (holders l) \<and> length (holders l) \<noteq> 1)"

definition exclusive_alone :: "LockManager \<Rightarrow> bool" where
  "exclusive_alone lm \<longleftrightarrow> (\<forall>key l. map_of (held lm) key = Some l \<longrightarrow>
     lock_mode l = Exclusive \<longrightarrow> length (holders l) = 1)"

inductive disciplined :: "lock_state \<Rightarrow> bool" where
  start: "disciplined (lm_init, {#})"
| step: "disciplined s \<Longrightarrow> lock_step s ev s' \<Longrightarrow>
    (\<And>c. ev = Requests c \<Longrightarrow> \<not> contended_upgrade (fst s) c) \<Longrightarrow> disciplined s'"

lemma exclusive_alone_cong: "held lm = held lm' \<Longrightarrow> exclusive_alone lm = exclusive_alone lm'"
  by (simp add: exclusive_alone_def)

lemma exclusive_alone_enter [inv_intros]:
  assumes "exclusive_alone lm" "\<not> contended_upgrade lm c"
  shows "exclusive_alone (fst (enter lm c))"
proof (cases "grantable lm (caller c) (target c) (wanted c)")
  case True
  then show ?thesis using assms
    by (auto simp: exclusive_alone_def enter_eq map_of_grant contended_upgrade_def grantable_def
        split: if_splits option.splits)
next
  case False
  then show ?thesis using assms(1)
      exclusive_alone_cong [of "push_waiter lm (caller c) (target c) (wanted c)" lm]
    by (simp add: enter_eq)
qed

lemma drop_holder_alone:
  assumes "drop_holder t l = Some l'" "lock_mode l = Exclusive \<longrightarrow> length (holders l) = 1"
  shows "lock_mode l' = Exclusive \<longrightarrow> length (holders l') = 1"
  using assms by (auto simp: drop_holder_def length_Suc_conv split: if_splits)

lemma exclusive_alone_drop:
  assumes "exclusive_alone lm"
    "\<And>k. map_of (held lm') k \<in> {map_of (held lm) k, Option.bind (map_of (held lm) k) (drop_holder t)}"
  shows "exclusive_alone lm'"
  unfolding exclusive_alone_def
proof (intro allI impI)
  fix k l
  assume l: "map_of (held lm') k = Some l" "lock_mode l = Exclusive"
  then consider "map_of (held lm) k = Some l" | l0 where "map_of (held lm) k = Some l0" "drop_holder t l0 = Some l"
    using assms(2) [of k] by (cases "map_of (held lm) k") auto
  then show "length (holders l) = 1"
    using assms(1) l(2) drop_holder_alone unfolding exclusive_alone_def by cases blast+
qed

lemma exclusive_alone_step [inv_intros]:
  assumes "lock_step s ev s'" "held_inv (fst s)" "exclusive_alone (fst s)"
    "\<And>c. ev = Requests c \<Longrightarrow> \<not> contended_upgrade (fst s) c"
  shows "exclusive_alone (fst s')"
  using assms(1)
proof cases
  case (call lm c lm' r B)
  then show ?thesis using assms exclusive_alone_enter [of lm c] by simp
next
  case (woken c B lm lm' r)
  then show ?thesis
    using assms exclusive_alone_enter [of lm c] exclusive_alone_cong [OF wake_held(1) [of lm c]] by simp
next
  case (timeout c B lm lm' r)
  have lm': "lm' = fst (try_timeout lm (caller c) (target c))" using timeout by simp
  then have "held lm' = held lm" by simp
  then show ?thesis using assms timeout exclusive_alone_cong [of lm' lm] by simp
next
  case (released lm t lm' n B)
  then have "held_inv lm" "exclusive_alone lm" using assms(2,3) by simp_all
  then have "exclusive_alone (fst (release lm t))"
    by - (rule exclusive_alone_drop [of lm _ t], simp_all add: held_release)
  then show ?thesis using released by simp
next
  case (released_key lm t k lm' n B)
  then have "exclusive_alone lm" using assms(3) by simp
  then have "exclusive_alone (fst (releaseKey lm t k))"
    by - (rule exclusive_alone_drop [of lm _ t], simp_all add: held_releaseKey)
  then show ?thesis using released_key by simp
qed

lemma disciplined_reachable: "disciplined s \<Longrightarrow> lock_reachable s"
  by (induction rule: disciplined.induct) (auto intro: lock_reachable.intros)

section \<open>Properties\<close>

text \<open>
  In every interleaving of lock calls, wake-ups, time-outs and releases, the lock table has
  one entry per key held by at least one and by pairwise distinct transactions, and the wait
  queue of every key lists exactly the transactions of the calls blocked on it. In particular
  a call that was granted or timed out leaves no entry behind.
\<close>

theorem lock_queue_exact:
  assumes "lock_reachable (lm, B)"
  shows "distinct (map fst (held lm)) \<and>
    (\<forall>(key, l) \<in> set (held lm). holders l \<noteq> [] \<and> distinct (holders l)) \<and>
    mset (map fst (waiting lm key)) = image_mset caller (filter_mset (\<lambda>c. target c = key) B)"
proof -
  have "held_inv lm \<and> queue_inv lm B" using lock_reachable_inv [OF assms] by simp
  then show ?thesis by (auto simp: held_inv_def queue_inv_def)
qed

text \<open>
  The compatibility matrix. A request is granted at once if and only if nobody holds the
  resource, or the requester already does, or the request and the current mode are both shared;
  a granted requester then holds the resource and no other transaction loses or gains a lock;
  a refused request changes no lock.
\<close>

theorem lock_matrix:
  assumes "held_inv lm"
  shows "(snd (enter lm c) = Some Granted \<longleftrightarrow>
      (\<forall>t. \<not> isGrantedKey lm t (target c)) \<or> isGrantedKey lm (caller c) (target c) \<or>
      (wanted c = Shared \<and> map_option lock_mode (map_of (held lm) (target c)) = Some Shared)) \<and>
    (snd (enter lm c) = Some Granted \<longrightarrow> isGrantedKey (fst (enter lm c)) (caller c) (target c)) \<and>
    (t \<noteq> caller c \<or> k \<noteq> target c \<longrightarrow> isGrantedKey (fst (enter lm c)) t k = isGrantedKey lm t k) \<and>
    (snd (enter lm c) = None \<longrightarrow> held (fst (enter lm c)) = held lm)"
proof -
  have free: "(\<forall>t. \<not> isGrantedKey lm t (target c)) \<longleftrightarrow> map_of (held lm) (target c) = None"
  proof (cases "map_of (held lm) (target c)")
    case (Some l)
    then have "holders l \<noteq> []" using assms by (auto simp: held_inv_def)
    then show ?thesis using Some by (auto simp: isGrantedKey_def intro: hd_in_set)
  qed (simp add: isGrantedKey_def)
  have other: "isGrantedKey (grant lm (caller c) (target c) (wanted c)) t k = isGrantedKey lm t k"
    if "grantable lm (caller c) (target c) (wanted c)" "t \<noteq> caller c \<or> k \<noteq> target c"
    using that by (auto simp: isGrantedKey_grant)
  have self: "isGrantedKey (grant lm (caller c) (target c) (wanted c)) (caller c) (target c)"
    if "grantable lm (caller c) (target c) (wanted c)"
    using that by (simp add: isGrantedKey_grant)
  show ?thesis
    unfolding free
    using other self
    by (auto simp: enter_eq grantable_def isGrantedKey_def split: option.splits if_splits)
qed


text \<open>
  The upgrade path breaks mutual exclusion: whenever a shared holder asks for exclusive
  access while others share the lock, it is granted at once, and the resource is then in
  exclusive mode with all previous holders still holding it.
\<close>

theorem upgrade_keeps_other_holders:
  assumes "contended_upgrade lm c" "map_of (held lm) (target c) = Some l"
  shows "snd (enter lm c) = Some Granted \<and>
    map_of (held (fst (enter lm c))) (target c) = Some (l\<lparr>lock_mode := Exclusive\<rparr>)"
  using assms by (auto simp: contended_upgrade_def enter_eq grantable_def map_of_grant)

text \<open>
  Releasing: after \<open>release\<close> a transaction holds nothing and every other
  transaction holds what it held before; and no wake-up is lost, that is, when the release
  makes some refused request grantable, the waiters are notified.
\<close>

theorem release_frees_and_notifies:
  assumes "held_inv lm"
  shows "\<not> isGrantedKey (fst (release lm t)) t k \<and>
    (t' \<noteq> t \<longrightarrow> isGrantedKey (fst (release lm t)) t' k = isGrantedKey lm t' k) \<and>
    (\<not> grantable lm t' k m \<and> grantable (fst (release lm t)) t' k m \<longrightarrow> snd (release lm t))"
proof -
  let ?l = "map_of (held lm) k"
  have keep: "map_of (held (fst (release lm t))) k = ?l" if "\<not> snd (release lm t)"
  proof (cases ?l)
    case (Some l)
    then have "t \<notin> set (holders l)" using that map_of_SomeD [OF Some] by (auto simp: release_def)
    then show ?thesis using Some by (simp add: held_release [OF assms] drop_holder_def)
  qed (simp add: held_release [OF assms])
  have "snd (release lm t)" if "\<not> grantable lm t' k m" "grantable (fst (release lm t)) t' k m"
  proof (rule ccontr)
    assume "\<not> snd (release lm t)"
    then show False using that keep by (simp add: grantable_def)
  qed
  then show ?thesis using isGrantedKey_release [OF assms] by blast
qed

text \<open>Witnesses: two transactions share row \<open>r\<close> of table \<open>a\<close>, a third waits.\<close>

definition shared_pair :: LockManager where
  "shared_pair = \<lparr>held = [((''a'', ''r''), \<lparr>lock_mode = Shared, holders = [1, 2]\<rparr>)],
     waiters = [((''a'', ''r''), [(3, Exclusive)])]\<rparr>"

definition request :: "TxnId \<Rightarrow> LockMode \<Rightarrow> call" where
  "request t m = \<lparr>caller = t, target = (''a'', ''r''), wanted = m, bounded = True\<rparr>"

lemma shared_pair_inv: "held_inv shared_pair"
  by (auto simp: held_inv_def shared_pair_def)

lemmas lock_eval = shared_pair_def request_def enter_def try_enter_def acquire_enter_def grantable_def
  grant_def push_waiter_def waiting_def still_blocked_def lm_init_def contended_upgrade_def

lemma disciplined_waiting:
  "disciplined (\<lparr>held = [((''a'', ''r''), \<lparr>lock_mode = Exclusive, holders = [1]\<rparr>)],
     waiters = [((''a'', ''r''), [(2, Shared)])]\<rparr>, {#request 2 Shared#})"
proof -
  let ?lm = "\<lparr>held = [((''a'', ''r''), \<lparr>lock_mode = Exclusive, holders = [1]\<rparr>)], waiters = []\<rparr>"
  have "lock_step (lm_init, {#}) (Requests (request 1 Exclusive)) (?lm, {#})"
    using lock_step.call [of lm_init "request 1 Exclusive" ?lm "Some Granted" "{#}"]
    by (simp add: lock_eval)
  then have one: "disciplined (?lm, {#})"
    by (rule disciplined.step [OF disciplined.start]) (auto simp: lock_eval)
  show ?thesis
    using lock_step.call [of ?lm "request 2 Shared" _ None "{#}"]
    by (intro disciplined.step [OF one]) (auto simp: lock_eval)
qed

theorem lock_queue_exact_witness:
  "mset (map fst (waiting \<lparr>held = [((''a'', ''r''), \<lparr>lock_mode = Exclusive, holders = [1]\<rparr>)],
     waiters = [((''a'', ''r''), [(2, Shared)])]\<rparr> (''a'', ''r''))) = {#2#}"
  using lock_queue_exact [OF disciplined_reachable [OF disciplined_waiting], of "(''a'', ''r'')"]
  by (simp add: request_def)

theorem lock_matrix_witness:
  "held_inv shared_pair \<and> snd (enter shared_pair (request 3 Shared)) = Some Granted \<and>
   snd (enter shared_pair (request 3 Exclusive)) \<noteq> Some Granted"
  using lock_matrix [OF shared_pair_inv, of "request 3 Shared"]
    lock_matrix [OF shared_pair_inv, of "request 3 Exclusive"] shared_pair_inv
  by (auto simp: isGrantedKey_def shared_pair_def request_def)


theorem upgrade_keeps_other_holders_witness:
  "contended_upgrade shared_pair (request 1 Exclusive) \<and>
   map_of (held (fst (enter shared_pair (request 1 Exclusive)))) (''a'', ''r'') =
     Some \<lparr>lock_mode = Exclusive, holders = [1, 2]\<rparr>"
  using upgrade_keeps_other_holders [of shared_pair "request 1 Exclusive" "\<lparr>lock_mode = Shared, holders = [1, 2]\<rparr>"]
  by (simp add: contended_upgrade_def shared_pair_def request_def)

theorem release_frees_and_notifies_witness:
  "held_inv shared_pair \<and> \<not> isGrantedKey (fst (release shared_pair 1)) 1 (''a'', ''r'')"
  using release_frees_and_notifies [OF shared_pair_inv, of 1 "(''a'', ''r'')"] shared_pair_inv by blast

end
