(* ===== verification/Deadlocks.thy ===== *)
theory Deadlocks
  imports Locks
begin

text \<open>
  \<open>includes/opendb/core/DeadlockDetector.hpp\<close>: the walk along one chain of the wait-for
  graph. The walk reads the lock manager through \<open>waiterTable\<close> and \<open>getHolders\<close>,
  whose iteration orders are arguments (\<open>ordk\<close> over resource keys, \<open>ordt\<close> over
  transactions).
\<close>

section \<open>The walk\<close>

definition kMaxHops :: nat where
  "kMaxHops = 1024"

datatype hop = Closed | Next string | Stuck

text \<open>The inner loop over the holders of the current table.\<close>

fun walk_holders ::
  "(ResourceKey list \<Rightarrow> ResourceKey list) \<Rightarrow> LockManager \<Rightarrow> TxnId \<Rightarrow> TxnId list \<Rightarrow> hop" where
  "walk_holders ordk lm origin [] = Stuck"
| "walk_holders ordk lm origin (h # hs) =
     (if h = origin then Closed
      else if waiterTable ordk lm h = [] then walk_holders ordk lm origin hs
      else Next (waiterTable ordk lm h))"

fun walk ::
  "(ResourceKey list \<Rightarrow> ResourceKey list) \<Rightarrow> (TxnId list \<Rightarrow> TxnId list) \<Rightarrow> LockManager \<Rightarrow>
   TxnId \<Rightarrow> nat \<Rightarrow> string \<Rightarrow> TxnId option" where
  "walk ordk ordt lm origin 0 table = None"
| "walk ordk ordt lm origin (Suc n) table =
     (case walk_holders ordk lm origin (getHolders ordt lm table) of
        Closed \<Rightarrow> Some origin
      | Next table' \<Rightarrow> walk ordk ordt lm origin n table'
      | Stuck \<Rightarrow> None)"

definition detectCycle ::
  "(ResourceKey list \<Rightarrow> ResourceKey list) \<Rightarrow> (TxnId list \<Rightarrow> TxnId list) \<Rightarrow> LockManager \<Rightarrow>
   TxnId \<Rightarrow> TxnId option" where
  "detectCycle ordk ordt lm origin =
     (let table = waiterTable ordk lm origin
      in if table = [] then None else walk ordk ordt lm origin kMaxHops table)"

section \<open>The wait-for graph\<close>

text \<open>\<open>t\<close> waits for \<open>h\<close>: some table that \<open>t\<close> queues for is held, in whole or in part, by \<open>h\<close>.\<close>

definition waits_on :: "LockManager \<Rightarrow> TxnId \<Rightarrow> string \<Rightarrow> bool" where
  "waits_on lm t table \<longleftrightarrow> (\<exists>row. t \<in> fst ` set (waiting lm (table, row)))"

definition waits_for :: "LockManager \<Rightarrow> (TxnId \<times> TxnId) set" where
  "waits_for lm = {(t, h). \<exists>table. waits_on lm t table \<and> isGranted lm h table}"

lemma waiterTable_SomeD:
  assumes "waiterTable ordk lm t \<noteq> []"
  shows "waits_on lm t (waiterTable ordk lm t)"
proof (cases "find (\<lambda>key. t \<in> fst ` set (waiting lm key)) (ordk (map fst (waiters lm)))")
  case None
  then show ?thesis using assms by (simp add: waiterTable_def waiterResource_def)
next
  case (Some key)
  then have "t \<in> fst ` set (waiting lm key)" by (auto simp: find_Some_iff)
  then have "waits_on lm t (fst key)" unfolding waits_on_def by (cases key) auto
  then show ?thesis using Some by (simp add: waiterTable_def waiterResource_def)
qed

lemma waiterTable_None:
  assumes "\<And>table. \<not> waits_on lm t table"
  shows "waiterTable ordk lm t = []"
  using assms waiterTable_SomeD by blast

lemma set_getHolders: "reorders ordt \<Longrightarrow> h \<in> set (getHolders ordt lm table) \<longleftrightarrow> isGranted lm h table"
  by (force simp: getHolders_def isGranted_def reorders_def split: if_splits)

lemma walk_holders_Closed: "walk_holders ordk lm origin hs = Closed \<Longrightarrow> origin \<in> set hs"
  by (induction ordk lm origin hs rule: walk_holders.induct) (auto split: if_splits)

lemma walk_holders_Next:
  "walk_holders ordk lm origin hs = Next table \<Longrightarrow> table \<noteq> [] \<and> (\<exists>h \<in> set hs. waiterTable ordk lm h = table)"
  by (induction ordk lm origin hs rule: walk_holders.induct) (auto split: if_splits)

lemma walk_sound:
  assumes "reorders ordt" "walk ordk ordt lm origin n table = Some v" "waits_on lm t table"
  shows "v = origin \<and> (t, origin) \<in> (waits_for lm)\<^sup>+"
  using assms(2,3)
proof (induction n arbitrary: table t)
  case 0
  then show ?case by simp
next
  case (Suc n)
  have edge: "(t, h) \<in> waits_for lm" if "h \<in> set (getHolders ordt lm table)" for h
    using that Suc.prems(2) set_getHolders [OF assms(1)] by (auto simp: waits_for_def)
  show ?case
  proof (cases "walk_holders ordk lm origin (getHolders ordt lm table)")
    case Closed
    then show ?thesis using Suc.prems edge walk_holders_Closed by fastforce
  next
    case (Next table')
    then obtain h where h: "h \<in> set (getHolders ordt lm table)" "waits_on lm h table'"
      using walk_holders_Next waiterTable_SomeD by metis
    then have "v = origin \<and> (h, origin) \<in> (waits_for lm)\<^sup>+" using Suc Next by simp
    then show ?thesis using edge [OF h(1)] by (metis trancl_into_trancl2)
  next
    case Stuck
    then show ?thesis using Suc.prems by simp
  qed
qed

text \<open>
  A chain in which every table has a single holder leaves the walk no choice:
  \<open>ts\<close> lists the transactions after the first, in the order they wait for each other.
\<close>

fun sole_chain ::
  "(ResourceKey list \<Rightarrow> ResourceKey list) \<Rightarrow> LockManager \<Rightarrow> TxnId \<Rightarrow> TxnId list \<Rightarrow> bool" where
  "sole_chain ordk lm t [] \<longleftrightarrow> True"
| "sole_chain ordk lm t (u # us) \<longleftrightarrow> waiterTable ordk lm t \<noteq> [] \<and>
     (\<forall>h. isGranted lm h (waiterTable ordk lm t) \<longleftrightarrow> h = u) \<and> sole_chain ordk lm u us"

lemma walk_holders_sole: "hs \<noteq> [] \<Longrightarrow> set hs = {u} \<Longrightarrow>
  walk_holders ordk lm origin hs = (if u = origin then Closed else if waiterTable ordk lm u = [] then Stuck
    else Next (waiterTable ordk lm u))"
proof (induction hs)
  case (Cons h hs)
  then have "h = u" by auto
  moreover have "hs \<noteq> [] \<Longrightarrow> set hs = {u}" using Cons.prems by (cases hs) auto
  ultimately show ?case using Cons.IH by (cases "hs = []") auto
qed simp

lemma walk_complete:
  assumes "reorders ordt" "sole_chain ordk lm t us" "us \<noteq> []" "last us = origin" "length us \<le> n"
  shows "walk ordk ordt lm origin n (waiterTable ordk lm t) = Some origin"
  using assms(2-)
proof (induction us arbitrary: t n)
  case Nil
  then show ?case by simp
next
  case (Cons u us)
  then obtain m where n: "n = Suc m" by (cases n) auto
  have hs: "set (getHolders ordt lm (waiterTable ordk lm t)) = {u}"
    using Cons.prems(1) set_getHolders [OF assms(1)] by auto
  then have ne: "getHolders ordt lm (waiterTable ordk lm t) \<noteq> []" by auto
  show ?case
  proof (cases "u = origin")
    case True
    then show ?thesis using walk_holders_sole [OF ne hs] n by simp
  next
    case False
    then have us: "us \<noteq> []" using Cons.prems by auto
    then have "waiterTable ordk lm u \<noteq> []" using Cons.prems(1) by (cases us) auto
    moreover have "walk ordk ordt lm origin m (waiterTable ordk lm u) = Some origin"
      using Cons us n by auto
    ultimately show ?thesis using walk_holders_sole [OF ne hs] n False by simp
  qed
qed

section \<open>Properties\<close>

text \<open>
  C38. The detector never cries wolf: when it names a victim, the victim is the transaction
  that asked, and that transaction lies on a cycle of the wait-for graph; a transaction that
  waits for nothing is never a victim.
\<close>

theorem detectCycle_sound:
  assumes "reorders ordt" "detectCycle ordk ordt lm origin = Some v"
  shows "v = origin \<and> (origin, origin) \<in> (waits_for lm)\<^sup>+ \<and> (\<exists>table. waits_on lm origin table)"
proof -
  let ?table = "waiterTable ordk lm origin"
  have "?table \<noteq> []" "walk ordk ordt lm origin kMaxHops ?table = Some v"
    using assms(2) by (auto simp: detectCycle_def Let_def split: if_splits)
  then show ?thesis using walk_sound [OF assms(1)] waiterTable_SomeD by blast
qed

text \<open>
  Every deadlock ring of at most 1024 transactions in which each awaited table has one
  holder is found, from any of its members, whatever the iteration order of the hash tables.
\<close>

theorem detectCycle_finds_rings:
  assumes "reorders ordt" "sole_chain ordk lm origin us" "us \<noteq> []" "last us = origin" "length us \<le> 1024"
  shows "detectCycle ordk ordt lm origin = Some origin"
proof -
  have "waiterTable ordk lm origin \<noteq> []" using assms(2,3) by (cases us) auto
  then show ?thesis
    using walk_complete [OF assms(1-4)] assms(5) by (simp add: detectCycle_def kMaxHops_def)
qed

text \<open>
  Asked before the transaction has registered as a waiter, the detector answers that there is no
  deadlock, whatever the other transactions do.
\<close>

theorem detectCycle_before_waiting:
  assumes "\<And>table. \<not> waits_on lm origin table"
  shows "detectCycle ordk ordt lm origin = None"
  using waiterTable_None [OF assms] by (simp add: detectCycle_def)

text \<open>Witnesses: transactions 1 and 2 each hold one table and wait for the other's.\<close>

definition two_ring :: LockManager where
  "two_ring = \<lparr>held = [((''a'', ''''), \<lparr>lock_mode = Exclusive, holders = [1]\<rparr>),
                        ((''b'', ''''), \<lparr>lock_mode = Exclusive, holders = [2]\<rparr>)],
               waiters = [((''a'', ''''), [(2, Exclusive)]), ((''b'', ''''), [(1, Shared)])]\<rparr>"

lemmas ring_eval = two_ring_def waiterTable_def waiterResource_def waiting_def isGranted_def getHolders_def

theorem detectCycle_finds_rings_witness: "detectCycle id id two_ring 1 = Some 1"
  by (rule detectCycle_finds_rings [of id id two_ring 1 "[2, 1]"]) (auto simp: reorders_def ring_eval)

theorem detectCycle_sound_witness:
  "detectCycle rev rev two_ring 2 = Some 2 \<and> (2, 2) \<in> (waits_for two_ring)\<^sup>+"
proof -
  have d: "detectCycle rev rev two_ring 2 = Some 2"
    by (simp add: detectCycle_def kMaxHops_def eval_nat_numeral ring_eval)
  then show ?thesis using detectCycle_sound [of rev rev two_ring 2 2] by (simp add: reorders_def)
qed

theorem detectCycle_before_waiting_witness: "detectCycle id id two_ring 3 = None"
  by (rule detectCycle_before_waiting) (auto simp: waits_on_def ring_eval split: if_splits)

end
