(* ===== verification/Engine_Loop.thy ===== *)
theory Engine_Loop
  imports Query Transactions Deadlocks InMemory_Engine
begin

text \<open>
  \<open>includes/opendb/core/EngineLoop.hpp\<close>: one command through begin, deadlock check, lock,
  handler, commit and presentation, and the loop over a command source. The storage engine is an
  argument (\<open>ops\<close>), as are \<open>std::sort\<close> (\<open>srt\<close>) and the iteration orders of the lock
  manager's hash tables. The source's \<open>nextCommand\<close> results are a list of commands, what it is
  handed back is the list of presented answers.
\<close>

section \<open>State\<close>

datatype answer = Rows ResultSet | Failure DbError

record 's loop_state =
  l_storage :: 's
  l_tm :: TransactionManager
  l_lm :: LockManager
  l_out :: "answer list"

text \<open>
  A dispatch finishes, or its thread blocks in \<open>acquire\<close> (the state is the one at the wait), or
  it throws or runs into undefined behaviour.
\<close>

datatype 'a outcome = Done 'a | Blocked 'a | Crash exn

type_synonym row_sort = "(Tuple \<Rightarrow> Tuple \<Rightarrow> bool) \<Rightarrow> Tuple list \<Rightarrow> Tuple list"

type_synonym hash_orders = "(ResourceKey list \<Rightarrow> ResourceKey list) \<times> (TxnId list \<Rightarrow> TxnId list)"

section \<open>Handlers\<close>

text \<open>A handler's storage, its \<open>result_opt\<close> and its \<open>error_opt\<close>.\<close>

type_synonym 's handled = "'s \<times> ResultSet option \<times> DbError option"

definition ok_result :: ResultSet where
  "ok_result = \<lparr>rs_success = True, rs_rows = []\<rparr>"

definition handle_select ::
  "row_sort \<Rightarrow> 's engine_ops \<Rightarrow> 's \<Rightarrow> TxnId \<Rightarrow> Command \<Rightarrow> 's handled result" where
  "handle_select srt ops s txn cmd =
     rbind (select_rows srt (escan ops s txn) cmd)
       (\<lambda>rs. Inr (s, Some \<lparr>rs_success = True, rs_rows = rs\<rparr>, None))"

definition insert_key :: "Tuple \<Rightarrow> Value" where
  "insert_key row = (case maybeGet row ''_id'' of None \<Rightarrow> VNull | Some v \<Rightarrow> v)"

definition handle_insert :: "'s engine_ops \<Rightarrow> 's \<Rightarrow> TxnId \<Rightarrow> Command \<Rightarrow> 's handled" where
  "handle_insert ops s txn cmd =
     (let (key, row) = (case cmd_values cmd of None \<Rightarrow> (VNull, Tuple_empty) | Some row \<Rightarrow> (insert_key row, row));
          (s', err) = eput ops s txn (cmd_table cmd) key row
      in if isSentinel err then (s', Some ok_result, None) else (s', None, Some err))"

definition matching_ids :: "'s engine_ops \<Rightarrow> 's \<Rightarrow> TxnId \<Rightarrow> string \<Rightarrow> Predicate \<Rightarrow> Value list result" where
  "matching_ids ops s txn tbl p =
     rbind (rfilter (evaluate p) (escan ops s txn tbl))
       (\<lambda>rs. Inr (List.map_filter (\<lambda>row. maybeGet row ''_id'') rs))"

text \<open>The loop over the keys: stops at the first error; \<open>any\<close> records that one write went through.\<close>

fun each_key :: "('s \<Rightarrow> Value \<Rightarrow> 's \<times> DbError) \<Rightarrow> 's \<Rightarrow> Value list \<Rightarrow> bool \<Rightarrow> 's \<times> bool \<times> DbError option" where
  "each_key f s [] any = (s, any, None)"
| "each_key f s (k # ks) any =
     (let (s', err) = f s k
      in if isSentinel err then each_key f s' ks True else (s', any, Some err))"

definition handle_keys :: "string \<Rightarrow> 's \<times> bool \<times> DbError option \<Rightarrow> 's handled" where
  "handle_keys what r =
     (case r of (s, any, err) \<Rightarrow>
        (s, Some ok_result,
         if err = None \<and> \<not> any then Some (db_error NotFound (''no matching rows to '' @ what)) else err))"

definition handle_update :: "'s engine_ops \<Rightarrow> 's \<Rightarrow> TxnId \<Rightarrow> Command \<Rightarrow> 's handled result" where
  "handle_update ops s txn cmd =
     (case cmd_where cmd of
        None \<Rightarrow> Inr (s, None, Some (db_error Internal ''Update requires WHERE''))
      | Some p \<Rightarrow>
          (case cmd_values cmd of
             None \<Rightarrow> Inr (s, None, Some (db_error Internal ''Update requires values''))
           | Some vals \<Rightarrow>
               rbind (matching_ids ops s txn (cmd_table cmd) p)
                 (\<lambda>ks. Inr (handle_keys ''update''
                    (each_key (\<lambda>s k. eput ops s txn (cmd_table cmd) k (tset vals ''_id'' k)) s ks False)))))"

definition handle_delete :: "'s engine_ops \<Rightarrow> 's \<Rightarrow> TxnId \<Rightarrow> Command \<Rightarrow> 's handled result" where
  "handle_delete ops s txn cmd =
     (case cmd_where cmd of
        None \<Rightarrow> Inr (s, None, Some (db_error Internal ''Delete requires WHERE''))
      | Some p \<Rightarrow>
          rbind (matching_ids ops s txn (cmd_table cmd) p)
            (\<lambda>ks. Inr (handle_keys ''delete''
               (each_key (\<lambda>s k. eremove ops s txn (cmd_table cmd) k) s ks False))))"

definition handle ::
  "row_sort \<Rightarrow> 's engine_ops \<Rightarrow> 's \<Rightarrow> TxnId \<Rightarrow> Command \<Rightarrow> 's handled result" where
  "handle srt ops s txn cmd =
     (case cmd_type cmd of
        Select \<Rightarrow> handle_select srt ops s txn cmd
      | Insert \<Rightarrow> Inr (handle_insert ops s txn cmd)
      | Update \<Rightarrow> handle_update ops s txn cmd
      | Delete \<Rightarrow> handle_delete ops s txn cmd)"

section \<open>Commit and presentation\<close>

text \<open>The auto-commit block.\<close>

definition auto_finish ::
  "'s engine_ops \<Rightarrow> TxnId \<Rightarrow> 's handled \<Rightarrow> 's loop_state \<Rightarrow> 's loop_state \<times> ResultSet option \<times> DbError option" where
  "auto_finish ops txn h st =
     (case h of (s, res, err) \<Rightarrow>
        let (st1, err1) =
          (if res \<noteq> None then
             (let (s1, perr) = eprepare ops s txn
              in if err_message perr = [] then
                   (let tm = fst (commitTxn (l_tm st) txn);
                        s2 = fst (ecommit ops s1 txn (visibleSeq tm))
                    in (st\<lparr>l_storage := s2, l_tm := tm\<rparr>, err))
                 else (st\<lparr>l_storage := s1\<rparr>, Some perr))
           else if err \<noteq> None then
             (st\<lparr>l_storage := fst (eabort ops s txn), l_tm := fst (abortTxn (l_tm st) txn)\<rparr>, err)
           else (st\<lparr>l_storage := s\<rparr>, err))
        in (st1\<lparr>l_lm := fst (release (l_lm st1) txn)\<rparr>, res, err1))"

definition present :: "Command \<Rightarrow> ResultSet option \<Rightarrow> DbError option \<Rightarrow> answer" where
  "present cmd res err =
     (case res of
        Some rs \<Rightarrow> if rs_rows rs = [] \<and> cmd_type cmd \<noteq> Select then Rows ok_result else Rows rs
      | None \<Rightarrow>
          (case err of
             Some e \<Rightarrow> Failure e
           | None \<Rightarrow> Failure (db_error Internal ''dispatch produced no result or error'')))"

section \<open>Dispatch and the loop\<close>

text \<open>\<open>value_or\<close> evaluates its argument, so a transaction is begun even for a command that carries one.\<close>

definition dispatch ::
  "hash_orders \<Rightarrow> row_sort \<Rightarrow> 's engine_ops \<Rightarrow> Command \<Rightarrow> 's loop_state \<Rightarrow> 's loop_state outcome" where
  "dispatch ord srt ops cmd st =
     (let (tm, fresh) = beginTxn (l_tm st);
          st = st\<lparr>l_tm := tm\<rparr>;
          auto_commit = (cmd_txnId cmd = None);
          txn = (case cmd_txnId cmd of None \<Rightarrow> fresh | Some t \<Rightarrow> t);
          md = (if cmd_type cmd = Select then Shared else Exclusive)
      in case detectCycle (fst ord) (snd ord) (l_lm st) txn of
           Some victim \<Rightarrow>
             Done (st\<lparr>l_tm := fst (abortTxn (l_tm st) victim), l_lm := fst (release (l_lm st) victim),
                     l_out := l_out st @ [Failure (db_error Deadlock (''cycle detected for '' @ txn_toString txn))]\<rparr>)
         | None \<Rightarrow>
             (case acquire_enter (l_lm st) txn (tableKey (cmd_table cmd)) md of
                (lm, None) \<Rightarrow> Blocked (st\<lparr>l_lm := lm\<rparr>)
              | (lm, Some _) \<Rightarrow>
                  (let st = st\<lparr>l_lm := lm\<rparr>
                   in case handle srt ops (l_storage st) txn cmd of
                        Inl e \<Rightarrow> Crash e
                      | Inr h \<Rightarrow>
                          (let (st, res, err) =
                             (if auto_commit then auto_finish ops txn h st
                              else (st\<lparr>l_storage := fst h\<rparr>, fst (snd h), snd (snd h)))
                           in Done (st\<lparr>l_out := l_out st @ [present cmd res err]\<rparr>)))))"

primrec run_loop ::
  "hash_orders \<Rightarrow> row_sort \<Rightarrow> 's engine_ops \<Rightarrow> Command list \<Rightarrow> 's loop_state \<Rightarrow> 's loop_state outcome" where
  "run_loop ord srt ops [] st = Done st"
| "run_loop ord srt ops (cmd # cmds) st =
     (case dispatch ord srt ops cmd st of
        Done st' \<Rightarrow> run_loop ord srt ops cmds st'
      | Blocked st' \<Rightarrow> Blocked st'
      | Crash e \<Rightarrow> Crash e)"

section \<open>Lock discipline of a dispatch\<close>

text \<open>No lock is held and nobody waits: the state between two auto-commit commands.\<close>

definition quiet :: "LockManager \<Rightarrow> bool" where
  "quiet lm \<longleftrightarrow> held lm = [] \<and> (\<forall>k. waiting lm k = [])"

lemma quiet_detect: "quiet lm \<Longrightarrow> detectCycle ordk ordt lm t = None"
proof -
  assume "quiet lm"
  then have "waiterTable ordk lm t = []" by (intro waiterTable_None) (simp add: waits_on_def quiet_def)
  then show ?thesis by (simp add: detectCycle_def)
qed

lemma quiet_acquire:
  assumes "quiet lm"
  obtains lm' where "acquire_enter lm t k m = (lm', Some Granted)" "quiet (fst (release lm' t))"
proof
  let ?lm = "lm\<lparr>held := [(k, \<lparr>lock_mode = m, holders = [t]\<rparr>)]\<rparr>"
  show "acquire_enter lm t k m = (?lm, Some Granted)"
    using assms by (simp add: quiet_def acquire_enter_def grantable_def grant_def)
  show "quiet (fst (release ?lm t))"
    using assms by (simp add: quiet_def release_def release_lock_def waiting_def)
qed

text \<open>The commands a front end may send: no null children in the WHERE tree.\<close>

definition evaluable :: "Command \<Rightarrow> bool" where
  "evaluable cmd \<longleftrightarrow> where_ok (cmd_where cmd)"

lemma evaluate_ok: "where_ok (Some p) \<Longrightarrow> evaluate p row = Inr (where_sat (Some p) row)"
  using where_holds_sat [of "Some p" row] by (simp add: where_holds_def)

lemma matching_ids_ok:
  "where_ok (Some p) \<Longrightarrow> matching_ids ops s txn tbl p =
     Inr (List.map_filter (\<lambda>row. maybeGet row ''_id'') (filter (where_sat (Some p)) (escan ops s txn tbl)))"
  using rfilter_Inr [of _ "evaluate p" "where_sat (Some p)"] by (simp add: matching_ids_def evaluate_ok)

text \<open>Every handler returns, with a result or an error.\<close>

lemma handle_total:
  assumes "evaluable cmd"
  obtains s' res err where "handle srt ops s txn cmd = Inr (s', res, err)" "res \<noteq> None \<or> err \<noteq> None"
proof -
  have "\<exists>s' res err. handle srt ops s txn cmd = Inr (s', res, err) \<and> (res \<noteq> None \<or> err \<noteq> None)"
  proof (cases "cmd_type cmd")
    case Select
    then show ?thesis using assms
      by (simp add: handle_def handle_select_def select_rows_def matched_rows_eq evaluable_def)
  next
    case Insert
    then show ?thesis
      by (auto simp: handle_def handle_insert_def Let_def case_prod_unfold intro: prod.exhaust)
  next
    case Update
    then show ?thesis using assms
      by (auto simp: handle_def handle_update_def handle_keys_def evaluable_def matching_ids_ok case_prod_unfold
          split: option.splits)
  next
    case Delete
    then show ?thesis using assms
      by (auto simp: handle_def handle_delete_def handle_keys_def evaluable_def matching_ids_ok case_prod_unfold
          split: option.splits)
  qed
  then show ?thesis using that by blast
qed

text \<open>The transaction of an auto-commit command is closed at the end.\<close>

definition all_closed :: "TransactionManager \<Rightarrow> bool" where
  "all_closed tm \<longleftrightarrow> (\<forall>t. states tm t \<noteq> Some Active)"

definition prepares :: "'s engine_ops \<Rightarrow> bool" where
  "prepares ops \<longleftrightarrow> (\<forall>s t. isSentinel (snd (eprepare ops s t)))"

lemma auto_finish_lm [simp]: "l_lm (fst (auto_finish ops txn h st)) = fst (release (l_lm st) txn)"
  by (auto simp: auto_finish_def Let_def case_prod_unfold)

lemma auto_finish_out [simp]: "l_out (fst (auto_finish ops txn h st)) = l_out st"
  by (auto simp: auto_finish_def Let_def case_prod_unfold)

lemma auto_finish_closes:
  assumes "prepares ops" "h = (s, res, err)" "res \<noteq> None \<or> err \<noteq> None"
  shows "l_tm (fst (auto_finish ops txn h st)) \<in> {fst (commitTxn (l_tm st) txn), fst (abortTxn (l_tm st) txn)}"
  using assms by (auto simp: auto_finish_def prepares_def isSentinel_def Let_def case_prod_unfold)

lemma all_closed_begin:
  assumes "all_closed tm" "tm' \<in> {fst (commitTxn (fst (beginTxn tm)) (next_id tm + 1)),
    fst (abortTxn (fst (beginTxn tm)) (next_id tm + 1))}"
  shows "all_closed tm'"
  using assms by (auto simp: all_closed_def beginTxn_def commitTxn_def abortTxn_def Let_def split: if_splits)

lemma beginTxn_id: "beginTxn tm = (fst (beginTxn tm), next_id tm + 1)"
  by (simp add: beginTxn_def Let_def)

text \<open>An auto-commit dispatch from a quiet lock table, in one equation.\<close>

lemma dispatch_auto:
  assumes "cmd_txnId cmd = None" "quiet (l_lm st)"
  obtains lm where "quiet (fst (release lm (next_id (l_tm st) + 1)))"
    "\<And>h. handle srt ops (l_storage st) (next_id (l_tm st) + 1) cmd = Inr h \<Longrightarrow>
       dispatch ord srt ops cmd st =
         (let (st', res, err) = auto_finish ops (next_id (l_tm st) + 1) h
            (st\<lparr>l_tm := fst (beginTxn (l_tm st)), l_lm := lm\<rparr>)
          in Done (st'\<lparr>l_out := l_out st' @ [present cmd res err]\<rparr>))"
proof -
  let ?t = "next_id (l_tm st) + 1" and ?m = "if cmd_type cmd = Select then Shared else Exclusive"
  obtain lm where lm: "acquire_enter (l_lm st) ?t (tableKey (cmd_table cmd)) ?m = (lm, Some Granted)"
    "quiet (fst (release lm ?t))"
    using quiet_acquire [OF assms(2)] by blast
  show thesis
  proof (rule that [OF lm(2)])
    fix h
    assume "handle srt ops (l_storage st) ?t cmd = Inr h"
    then show "dispatch ord srt ops cmd st =
        (let (st', res, err) = auto_finish ops ?t h (st\<lparr>l_tm := fst (beginTxn (l_tm st)), l_lm := lm\<rparr>)
         in Done (st'\<lparr>l_out := l_out st' @ [present cmd res err]\<rparr>))"
      using lm(1) assms(1) quiet_detect [OF assms(2)] beginTxn_id [of "l_tm st"]
      by (auto simp: dispatch_def Let_def split: prod.splits)
  qed
qed

lemma dispatch_auto_done:
  assumes "cmd_txnId cmd = None" "evaluable cmd" "quiet (l_lm st)" "all_closed (l_tm st)" "prepares ops"
  shows "\<exists>st' a. dispatch ord srt ops cmd st = Done st' \<and> quiet (l_lm st') \<and> all_closed (l_tm st') \<and>
    l_out st' = l_out st @ [a]"
proof -
  let ?t = "next_id (l_tm st) + 1"
  obtain lm where lm: "quiet (fst (release lm ?t))"
    and d: "\<And>h. handle srt ops (l_storage st) ?t cmd = Inr h \<Longrightarrow> dispatch ord srt ops cmd st =
       (let (st', res, err) = auto_finish ops ?t h (st\<lparr>l_tm := fst (beginTxn (l_tm st)), l_lm := lm\<rparr>)
        in Done (st'\<lparr>l_out := l_out st' @ [present cmd res err]\<rparr>))"
    using dispatch_auto [OF assms(1,3)] by blast
  obtain s' res err where h: "handle srt ops (l_storage st) ?t cmd = Inr (s', res, err)" "res \<noteq> None \<or> err \<noteq> None"
    by (rule handle_total [OF assms(2)])
  let ?f = "auto_finish ops ?t (s', res, err) (st\<lparr>l_tm := fst (beginTxn (l_tm st)), l_lm := lm\<rparr>)"
  have "all_closed (l_tm (fst ?f))"
    by (rule all_closed_begin [OF assms(4)])
       (use auto_finish_closes [OF assms(5) refl h(2), of ?t s' "st\<lparr>l_tm := fst (beginTxn (l_tm st)), l_lm := lm\<rparr>"] in simp)
  then show ?thesis using d [OF h(1)] lm by (simp add: Let_def case_prod_unfold)
qed

section \<open>A committed insert\<close>

lemma visibleSeq_commit_begin:
  "visibleSeq (fst (commitTxn (fst (beginTxn tm)) (next_id tm + 1))) = commit_seq tm + 1"
  by (simp add: visibleSeq_def commitTxn_def beginTxn_def Let_def)

lemma dispatch_insert:
  assumes "cmd_type cmd = Insert" "cmd_values cmd = Some row" "cmd_txnId cmd = None" "quiet (l_lm st)"
    "\<And>s t. eprepare ops s t = (s, sentinel)"
    "\<And>s t tbl k row. snd (eput ops s t tbl k row) = sentinel"
  shows "\<exists>st'. dispatch ord srt ops cmd st = Done st' \<and> l_out st' = l_out st @ [Rows ok_result] \<and>
    l_storage st' = fst (ecommit ops
      (fst (eput ops (l_storage st) (next_id (l_tm st) + 1) (cmd_table cmd) (insert_key row) row))
      (next_id (l_tm st) + 1) (commit_seq (l_tm st) + 1))"
proof -
  let ?t = "next_id (l_tm st) + 1"
  obtain lm where d: "\<And>h. handle srt ops (l_storage st) ?t cmd = Inr h \<Longrightarrow> dispatch ord srt ops cmd st =
       (let (st', res, err) = auto_finish ops ?t h (st\<lparr>l_tm := fst (beginTxn (l_tm st)), l_lm := lm\<rparr>)
        in Done (st'\<lparr>l_out := l_out st' @ [present cmd res err]\<rparr>))"
    using dispatch_auto [OF assms(3,4)] by blast
  have h: "handle srt ops (l_storage st) ?t cmd =
      Inr (fst (eput ops (l_storage st) ?t (cmd_table cmd) (insert_key row) row), Some ok_result, None)"
    using assms(1,2,6) by (simp add: handle_def handle_insert_def Let_def case_prod_unfold)
  show ?thesis
    using d [OF h] assms(1,5)
    by (simp add: auto_finish_def Let_def present_def ok_result_def sentinel_def db_error_def visibleSeq_commit_begin)
qed

context transactional_store
begin

lemma insert_publishes:
  assumes "inv s" "idle s t" "idle s u" "u \<noteq> t" "ok k" "seq \<noteq> 0"
  shows "agree ok (view_of ops (fst (ecommit ops (fst (eput ops s t tbl k row)) t seq)) u)
    (overlay same (WPut tbl k row) (view_of ops s u))"
  using commit_atomic(2) [OF assms(1-4), of "[WPut tbl k row]" seq] assms(5,6) by simp

end

section \<open>Properties\<close>

text \<open>
  C6. The loop serves every command. On any storage engine whose \<open>prepare\<close> succeeds, a
  sequence of auto-commit commands started with no lock held runs to its end: no dispatch blocks,
  throws or is taken for a deadlock, each one presents exactly one answer, and afterwards no lock is
  held and no transaction is left open.
\<close>

theorem loop_serves_all:
  assumes "prepares ops" "quiet (l_lm st)" "all_closed (l_tm st)"
    "\<forall>cmd \<in> set cmds. cmd_txnId cmd = None \<and> evaluable cmd"
  shows "\<exists>st'. run_loop ord srt ops cmds st = Done st' \<and> quiet (l_lm st') \<and> all_closed (l_tm st') \<and>
    length (l_out st') = length (l_out st) + length cmds"
  using assms(2-4)
proof (induction cmds arbitrary: st)
  case (Cons cmd cmds)
  then obtain st1 a where st1: "dispatch ord srt ops cmd st = Done st1" "quiet (l_lm st1)" "all_closed (l_tm st1)"
    "l_out st1 = l_out st @ [a]"
    using dispatch_auto_done [OF _ _ Cons.prems(1,2) assms(1), of cmd ord srt] by auto
  then show ?case using Cons.IH [of st1] Cons.prems(3) by auto
qed simp

text \<open>
  A known deviation of the loop: an auto-commit UPDATE or DELETE that matches no row builds the
  not-found error but also a result, and the result wins: the front end is told success, and
  the transaction is committed.
\<close>

theorem no_match_reports_success:
  assumes "cmd_type cmd \<in> {Update, Delete}" "command_wf cmd" "evaluable cmd" "cmd_txnId cmd = None" "quiet (l_lm st)"
    "\<forall>row \<in> set (escan ops (l_storage st) (next_id (l_tm st) + 1) (cmd_table cmd)). \<not> where_sat (cmd_where cmd) row"
    "prepares ops"
  shows "\<exists>st'. dispatch ord srt ops cmd st = Done st' \<and> l_out st' = l_out st @ [Rows ok_result] \<and>
    getState (l_tm st') (next_id (l_tm st) + 1) = Committed"
proof -
  let ?t = "next_id (l_tm st) + 1"
  obtain lm where d: "\<And>h. handle srt ops (l_storage st) ?t cmd = Inr h \<Longrightarrow> dispatch ord srt ops cmd st =
       (let (st', res, err) = auto_finish ops ?t h (st\<lparr>l_tm := fst (beginTxn (l_tm st)), l_lm := lm\<rparr>)
        in Done (st'\<lparr>l_out := l_out st' @ [present cmd res err]\<rparr>))"
    using dispatch_auto [OF assms(4,5)] by blast
  obtain p where p: "cmd_where cmd = Some p" "where_ok (Some p)"
    using assms(1-3) by (auto simp: command_wf_def evaluable_def)
  then have "matching_ids ops (l_storage st) ?t (cmd_table cmd) p = Inr []"
    using assms(6) by (simp add: matching_ids_ok filter_False map_filter_simps)
  then obtain err where h: "handle srt ops (l_storage st) ?t cmd = Inr (l_storage st, Some ok_result, err)"
    using assms(1,2) p by (auto simp: handle_def handle_update_def handle_delete_def handle_keys_def command_wf_def)
  have "err_message (snd (eprepare ops (l_storage st) ?t)) = []"
    using assms(7) by (simp add: prepares_def isSentinel_def)
  then show ?thesis
    using d [OF h] assms(1)
    by (auto simp: auto_finish_def Let_def case_prod_unfold present_def ok_result_def getState_def commitTxn_def
        beginTxn_def)
qed

text \<open>
  Another deviation: a command that carries its own transaction still begins a new one
  (\<open>value_or\<close> evaluates its argument), which stays active and is never closed by the loop.
\<close>

theorem explicit_txn_leaks_one:
  assumes "cmd_txnId cmd = Some t" "t \<noteq> next_id (l_tm st) + 1" "quiet (l_lm st)"
    "dispatch ord srt ops cmd st = Done st'"
  shows "getState (l_tm st') (next_id (l_tm st) + 1) = Active \<and> next_id (l_tm st') = next_id (l_tm st) + 1"
  using assms quiet_detect [OF assms(3)] beginTxn_id [of "l_tm st"]
  by (auto simp: dispatch_def Let_def getState_def beginTxn_def split: prod.splits option.splits sum.splits)

text \<open>
  On the in-memory engine an auto-commit INSERT is answered with success and published: every other
  transaction without writes of its own then finds the row under each key that compares equal to its
  \<open>_id\<close>, and every other entry of every table as it was.
\<close>

theorem insert_is_durable:
  assumes "im_inv (l_storage st)" "im_idle (l_storage st) (next_id (l_tm st) + 1)" "im_idle (l_storage st) u"
    "u \<noteq> next_id (l_tm st) + 1" "cmd_type cmd = Insert" "cmd_values cmd = Some row" "cmd_txnId cmd = None"
    "quiet (l_lm st)" "key_ok (insert_key row)" "key_ok k" "commit_seq (l_tm st) + 1 \<noteq> 0"
  shows "\<exists>st'. dispatch ord srt InMemoryStorageEngine cmd st = Done st' \<and> l_out st' = l_out st @ [Rows ok_result] \<and>
    im_get (l_storage st') u tbl k =
      (if tbl = cmd_table cmd \<and> compare (insert_key row) k = SEqual then Some row else im_get (l_storage st) u tbl k)"
proof -
  have ops: "eprepare InMemoryStorageEngine s t = (s, sentinel)" "snd (eput InMemoryStorageEngine s t tb kk r) = sentinel"
    for s t tb kk r
    by (simp_all add: InMemoryStorageEngine_def im_prepare_def im_put_def)
  from dispatch_insert [OF assms(5-8) ops] obtain st' where st': "dispatch ord srt InMemoryStorageEngine cmd st = Done st'"
    "l_out st' = l_out st @ [Rows ok_result]"
    "l_storage st' = fst (ecommit InMemoryStorageEngine
      (fst (eput InMemoryStorageEngine (l_storage st) (next_id (l_tm st) + 1) (cmd_table cmd) (insert_key row) row))
      (next_id (l_tm st) + 1) (commit_seq (l_tm st) + 1))" by blast
  moreover have "view_of InMemoryStorageEngine (l_storage st') u tbl k =
      overlay vo.eqv (WPut (cmd_table cmd) (insert_key row) row) (view_of InMemoryStorageEngine (l_storage st) u) tbl k"
    using im.insert_publishes [OF assms(1-4,9,11), of "cmd_table cmd" row] assms(10)
    unfolding st'(3) agree_def by blast
  ultimately show ?thesis
    using assms(9,10) by (auto simp: view_of_def InMemoryStorageEngine_def value_eqv_iff key_ok_not_nan)
qed

text \<open>Witnesses, on a fresh engine.\<close>

definition fresh_loop :: "InMemory loop_state" where
  "fresh_loop = \<lparr>l_storage = im_init, l_tm = tm_init, l_lm = lm_init, l_out = []\<rparr>"

definition insert_cmd :: Command where
  "insert_cmd = (demo_select [])\<lparr>cmd_type := Insert, cmd_values := Some (Tuple_of [(''_id'', VInt64 7)])\<rparr>"

definition update_cmd :: Command where
  "update_cmd = insert_cmd\<lparr>cmd_type := Update, cmd_where := Some (Some (ComparisonNode ''_id'' Equals (VInt64 7)))\<rparr>"

lemma fresh_loop_ok: "quiet (l_lm fresh_loop)" "all_closed (l_tm fresh_loop)" "prepares InMemoryStorageEngine"
  by (simp_all add: fresh_loop_def quiet_def lm_init_def waiting_def all_closed_def tm_init_def prepares_def
      InMemoryStorageEngine_def im_prepare_def)

theorem loop_serves_all_witness:
  "\<exists>st'. run_loop (id, id) insertion_sort InMemoryStorageEngine [insert_cmd, update_cmd, demo_select []] fresh_loop = Done st' \<and>
     length (l_out st') = 3"
  using loop_serves_all [OF fresh_loop_ok(3,1,2), of "[insert_cmd, update_cmd, demo_select []]" "(id, id)" insertion_sort]
  by (auto simp: insert_cmd_def update_cmd_def demo_select_def evaluable_def where_ok_def fresh_loop_def)

theorem no_match_reports_success_witness:
  "\<exists>st'. dispatch (id, id) insertion_sort InMemoryStorageEngine update_cmd fresh_loop = Done st' \<and>
     l_out st' = [Rows ok_result]"
  using no_match_reports_success [of update_cmd fresh_loop InMemoryStorageEngine "(id, id)" insertion_sort] fresh_loop_ok
  by (auto simp: update_cmd_def insert_cmd_def demo_select_def command_wf_def evaluable_def where_ok_def fresh_loop_def
      InMemoryStorageEngine_def im_scan_def im_init_def)

theorem explicit_txn_leaks_one_witness:
  "\<exists>st'. dispatch (id, id) insertion_sort InMemoryStorageEngine ((demo_select [])\<lparr>cmd_txnId := Some 9\<rparr>) fresh_loop = Done st' \<and>
     getState (l_tm st') 1 = Active"
proof -
  have "\<exists>st'. dispatch (id, id) insertion_sort InMemoryStorageEngine ((demo_select [])\<lparr>cmd_txnId := Some 9\<rparr>) fresh_loop = Done st'"
    using quiet_detect [OF fresh_loop_ok(1)]
    by (simp add: dispatch_def Let_def beginTxn_def acquire_enter_def grantable_def grant_def fresh_loop_def lm_init_def
        handle_def handle_select_def select_rows_def matched_rows_eq demo_select_def where_ok_def)
  then obtain st' where d: "dispatch (id, id) insertion_sort InMemoryStorageEngine ((demo_select [])\<lparr>cmd_txnId := Some 9\<rparr>) fresh_loop = Done st'"
    by blast
  show ?thesis
    using explicit_txn_leaks_one [OF _ _ fresh_loop_ok(1) d, of 9] d by (simp add: fresh_loop_def tm_init_def)
qed

theorem insert_is_durable_witness:
  "\<exists>st'. dispatch (id, id) insertion_sort InMemoryStorageEngine insert_cmd fresh_loop = Done st' \<and>
     im_get (l_storage st') 5 ''t'' (VInt64 7) = Some (Tuple_of [(''_id'', VInt64 7)])"
proof -
  have k: "insert_key (Tuple_of [(''_id'', VInt64 7)]) = VInt64 7" by (simp add: insert_key_def maybeGet_map_of)
  show ?thesis
    using insert_is_durable [of fresh_loop 5 insert_cmd "Tuple_of [(''_id'', VInt64 7)]" "VInt64 7" "(id, id)" insertion_sort "''t''"]
      fresh_loop_ok im_inv_init
    by (auto simp: fresh_loop_def insert_cmd_def demo_select_def k key_ok_def tm_init_def)
qed

end
