(* ===== verification/Dispatcher.thy ===== *)
theory Dispatcher
  imports Engine_Loop
begin

text \<open>
  \<open>includes/opendb/core/EngineDispatcher.hpp\<close> and \<open>src/EngineDispatcher.cpp\<close>: sessions
  queued for a pool of worker threads. One worker's work on a session is split at the lock wait
  (\<open>begin_command\<close>, \<open>wake_command\<close>, \<open>timeout_command\<close>); the step relation interleaves the
  workers in every order. Between two waits a command's handler, presentation and commit form one
  step: its table lock keeps other writers of the table out meanwhile.
\<close>

section \<open>Metrics\<close>

definition kLatencyBuckets :: nat where
  "kLatencyBuckets = 18"

record Metrics =
  sessionsEnqueued :: u64
  sessionsCompleted :: u64
  sessionsFailed :: u64
  totalLatencyMicros :: u64
  maxLatencyMicros :: u64
  latencyBuckets :: "u64 list"

definition metrics_init :: Metrics where
  "metrics_init = \<lparr>sessionsEnqueued = 0, sessionsCompleted = 0, sessionsFailed = 0,
     totalLatencyMicros = 0, maxLatencyMicros = 0, latencyBuckets = replicate kLatencyBuckets 0\<rparr>"

text \<open>\<open>while (v > 1 && idx + 1 < kLatencyBuckets) { v >>= 1; ++idx; }\<close>\<close>

function bucket_index :: "u64 \<Rightarrow> nat \<Rightarrow> nat" where
  "bucket_index v idx =
     (if v > 1 \<and> idx + 1 < kLatencyBuckets then bucket_index (drop_bit 1 v) (idx + 1) else idx)"
  by pat_completeness auto
termination by (relation "measure (\<lambda>(v, idx). kLatencyBuckets - idx)") auto

declare bucket_index.simps [simp del]

definition recordLatency :: "u64 \<Rightarrow> Metrics \<Rightarrow> Metrics" where
  "recordLatency micros m =
     (let idx0 = bucket_index micros 0;
          idx = (if idx0 \<ge> kLatencyBuckets then kLatencyBuckets - 1 else idx0)
      in m\<lparr>totalLatencyMicros := totalLatencyMicros m + micros,
           maxLatencyMicros := (if micros > maxLatencyMicros m then micros else maxLatencyMicros m),
           latencyBuckets := (latencyBuckets m)[idx := latencyBuckets m ! idx + 1]\<rparr>)"

definition fail_session :: "Metrics \<Rightarrow> Metrics" where
  "fail_session m = m\<lparr>sessionsFailed := sessionsFailed m + 1\<rparr>"

definition show_u64 :: "u64 \<Rightarrow> string" where
  "show_u64 n = show_nat (unat n)"

definition json_field :: "string \<Rightarrow> string \<Rightarrow> string" where
  "json_field name val = [CHR 0x22] @ name @ [CHR 0x22] @ '':'' @ val"

fun comma_sep :: "string list \<Rightarrow> string" where
  "comma_sep [] = []"
| "comma_sep [x] = x"
| "comma_sep (x # y # zs) = x @ '','' @ comma_sep (y # zs)"

definition renderMetricsSnapshot :: "Metrics \<Rightarrow> nat \<Rightarrow> nat \<Rightarrow> string" where
  "renderMetricsSnapshot m workers pending =
     ''{'' @ json_field ''sessions_enqueued'' (show_u64 (sessionsEnqueued m)) @
     '','' @ json_field ''sessions_completed'' (show_u64 (sessionsCompleted m)) @
     '','' @ json_field ''sessions_failed'' (show_u64 (sessionsFailed m)) @
     '','' @ json_field ''total_latency_us'' (show_u64 (totalLatencyMicros m)) @
     '','' @ json_field ''max_latency_us'' (show_u64 (maxLatencyMicros m)) @
     '','' @ json_field ''latency_buckets'' (''['' @ comma_sep (map (\<lambda>i. show_u64 (latencyBuckets m ! i)) [0..<kLatencyBuckets]) @ '']'') @
     '','' @ json_field ''worker_count'' (show_nat workers) @
     '','' @ json_field ''pending_count'' (show_nat pending) @ ''}''"

section \<open>Sessions and the shared state\<close>

datatype stage = Ready | Waiting Command TxnId

record session =
  s_cmds :: "Command list"
  s_open :: "TxnId list"
  s_stage :: stage
  s_out :: "answer list"

record 's disp =
  d_running :: bool
  d_stopping :: bool
  d_workers :: nat
  d_queue :: "session list"
  d_active :: "session list"
  d_closed :: "session list"
  d_storage :: 's
  d_tm :: TransactionManager
  d_lm :: LockManager
  d_metrics :: Metrics

definition disp_start :: "nat \<Rightarrow> 's \<Rightarrow> TransactionManager \<Rightarrow> LockManager \<Rightarrow> 's disp" where
  "disp_start workerCount s tm lm =
     \<lparr>d_running = True, d_stopping = False, d_workers = (if workerCount = 0 then 1 else workerCount),
      d_queue = [], d_active = [], d_closed = [], d_storage = s, d_tm = tm, d_lm = lm, d_metrics = metrics_init\<rparr>"

definition say :: "answer \<Rightarrow> session \<Rightarrow> session" where
  "say a ses = ses\<lparr>s_out := s_out ses @ [a]\<rparr>"

definition enqueue :: "session \<Rightarrow> 's disp \<Rightarrow> 's disp" where
  "enqueue ses d =
     (if \<not> d_running d \<or> d_stopping d
      then d\<lparr>d_closed := d_closed d @ [say (Failure (db_error Internal ''dispatcher not accepting sessions'')) ses],
             d_metrics := fail_session (d_metrics d)\<rparr>
      else d\<lparr>d_queue := d_queue d @ [ses],
             d_metrics := (d_metrics d)\<lparr>sessionsEnqueued := sessionsEnqueued (d_metrics d) + 1\<rparr>\<rparr>)"

definition shutdown :: "'s disp \<Rightarrow> 's disp" where
  "shutdown d = (if d_stopping d then d else d\<lparr>d_stopping := True, d_running := False\<rparr>)"

definition pendingCount :: "'s disp \<Rightarrow> nat" where
  "pendingCount d = length (d_queue d)"

section \<open>Handlers\<close>

text \<open>The dispatcher's Select skips \<open>*\<close> inside a longer projection list and knows no joins, order or window.\<close>

definition disp_select :: "'s engine_ops \<Rightarrow> 's \<Rightarrow> TxnId \<Rightarrow> Command \<Rightarrow> Tuple list result" where
  "disp_select ops s txn cmd =
     rbind (rfilter (where_holds (cmd_where cmd)) (escan ops s txn (cmd_table cmd)))
       (\<lambda>rs. Inr (if keeps_all (cmd_projections cmd) then rs
                  else map (project (filter (\<lambda>pc. pc \<noteq> ''*'') (cmd_projections cmd))) rs))"

text \<open>Storage after the handler, \<open>errorOpt\<close> and the result set.\<close>

type_synonym 's worked = "'s \<times> DbError option \<times> ResultSet"

definition disp_keys :: "string \<Rightarrow> 's \<times> bool \<times> DbError option \<Rightarrow> 's worked" where
  "disp_keys what r =
     (case r of (s, any, err) \<Rightarrow>
        (s, if err = None \<and> \<not> any then Some (db_error NotFound (''no matching rows to '' @ what)) else err, ok_result))"

definition disp_handle :: "'s engine_ops \<Rightarrow> 's \<Rightarrow> TxnId \<Rightarrow> Command \<Rightarrow> 's worked result" where
  "disp_handle ops s txn cmd =
     (case cmd_type cmd of
        Select \<Rightarrow> rbind (disp_select ops s txn cmd) (\<lambda>rs. Inr (s, None, \<lparr>rs_success = True, rs_rows = rs\<rparr>))
      | Insert \<Rightarrow>
          (case cmd_values cmd of
             None \<Rightarrow> Inl Undefined
           | Some row \<Rightarrow>
               (let (s', err) = eput ops s txn (cmd_table cmd) (insert_key row) row
                in Inr (s', if isSentinel err then None else Some err, ok_result)))
      | Update \<Rightarrow>
          (case (cmd_where cmd, cmd_values cmd) of
             (None, _) \<Rightarrow> Inr (s, Some (db_error Internal ''Update requires WHERE''), ok_result)
           | (Some p, None) \<Rightarrow> Inr (s, Some (db_error Internal ''Update requires values''), ok_result)
           | (Some p, Some vals) \<Rightarrow>
               rbind (matching_ids ops s txn (cmd_table cmd) p)
                 (\<lambda>ks. Inr (disp_keys ''update''
                    (each_key (\<lambda>s k. eput ops s txn (cmd_table cmd) k (tset vals ''_id'' k)) s ks False))))
      | Delete \<Rightarrow>
          (case cmd_where cmd of
             None \<Rightarrow> Inr (s, Some (db_error Internal ''Delete requires WHERE''), ok_result)
           | Some p \<Rightarrow>
               rbind (matching_ids ops s txn (cmd_table cmd) p)
                 (\<lambda>ks. Inr (disp_keys ''delete''
                    (each_key (\<lambda>s k. eremove ops s txn (cmd_table cmd) k) s ks False)))))"

text \<open>The \<open>catch\<close> clause turns an exception into an error; undefined behaviour is not caught.\<close>

definition caught :: "'s \<Rightarrow> 's worked result \<Rightarrow> 's worked result" where
  "caught s r =
     (case r of
        Inr w \<Rightarrow> Inr w
      | Inl Undefined \<Rightarrow> Inl Undefined
      | Inl (RuntimeError m) \<Rightarrow> Inr (s, Some (db_error Internal (''dispatch exception: '' @ m)), ok_result)
      | Inl (OutOfRange m) \<Rightarrow> Inr (s, Some (db_error Internal (''dispatch exception: '' @ m)), ok_result)
      | Inl (InvalidArgument m) \<Rightarrow> Inr (s, Some (db_error Internal (''dispatch exception: '' @ m)), ok_result))"

section \<open>One command on a worker\<close>

text \<open>After the lock is granted: handler, presentation, auto-commit or registration as open.\<close>

definition execute ::
  "'s engine_ops \<Rightarrow> Command \<Rightarrow> TxnId \<Rightarrow> session \<Rightarrow> 's disp \<Rightarrow> (session \<times> 's disp) result" where
  "execute ops cmd txn ses d =
     rbind (caught (d_storage d) (disp_handle ops (d_storage d) txn cmd))
       (\<lambda>(s, err, rs).
          let ses = say (case err of Some e \<Rightarrow> Failure e | None \<Rightarrow> Rows rs) (ses\<lparr>s_stage := Ready\<rparr>)
          in if cmd_txnId cmd = None then
               (let tm = fst (commitTxn (d_tm d) txn);
                    (s', cerr) = ecommit ops s txn (visibleSeq tm);
                    ses = (if isSentinel cerr then ses else say (Failure cerr) ses)
                in Inr (ses, d\<lparr>d_storage := s', d_tm := tm, d_lm := fst (release (d_lm d) txn)\<rparr>))
             else Inr (ses\<lparr>s_open := s_open ses @ [txn]\<rparr>, d\<lparr>d_storage := s\<rparr>))"

definition command_mode :: "Command \<Rightarrow> LockMode" where
  "command_mode cmd = (if cmd_type cmd = Select then Shared else Exclusive)"

definition begin_command ::
  "hash_orders \<Rightarrow> 's engine_ops \<Rightarrow> Command \<Rightarrow> session \<Rightarrow> 's disp \<Rightarrow> (session \<times> 's disp) result" where
  "begin_command ord ops cmd ses d =
     (let (tm, fresh) = beginTxn (d_tm d);
          d = d\<lparr>d_tm := tm\<rparr>;
          txn = (case cmd_txnId cmd of None \<Rightarrow> fresh | Some t \<Rightarrow> t)
      in case detectCycle (fst ord) (snd ord) (d_lm d) txn of
           Some victim \<Rightarrow>
             Inr (say (Failure (db_error Deadlock (''cycle detected for '' @ txn_toString txn))) ses,
                  d\<lparr>d_tm := fst (abortTxn (d_tm d) victim), d_lm := fst (release (d_lm d) victim)\<rparr>)
         | None \<Rightarrow>
             (case try_enter (d_lm d) txn (tableKey (cmd_table cmd)) (command_mode cmd) of
                (lm, None) \<Rightarrow> Inr (ses\<lparr>s_stage := Waiting cmd txn\<rparr>, d\<lparr>d_lm := lm\<rparr>)
              | (lm, Some r) \<Rightarrow> execute ops cmd txn ses (d\<lparr>d_lm := lm\<rparr>)))"

definition wake_command ::
  "'s engine_ops \<Rightarrow> Command \<Rightarrow> TxnId \<Rightarrow> session \<Rightarrow> 's disp \<Rightarrow> (session \<times> 's disp) result" where
  "wake_command ops cmd txn ses d =
     (case try_wake (d_lm d) txn (tableKey (cmd_table cmd)) (command_mode cmd) of
        (lm, None) \<Rightarrow> Inr (ses, d\<lparr>d_lm := lm\<rparr>)
      | (lm, Some r) \<Rightarrow> execute ops cmd txn ses (d\<lparr>d_lm := lm\<rparr>))"

definition timeout_command ::
  "nat \<Rightarrow> Command \<Rightarrow> TxnId \<Rightarrow> session \<Rightarrow> 's disp \<Rightarrow> session \<times> 's disp" where
  "timeout_command lockTimeout cmd txn ses d =
     (say (Failure (db_error LockTimeout (''lock wait exceeded '' @ show_nat lockTimeout @ '' ms''))) (ses\<lparr>s_stage := Ready\<rparr>),
      d\<lparr>d_tm := fst (abortTxn (d_tm d) txn),
        d_lm := fst (try_timeout (d_lm d) txn (tableKey (cmd_table cmd))),
        d_metrics := fail_session (d_metrics d)\<rparr>)"

text \<open>The end of a session: abort what is still open, close, count.\<close>

definition abort_open :: "'s engine_ops \<Rightarrow> TxnId \<Rightarrow> 's disp \<Rightarrow> 's disp" where
  "abort_open ops t d = d\<lparr>d_storage := fst (eabort ops (d_storage d) t), d_lm := fst (release (d_lm d) t)\<rparr>"

definition finish_session :: "'s engine_ops \<Rightarrow> bool \<Rightarrow> u64 \<Rightarrow> session \<Rightarrow> 's disp \<Rightarrow> 's disp" where
  "finish_session ops ok micros ses d =
     (let d = fold (abort_open ops) (s_open ses) d;
          m = (if ok then (d_metrics d)\<lparr>sessionsCompleted := sessionsCompleted (d_metrics d) + 1\<rparr>
               else fail_session (d_metrics d))
      in d\<lparr>d_closed := d_closed d @ [ses], d_metrics := recordLatency micros m\<rparr>)"

definition query_timeout :: "nat \<Rightarrow> session \<Rightarrow> session" where
  "query_timeout limit ses =
     say (Failure (db_error QueryTimeout (''session exceeded query timeout of '' @ show_nat limit @ '' ms''))) ses"

section \<open>Interleavings\<close>

text \<open>\<open>d_active\<close> lists the sessions that workers are running; \<open>xs\<close> and \<open>ys\<close> are the others.\<close>

inductive disp_step :: "hash_orders \<Rightarrow> 's engine_ops \<Rightarrow> nat \<Rightarrow> nat \<Rightarrow> 's disp \<Rightarrow> 's disp \<Rightarrow> bool"
  for ord :: hash_orders and ops :: "'s engine_ops" and lockTimeout queryTimeout :: nat where
  submit: "s_open ses = [] \<Longrightarrow> s_stage ses = Ready \<Longrightarrow> disp_step ord ops lockTimeout queryTimeout d (enqueue ses d)"
| stop: "disp_step ord ops lockTimeout queryTimeout d (shutdown d)"
| take_session: "d_running d \<Longrightarrow> d_queue d = ses # rest \<Longrightarrow> length (d_active d) < d_workers d \<Longrightarrow>
    disp_step ord ops lockTimeout queryTimeout d (d\<lparr>d_queue := rest, d_active := d_active d @ [ses]\<rparr>)"
| begins: "d_active d = xs @ ses # ys \<Longrightarrow> s_stage ses = Ready \<Longrightarrow> s_cmds ses = cmd # cmds \<Longrightarrow>
    begin_command ord ops cmd (ses\<lparr>s_cmds := cmds\<rparr>) d = Inr (ses', d') \<Longrightarrow>
    disp_step ord ops lockTimeout queryTimeout d (d'\<lparr>d_active := xs @ ses' # ys\<rparr>)"
| wakes: "d_active d = xs @ ses # ys \<Longrightarrow> s_stage ses = Waiting cmd txn \<Longrightarrow>
    wake_command ops cmd txn ses d = Inr (ses', d') \<Longrightarrow>
    disp_step ord ops lockTimeout queryTimeout d (d'\<lparr>d_active := xs @ ses' # ys\<rparr>)"
| times_out: "d_active d = xs @ ses # ys \<Longrightarrow> s_stage ses = Waiting cmd txn \<Longrightarrow>
    timeout_command lockTimeout cmd txn ses d = (ses', d') \<Longrightarrow>
    disp_step ord ops lockTimeout queryTimeout d (d'\<lparr>d_active := xs @ ses' # ys\<rparr>)"
| ends: "d_active d = xs @ ses # ys \<Longrightarrow> s_stage ses = Ready \<Longrightarrow> s_cmds ses = [] \<Longrightarrow>
    disp_step ord ops lockTimeout queryTimeout d ((finish_session ops True micros ses d)\<lparr>d_active := xs @ ys\<rparr>)"
| expires: "d_active d = xs @ ses # ys \<Longrightarrow> s_stage ses = Ready \<Longrightarrow> queryTimeout > 0 \<Longrightarrow>
    disp_step ord ops lockTimeout queryTimeout d
      ((finish_session ops False micros (query_timeout queryTimeout ses) d)\<lparr>d_active := xs @ ys\<rparr>)"

inductive disp_reachable ::
  "hash_orders \<Rightarrow> 's engine_ops \<Rightarrow> nat \<Rightarrow> nat \<Rightarrow> 's disp \<Rightarrow> bool"
  for ord :: hash_orders and ops :: "'s engine_ops" and lockTimeout queryTimeout :: nat where
  start: "disp_reachable ord ops lockTimeout queryTimeout (disp_start n s tm lm_init)"
| step: "disp_reachable ord ops lockTimeout queryTimeout d \<Longrightarrow>
    disp_step ord ops lockTimeout queryTimeout d d' \<Longrightarrow> disp_reachable ord ops lockTimeout queryTimeout d'"

section \<open>Locks belong to running sessions\<close>

definition open_txns :: "session list \<Rightarrow> TxnId set" where
  "open_txns ss = (\<Union>ses \<in> set ss. set (s_open ses))"

definition locks_owned :: "'s disp \<Rightarrow> bool" where
  "locks_owned d \<longleftrightarrow> held_inv (d_lm d) \<and> lock_owners (d_lm d) \<subseteq> open_txns (d_active d)"

lemma open_txns_split [simp]: "open_txns (xs @ ses # ys) = open_txns (xs @ ys) \<union> set (s_open ses)"
  by (auto simp: open_txns_def)

text \<open>What one worker step may do to locks: keep the invariant, and add owners only to its own list.\<close>

definition lock_safe :: "session \<Rightarrow> 's disp \<Rightarrow> session \<times> 's disp \<Rightarrow> bool" where
  "lock_safe ses d r \<longleftrightarrow> held_inv (d_lm (snd r)) \<and> set (s_open ses) \<subseteq> set (s_open (fst r)) \<and>
     lock_owners (d_lm (snd r)) \<subseteq> lock_owners (d_lm d) \<union> set (s_open (fst r))"

lemma execute_lock_safe:
  assumes "execute ops cmd txn ses d = Inr (ses', d')" "held_inv (d_lm d)"
  shows "held_inv (d_lm d') \<and> set (s_open ses) \<subseteq> set (s_open ses') \<and>
    lock_owners (d_lm d') \<subseteq> (lock_owners (d_lm d) - {txn}) \<union> set (s_open ses')"
  using assms
  by (auto simp: execute_def rbind_Inr_iff Let_def say_def lock_owners_release held_inv_release split: if_splits prod.splits)

lemma try_lock_safe:
  assumes "held_inv lm"
  shows "held_inv (fst (try_enter lm txn key m))" "lock_owners (fst (try_enter lm txn key m)) \<subseteq> insert txn (lock_owners lm)"
    "held_inv (fst (try_wake lm txn key m))" "lock_owners (fst (try_wake lm txn key m)) \<subseteq> insert txn (lock_owners lm)"
    "snd (try_enter lm txn key m) = None \<Longrightarrow> lock_owners (fst (try_enter lm txn key m)) = lock_owners lm"
    "snd (try_wake lm txn key m) = None \<Longrightarrow> lock_owners (fst (try_wake lm txn key m)) = lock_owners lm"
proof -
  let ?c = "\<lparr>caller = txn, target = key, wanted = m, bounded = True\<rparr>"
  have e: "try_enter lm txn key m = enter lm ?c" "try_wake lm txn key m = wake lm ?c"
    by (simp_all add: enter_def wake_def)
  note w = held_inv_cong [OF wake_held(1) [of lm ?c]] lock_owners_cong [OF wake_held(1) [of lm ?c]]
  show "held_inv (fst (try_enter lm txn key m))" "held_inv (fst (try_wake lm txn key m))"
    unfolding e w by (rule held_inv_enter [OF assms])+
  show "lock_owners (fst (try_enter lm txn key m)) \<subseteq> insert txn (lock_owners lm)"
    "lock_owners (fst (try_wake lm txn key m)) \<subseteq> insert txn (lock_owners lm)"
    unfolding e w using lock_owners_enter [of lm ?c] by simp_all
  show "lock_owners (fst (try_enter lm txn key m)) = lock_owners lm" if "snd (try_enter lm txn key m) = None"
    using that by (intro lock_owners_cong) (simp add: try_enter_def split: if_splits)
  show "lock_owners (fst (try_wake lm txn key m)) = lock_owners lm" if "snd (try_wake lm txn key m) = None"
    using that by (simp add: try_wake_def split: if_splits)
qed

lemma begin_lock_safe:
  assumes "begin_command ord ops cmd ses d = Inr (ses', d')" "held_inv (d_lm d)"
  shows "lock_safe ses d (ses', d')"
proof -
  let ?d = "d\<lparr>d_tm := fst (beginTxn (d_tm d))\<rparr>"
  let ?txn = "case cmd_txnId cmd of None \<Rightarrow> snd (beginTxn (d_tm d)) | Some t \<Rightarrow> t"
  let ?tls = "try_enter (d_lm d) ?txn (tableKey (cmd_table cmd)) (command_mode cmd)"
  note safe = try_lock_safe [OF assms(2), of ?txn "tableKey (cmd_table cmd)" "command_mode cmd"]
  consider (victim) v where "detectCycle (fst ord) (snd ord) (d_lm d) ?txn = Some v"
    | (wait) "detectCycle (fst ord) (snd ord) (d_lm d) ?txn = None" "snd ?tls = None"
    | (go) r where "detectCycle (fst ord) (snd ord) (d_lm d) ?txn = None" "snd ?tls = Some r"
    by (cases "detectCycle (fst ord) (snd ord) (d_lm d) ?txn"; cases "snd ?tls") auto
  then show ?thesis
  proof cases
    case victim
    then show ?thesis using assms
      by (auto simp: begin_command_def Let_def case_prod_unfold lock_safe_def say_def held_inv_release lock_owners_release)
  next
    case wait
    then show ?thesis using assms safe
      by (auto simp: begin_command_def Let_def case_prod_unfold lock_safe_def)
  next
    case go
    then have "execute ops cmd ?txn ses (?d\<lparr>d_lm := fst ?tls\<rparr>) = Inr (ses', d')"
      using assms(1) by (simp add: begin_command_def Let_def case_prod_unfold)
    from execute_lock_safe [OF this] safe show ?thesis by (auto simp: lock_safe_def)
  qed
qed

lemma wake_lock_safe:
  assumes "wake_command ops cmd txn ses d = Inr (ses', d')" "held_inv (d_lm d)"
  shows "lock_safe ses d (ses', d')"
proof -
  let ?tls = "try_wake (d_lm d) txn (tableKey (cmd_table cmd)) (command_mode cmd)"
  note safe = try_lock_safe [OF assms(2), of txn "tableKey (cmd_table cmd)" "command_mode cmd"]
  show ?thesis
  proof (cases "snd ?tls")
    case None
    then show ?thesis using assms safe by (auto simp: wake_command_def case_prod_unfold lock_safe_def)
  next
    case (Some r)
    then have "execute ops cmd txn ses (d\<lparr>d_lm := fst ?tls\<rparr>) = Inr (ses', d')"
      using assms(1) by (simp add: wake_command_def case_prod_unfold)
    from execute_lock_safe [OF this] safe show ?thesis by (auto simp: lock_safe_def)
  qed
qed

lemma abort_open_locks:
  "held_inv (d_lm d) \<Longrightarrow> held_inv (d_lm (fold (abort_open ops) ts d)) \<and>
     lock_owners (d_lm (fold (abort_open ops) ts d)) = lock_owners (d_lm d) - set ts"
proof (induction ts arbitrary: d)
  case (Cons t ts)
  have "held_inv (d_lm (abort_open ops t d))" "lock_owners (d_lm (abort_open ops t d)) = lock_owners (d_lm d) - {t}"
    using Cons.prems by (simp_all add: abort_open_def held_inv_release lock_owners_release)
  then show ?case using Cons.IH [of "abort_open ops t d"] by auto
qed simp

lemma finish_lock_safe:
  assumes "locks_owned d" "d_active d = xs @ ses # ys" "s_open ses' = s_open ses"
  shows "locks_owned ((finish_session ops ok micros ses' d)\<lparr>d_active := xs @ ys\<rparr>)"
  using assms abort_open_locks [of d ops "s_open ses"]
  by (auto simp: locks_owned_def finish_session_def Let_def)

lemma locks_owned_replace:
  assumes "locks_owned d" "d_active d = xs @ ses # ys" "lock_safe ses d (ses', d')"
  shows "locks_owned (d'\<lparr>d_active := xs @ ses' # ys\<rparr>)"
  using assms by (auto simp: locks_owned_def lock_safe_def)

lemma locks_owned_step [inv_intros]:
  assumes "disp_step ord ops lt qt d d'" "locks_owned d"
  shows "locks_owned d'"
  using assms
proof cases
  case (begins xs ses ys cmd cmds ses' d'')
  have "lock_safe (ses\<lparr>s_cmds := cmds\<rparr>) d (ses', d'')"
    using begin_lock_safe [OF begins(5)] assms(2) by (simp add: locks_owned_def)
  then have "lock_safe ses d (ses', d'')" by (simp add: lock_safe_def)
  then show ?thesis using locks_owned_replace [OF assms(2) begins(2)] begins(1) by simp
next
  case (wakes xs ses ys cmd txn ses' d'')
  have "lock_safe ses d (ses', d'')"
    using wake_lock_safe [OF wakes(4)] assms(2) by (simp add: locks_owned_def)
  then show ?thesis using locks_owned_replace [OF assms(2) wakes(2)] wakes(1) by simp
next
  case (times_out xs ses ys cmd txn ses' d'')
  have "held (d_lm d'') = held (d_lm d)" "s_open ses' = s_open ses"
    using times_out(4) by (auto simp: timeout_command_def say_def)
  then have "lock_safe ses d (ses', d'')"
    using assms(2) held_inv_cong [of "d_lm d''" "d_lm d"] lock_owners_cong [of "d_lm d''" "d_lm d"]
    by (auto simp: lock_safe_def locks_owned_def)
  then show ?thesis using locks_owned_replace [OF assms(2) times_out(2)] times_out(1) by simp
next
  case (ends xs ses ys micros)
  then show ?thesis using finish_lock_safe [OF assms(2) ends(2), of ses] by simp
next
  case (expires xs ses ys micros)
  then show ?thesis using finish_lock_safe [OF assms(2) expires(2), of "query_timeout qt ses"]
    by (simp add: query_timeout_def say_def)
qed (auto simp: locks_owned_def enqueue_def shutdown_def open_txns_def)

lemma locks_owned_start: "locks_owned (disp_start n s tm lm_init)"
  by (simp add: locks_owned_def disp_start_def held_inv_def lm_init_def lock_owners_def isGrantedKey_def)

section \<open>The latency histogram\<close>

lemma unat_drop_bit_1: "unat (drop_bit (Suc 0) (v :: u64)) = unat v div 2"
  by (simp only: unat_drop_bit_eq) (simp add: drop_bit_eq_div)

lemma bucket_index_bounds:
  assumes "idx < kLatencyBuckets"
  shows "idx \<le> bucket_index v idx \<and> bucket_index v idx < kLatencyBuckets \<and>
    (idx < bucket_index v idx \<longrightarrow> 2 ^ (bucket_index v idx - idx) \<le> unat v) \<and>
    (bucket_index v idx + 1 < kLatencyBuckets \<longrightarrow> unat v < 2 ^ (bucket_index v idx - idx + 1))"
  using assms
proof (induction v idx rule: bucket_index.induct)
  case (1 v idx)
  show ?case
  proof (cases "v > 1 \<and> idx + 1 < kLatencyBuckets")
    case False
    have "\<not> v > 1 \<Longrightarrow> unat v < 2" by (simp add: word_less_nat_alt)
    then show ?thesis using False 1 by (auto simp: bucket_index.simps [of v idx])
  next
    case True
    let ?i = "bucket_index (drop_bit 1 v) (idx + 1)"
    have eq: "bucket_index v idx = ?i" using True by (simp add: bucket_index.simps [of v idx])
    have v: "1 < unat v" using True by (simp add: word_less_nat_alt)
    have IH: "idx + 1 \<le> ?i" "?i < kLatencyBuckets" "idx + 1 < ?i \<Longrightarrow> 2 ^ (?i - (idx + 1)) \<le> unat v div 2"
      "?i + 1 < kLatencyBuckets \<Longrightarrow> unat v div 2 < 2 ^ (?i - (idx + 1) + 1)"
      using 1(1) [OF True] True by (auto simp: unat_drop_bit_1)
    have p: "2 ^ (?i - idx) = (2 :: nat) * 2 ^ (?i - (idx + 1))"
      using IH(1) by (simp add: Suc_diff_Suc flip: power_Suc)
    have "2 ^ (?i - idx) \<le> unat v"
      using IH(1,3) v p by (cases "idx + 1 = ?i") auto
    moreover have "unat v < 2 ^ (?i - idx + 1)" if "?i + 1 < kLatencyBuckets"
      using IH(4) [OF that] p by simp
    ultimately show ?thesis unfolding eq using IH(1,2) by auto
  qed
qed

section \<open>Properties\<close>


text \<open>
  The histogram: a session of \<open>n\<close> microseconds increments exactly one bucket \<open>i\<close>, the one with
  \<open>2^i \<le> n < 2^(i+1)\<close> (bucket 0 takes 0 and 1, the last bucket everything from \<open>2^17\<close> on), adds \<open>n\<close> to the
  total and raises the maximum if needed.
\<close>

theorem latency_histogram:
  assumes "length (latencyBuckets m) = kLatencyBuckets"
  shows "\<exists>i < 18. latencyBuckets (recordLatency n m) = (latencyBuckets m)[i := latencyBuckets m ! i + 1] \<and>
    (0 < i \<longrightarrow> 2 ^ i \<le> unat n) \<and> (i < 17 \<longrightarrow> unat n < 2 ^ (i + 1)) \<and>
    maxLatencyMicros (recordLatency n m) = max n (maxLatencyMicros m) \<and>
    totalLatencyMicros (recordLatency n m) = totalLatencyMicros m + n"
proof -
  have k: "0 < kLatencyBuckets" "kLatencyBuckets = 18" by (simp_all add: kLatencyBuckets_def)
  then show ?thesis
    using bucket_index_bounds [OF k(1), of n]
    by (intro exI [of _ "bucket_index n 0"]) (auto simp: recordLatency_def Let_def max_def)
qed

lemma finish_session_simps [simp]:
  "d_queue (finish_session ops ok us ses d) = d_queue d" "d_running (finish_session ops ok us ses d) = d_running d"
proof -
  have "d_queue (fold (abort_open ops) ts d) = d_queue d \<and> d_running (fold (abort_open ops) ts d) = d_running d" for ts
    by (induction ts arbitrary: d) (simp_all add: abort_open_def)
  then show "d_queue (finish_session ops ok us ses d) = d_queue d" "d_running (finish_session ops ok us ses d) = d_running d"
    by (simp_all add: finish_session_def Let_def)
qed

lemma execute_queue: "execute ops cmd txn ses d = Inr (ses', d') \<Longrightarrow> d_queue d' = d_queue d \<and> d_running d' = d_running d"
  by (auto simp: execute_def rbind_Inr_iff Let_def split: if_splits prod.splits)

lemma begin_queue: "begin_command ord ops cmd ses d = Inr (ses', d') \<Longrightarrow> d_queue d' = d_queue d \<and> d_running d' = d_running d"
  by (auto simp: begin_command_def Let_def dest!: execute_queue split: option.splits prod.splits)

lemma wake_queue: "wake_command ops cmd txn ses d = Inr (ses', d') \<Longrightarrow> d_queue d' = d_queue d \<and> d_running d' = d_running d"
  by (auto simp: wake_command_def dest!: execute_queue split: option.splits prod.splits)

text \<open>
  Shutting down abandons the queue: once the dispatcher has stopped running, no step ever takes
  a session from the queue again, so sessions that were accepted but not started are neither run nor
  answered.
\<close>

theorem shutdown_abandons_queue:
  assumes "disp_step ord ops lt qt d d'" "\<not> d_running d"
  shows "d_queue d' = d_queue d \<and> \<not> d_running d'"
  using assms
  by cases (auto simp: enqueue_def shutdown_def timeout_command_def dest!: begin_queue wake_queue)

text \<open>
  An auto-commit command whose handler failed half-way is committed all the same: what it had
  written before the error is published.
\<close>

theorem failed_command_commits:
  assumes "disp_handle ops (d_storage d) txn cmd = Inr (s, Some e, rs)" "cmd_txnId cmd = None"
  shows "\<exists>ses' d'. execute ops cmd txn ses d = Inr (ses', d') \<and>
    d_storage d' = fst (ecommit ops s txn (visibleSeq (fst (commitTxn (d_tm d) txn)))) \<and>
    Failure e \<in> set (s_out ses')"
  using assms by (simp add: execute_def caught_def Let_def case_prod_unfold say_def)

text \<open>Witnesses.\<close>

definition idle_disp :: "InMemory disp" where
  "idle_disp = disp_start 2 im_init tm_init lm_init"


theorem latency_histogram_witness:
  "length (latencyBuckets metrics_init) = kLatencyBuckets \<and> maxLatencyMicros (recordLatency 5 metrics_init) = 5"
  using latency_histogram [of metrics_init 5] by (auto simp: metrics_init_def max_def)

theorem shutdown_abandons_queue_witness:
  "disp_step (id, id) InMemoryStorageEngine 50000 0 (shutdown idle_disp) (shutdown (shutdown idle_disp)) \<and>
   \<not> d_running (shutdown (shutdown idle_disp))"
  using shutdown_abandons_queue [OF disp_step.stop, of "shutdown idle_disp"] disp_step.stop [of _ _ _ _ "shutdown idle_disp"]
  by (simp add: shutdown_def idle_disp_def disp_start_def)

theorem failed_command_commits_witness:
  "\<exists>ses' d'. execute InMemoryStorageEngine (update_cmd\<lparr>cmd_where := None\<rparr>) 1
     \<lparr>s_cmds = [], s_open = [], s_stage = Ready, s_out = []\<rparr> idle_disp = Inr (ses', d') \<and>
     Failure (db_error Internal ''Update requires WHERE'') \<in> set (s_out ses')"
  using failed_command_commits [of InMemoryStorageEngine idle_disp 1 "update_cmd\<lparr>cmd_where := None\<rparr>" "d_storage idle_disp"
      "db_error Internal ''Update requires WHERE''" ok_result "\<lparr>s_cmds = [], s_open = [], s_stage = Ready, s_out = []\<rparr>"]
  by (auto simp: disp_handle_def update_cmd_def insert_cmd_def demo_select_def)

end
