(* ===== verification/Sql_Lexer.thy ===== *)
theory Sql_Lexer
  imports Commands
begin

text \<open>
  The scanner of the SQL front end (\<open>src/src/SqlParser.cpp\<close>, \<open>frontend/SqlParser.hpp\<close>): white space and
  comments, keywords, symbols, identifiers and literals. \<open>input_\<close> is only read from \<open>pos_\<close> on, so
  the state keeps the text that is left (\<open>sp_rest\<close>) and the position. Character classes are those of
  the C locale; \<open>strtoll\<close>, \<open>strtod\<close> and \<open>atoi\<close> are modelled on the texts that the scanner passes.
\<close>

section \<open>Characters\<close>

definition isspace :: "char \<Rightarrow> bool" where
  "isspace c \<longleftrightarrow> c = CHR '' '' \<or> (CHR 0x09 \<le> c \<and> c \<le> CHR 0x0D)"

definition isalpha :: "char \<Rightarrow> bool" where
  "isalpha c \<longleftrightarrow> (CHR ''A'' \<le> c \<and> c \<le> CHR ''Z'') \<or> (CHR ''a'' \<le> c \<and> c \<le> CHR ''z'')"

definition isalnum :: "char \<Rightarrow> bool" where
  "isalnum c \<longleftrightarrow> isalpha c \<or> is_digit c"

definition toupper :: "char \<Rightarrow> char" where
  "toupper c = (if CHR ''a'' \<le> c \<and> c \<le> CHR ''z'' then char_of (of_char c - 32 :: nat) else c)"

definition word_char :: "char \<Rightarrow> bool" where
  "word_char c \<longleftrightarrow> isalnum c \<or> c = CHR ''_''"

section \<open>State\<close>

record SqlParser =
  sp_rest :: string
  sp_pos :: nat
  sp_error :: string

definition set_rest :: "string \<Rightarrow> SqlParser \<Rightarrow> SqlParser" where
  "set_rest r p = p\<lparr>sp_rest := r, sp_pos := sp_pos p + (length (sp_rest p) - length r)\<rparr>"

definition set_error :: "string \<Rightarrow> SqlParser \<Rightarrow> SqlParser" where
  "set_error m p = p\<lparr>sp_error := m\<rparr>"

section \<open>White space and comments\<close>

fun skip_block :: "string \<Rightarrow> string" where
  "skip_block (a # b # cs) = (if a = CHR ''*'' \<and> b = CHR ''/'' then cs else skip_block (b # cs))"
| "skip_block cs = cs"

lemma length_skip_block: "length (skip_block s) \<le> length s"
  by (induction s rule: skip_block.induct) auto

function skip_blank :: "string \<Rightarrow> string" where
  "skip_blank [] = []"
| "skip_blank (c # cs) =
     (if isspace c then skip_blank cs
      else if c = CHR ''-'' \<and> cs \<noteq> [] \<and> hd cs = CHR ''-'' then skip_blank (dropWhile (\<lambda>d. d \<noteq> CHR 0x0A) (tl cs))
      else if c = CHR ''/'' \<and> cs \<noteq> [] \<and> hd cs = CHR ''*'' then skip_blank (skip_block (tl cs))
      else c # cs)"
  by pat_completeness auto
termination
proof (relation "measure length")
  fix cs :: string
  have "length (dropWhile P (tl cs)) \<le> length cs" for P
    using length_dropWhile_le [of P "tl cs"] by simp
  then show "(dropWhile (\<lambda>d. d \<noteq> CHR 0x0A) (tl cs), c # cs) \<in> measure length" for c by (simp add: le_imp_less_Suc)
  have "length (skip_block (tl cs)) \<le> length cs" using length_skip_block [of "tl cs"] by simp
  then show "(skip_block (tl cs), c # cs) \<in> measure length" for c by (simp add: le_imp_less_Suc)
qed auto

definition skipWhitespaceAndComments :: "SqlParser \<Rightarrow> SqlParser" where
  "skipWhitespaceAndComments p = set_rest (skip_blank (sp_rest p)) p"

section \<open>Tokens\<close>

definition consumeKeyword :: "string \<Rightarrow> SqlParser \<Rightarrow> SqlParser \<times> bool" where
  "consumeKeyword kw p =
     (let p = skipWhitespaceAndComments p; rest = sp_rest p; n = length kw
      in if n > length rest then (p, False)
         else if map toupper (take n rest) \<noteq> map toupper kw then (p, False)
         else if n < length rest \<and> word_char (rest ! n) then (p, False)
         else (set_rest (drop n rest) p, True))"

definition consumeSymbol :: "string \<Rightarrow> SqlParser \<Rightarrow> SqlParser \<times> bool" where
  "consumeSymbol symb p =
     (let p = skipWhitespaceAndComments p; rest = sp_rest p; n = length symb
      in if n > length rest then (p, False)
         else if take n rest \<noteq> symb then (p, False)
         else (set_rest (drop n rest) p, True))"

definition consumeIdentifier :: "SqlParser \<Rightarrow> SqlParser \<times> string option" where
  "consumeIdentifier p =
     (let p = skipWhitespaceAndComments p
      in case sp_rest p of
           [] \<Rightarrow> (p, None)
         | c # cs \<Rightarrow>
             (if c = CHR 0x22 then
                (let r = dropWhile (\<lambda>d. d \<noteq> CHR 0x22) cs
                 in if r = [] then (set_error ''unterminated quoted identifier'' (set_rest [] p), None)
                    else (set_rest (tl r) p, Some (takeWhile (\<lambda>d. d \<noteq> CHR 0x22) cs)))
              else if \<not> isalpha c \<and> c \<noteq> CHR ''_'' then (p, None)
              else (set_rest (dropWhile word_char (c # cs)) p, Some (takeWhile word_char (c # cs)))))"

definition consumeWord :: "SqlParser \<Rightarrow> SqlParser \<times> string option" where
  "consumeWord p =
     (let p = skipWhitespaceAndComments p; w = takeWhile word_char (sp_rest p)
      in if w = [] then (p, None) else (set_rest (dropWhile word_char (sp_rest p)) p, Some w))"

text \<open>The text up to the closing quote; a backslash also passes over the next character.\<close>

fun scan_quoted :: "char \<Rightarrow> string \<Rightarrow> (string \<times> string) option" where
  "scan_quoted q [] = None"
| "scan_quoted q [c] = (if c = q then Some ([], []) else None)"
| "scan_quoted q (c # d # cs) =
     (if c = q then Some ([], d # cs)
      else if c = CHR 0x5C then map_option (\<lambda>(s, r). (c # d # s, r)) (scan_quoted q cs)
      else map_option (\<lambda>(s, r). (c # s, r)) (scan_quoted q (d # cs)))"

definition consumeStringLiteral :: "SqlParser \<Rightarrow> SqlParser \<times> string option" where
  "consumeStringLiteral p =
     (let p = skipWhitespaceAndComments p
      in case sp_rest p of
           [] \<Rightarrow> (p, None)
         | q # cs \<Rightarrow>
             (if q \<noteq> CHR 0x27 \<and> q \<noteq> CHR 0x22 then (p, None)
              else case scan_quoted q cs of
                     None \<Rightarrow> (set_error ''unterminated string literal'' (set_rest [] p), None)
                   | Some (s, r) \<Rightarrow> (set_rest r p, Some s)))"

section \<open>Numbers\<close>

definition skip_sign :: "string \<Rightarrow> string" where
  "skip_sign s = (if s \<noteq> [] \<and> (hd s = CHR ''+'' \<or> hd s = CHR ''-'') then tl s else s)"

text \<open>The loop over a number: the text left and the flags \<open>hasDot\<close> and \<open>hasExp\<close>.\<close>

function scan_number :: "string \<Rightarrow> bool \<Rightarrow> bool \<Rightarrow> string \<times> bool \<times> bool" where
  "scan_number [] hasDot hasExp = ([], hasDot, hasExp)"
| "scan_number (c # cs) hasDot hasExp =
     (if is_digit c then scan_number cs hasDot hasExp
      else if c = CHR ''.'' \<and> \<not> hasDot \<and> \<not> hasExp then scan_number cs True hasExp
      else if (c = CHR ''e'' \<or> c = CHR ''E'') \<and> \<not> hasExp then scan_number (skip_sign cs) hasDot True
      else (c # cs, hasDot, hasExp))"
  by pat_completeness auto
termination
  by (relation "measure (\<lambda>(s, d, e). length s)") (auto simp: skip_sign_def)

text \<open>\<open>strtoll\<close>: the leading integer, saturated; \<open>atoi\<close> has no meaning for a value beyond \<open>int\<close>.\<close>

definition leading_int :: "string \<Rightarrow> int" where
  "leading_int s =
     (let n = int (read_nat (takeWhile is_digit (skip_sign s)))
      in if s \<noteq> [] \<and> hd s = CHR ''-'' then - n else n)"

definition strtoll :: "string \<Rightarrow> u64" where
  "strtoll s = word_of_int (max (- (2 ^ 63)) (min (2 ^ 63 - 1) (leading_int s)))"

definition atoi :: "string \<Rightarrow> int result" where
  "atoi s = (let i = leading_int s in if i < - (2 ^ 31) \<or> i \<ge> 2 ^ 31 then Inl Undefined else Inr i)"

text \<open>
  \<open>strtod\<close>: the magnitude of the double nearest to \<open>n / d\<close>, ties to even, in the encoding of theory
  \<open>Doubles\<close> (the carry of the significand goes into the exponent, beyond the range lies infinity).
\<close>

definition flog2_ratio :: "nat \<Rightarrow> nat \<Rightarrow> int" where
  "flog2_ratio n d = (if n \<ge> d then int (flog2 (n div d)) else - int (flog2 ((d - 1) div n) + 1))"

definition mag_of_ratio :: "nat \<Rightarrow> nat \<Rightarrow> nat" where
  "mag_of_ratio n d =
     (if n = 0 then 0
      else let e = max (flog2_ratio n d) (- 1022); q = e - 52;
               s = (if q \<ge> 0 then rne_div n (d * 2 ^ nat q) else rne_div (n * 2 ^ nat (- q)) d)
           in min d_inf_mag (nat (e + 1022) * 2 ^ 52 + s))"

definition strtod :: "string \<Rightarrow> double" where
  "strtod s =
     (let neg = (s \<noteq> [] \<and> hd s = CHR ''-''); t = skip_sign s;
          ip = takeWhile is_digit t; t1 = dropWhile is_digit t;
          dot = (t1 \<noteq> [] \<and> hd t1 = CHR ''.'');
          fp = (if dot then takeWhile is_digit (tl t1) else []);
          t2 = (if dot then dropWhile is_digit (tl t1) else t1);
          ex = (if t2 \<noteq> [] \<and> (hd t2 = CHR ''e'' \<or> hd t2 = CHR ''E'') then leading_int (tl t2) else 0);
          k = ex - int (length fp); m = read_nat (ip @ fp);
          mag = (if k \<ge> 0 then mag_of_ratio (m * 10 ^ nat k) 1 else mag_of_ratio m (10 ^ nat (- k)))
      in if ip @ fp = [] then 0
         else if neg then set_bit 63 (of_nat mag) else of_nat mag)"

definition consumeValueLiteral :: "SqlParser \<Rightarrow> SqlParser \<times> Value option" where
  "consumeValueLiteral p =
     (let p = skipWhitespaceAndComments p
      in if sp_rest p = [] then (p, None)
         else if hd (sp_rest p) = CHR 0x27 \<or> hd (sp_rest p) = CHR 0x22
         then (case consumeStringLiteral p of (p, s) \<Rightarrow> (p, map_option VText s))
         else case consumeKeyword ''TRUE'' p of (p, True) \<Rightarrow> (p, Some (VBool True)) | (p, False) \<Rightarrow>
              (case consumeKeyword ''FALSE'' p of (p, True) \<Rightarrow> (p, Some (VBool False)) | (p, False) \<Rightarrow>
              (case consumeKeyword ''NULL'' p of (p, True) \<Rightarrow> (p, Some VNull) | (p, False) \<Rightarrow>
                 (let start = sp_rest p; (r, hasDot, hasExp) = scan_number (skip_sign start) False False;
                      numStr = take (length start - length r) start; p = set_rest r p
                  in if numStr \<noteq> []
                     then (p, Some (if hasDot \<or> hasExp then VDouble (strtod numStr) else VInt64 (strtoll numStr)))
                     else (set_error (''expected value literal at position '' @ show_nat (sp_pos p)) p, None)))))"

section \<open>The text left never grows\<close>

lemma rest_set_rest [simp]: "sp_rest (set_rest r p) = r"
  by (simp add: set_rest_def)

lemma rest_set_error [simp]: "sp_rest (set_error m p) = sp_rest p"
  by (simp add: set_error_def)

lemma length_skip_blank: "length (skip_blank s) \<le> length s"
proof (induction s rule: skip_blank.induct)
  case (2 c cs)
  have "length (dropWhile (\<lambda>d. d \<noteq> CHR 0x0A) (tl cs)) \<le> length cs" "length (skip_block (tl cs)) \<le> length cs"
    using length_dropWhile_le [of "\<lambda>d. d \<noteq> CHR 0x0A" "tl cs"] length_skip_block [of "tl cs"] by auto
  with 2 show ?case by (auto simp: le_Suc_eq)
qed simp

lemma length_skip_sign: "length (skip_sign s) \<le> length s"
  by (simp add: skip_sign_def)

lemma length_scan_number: "length (fst (scan_number s d e)) \<le> length s"
proof (induction s d e rule: scan_number.induct)
  case (2 c cs d e)
  then show ?case using length_skip_sign [of cs] by auto
qed simp

lemma scan_quoted_less: "scan_quoted q s = Some (t, r) \<Longrightarrow> length r < length s"
  by (induction q s arbitrary: t rule: scan_quoted.induct) (fastforce split: if_splits)+

lemma skip_rest_le [simp]: "length (sp_rest (skipWhitespaceAndComments p)) \<le> length (sp_rest p)"
  by (simp add: skipWhitespaceAndComments_def length_skip_blank)

lemma consumeKeyword_le: "consumeKeyword kw p = (p', b) \<Longrightarrow>
    length (sp_rest p') + (if b then length kw else 0) \<le> length (sp_rest p)"
  using skip_rest_le [of p] by (auto simp: consumeKeyword_def Let_def split: if_splits)

lemma consumeSymbol_le: "consumeSymbol symb p = (p', b) \<Longrightarrow>
    length (sp_rest p') + (if b then length symb else 0) \<le> length (sp_rest p)"
  using skip_rest_le [of p] by (auto simp: consumeSymbol_def Let_def split: if_splits)

lemma consumeIdentifier_le:
  assumes "consumeIdentifier p = (p', r)"
  shows "length (sp_rest p') + (if r = None then 0 else 1) \<le> length (sp_rest p)"
proof -
  let ?q = "skipWhitespaceAndComments p"
  have "length (sp_rest p') + (if r = None then 0 else 1) \<le> length (sp_rest ?q)"
  proof (cases "sp_rest ?q")
    case (Cons c cs)
    consider "c = CHR 0x22" | "c \<noteq> CHR 0x22" "\<not> isalpha c" "c \<noteq> CHR ''_''" | "c \<noteq> CHR 0x22" "word_char c" "isalpha c \<or> c = CHR ''_''"
      by (auto simp: word_char_def isalnum_def)
    then show ?thesis
    proof cases
      case 1
      define D where "D = dropWhile (\<lambda>d. d \<noteq> CHR 0x22) cs"
      have "length D \<le> length cs" by (simp add: D_def length_dropWhile_le)
      moreover have "length (tl D) \<le> length D" by simp
      moreover have "(p', r) = (if D = [] then (set_error ''unterminated quoted identifier'' (set_rest [] ?q), None)
          else (set_rest (tl D) ?q, Some (takeWhile (\<lambda>d. d \<noteq> CHR 0x22) cs)))"
        unfolding assms [symmetric] using Cons 1 by (auto simp: consumeIdentifier_def Let_def D_def)
      ultimately show ?thesis using Cons by (cases D) auto
    next
      case 2
      then show ?thesis using assms Cons by (auto simp: consumeIdentifier_def Let_def)
    next
      case 3
      then have "p' = set_rest (dropWhile word_char cs) ?q" "r \<noteq> None"
        using assms Cons by (auto simp: consumeIdentifier_def Let_def)
      then show ?thesis using Cons length_dropWhile_le [of word_char cs] by simp
    qed
  qed (use assms in \<open>auto simp: consumeIdentifier_def Let_def\<close>)
  then show ?thesis using skip_rest_le [of p] by linarith
qed

lemma consumeStringLiteral_le:
  assumes "consumeStringLiteral p = (p', r)"
  shows "length (sp_rest p') + (if r = None then 0 else 1) \<le> length (sp_rest p)"
proof -
  let ?q = "skipWhitespaceAndComments p"
  have "length (sp_rest p') + (if r = None then 0 else 1) \<le> length (sp_rest ?q)"
  proof (cases "sp_rest ?q")
    case (Cons c cs)
    then show ?thesis using assms scan_quoted_less [of c cs]
      by (cases "scan_quoted c cs") (auto simp: consumeStringLiteral_def Let_def less_imp_le split: if_splits)
  qed (use assms in \<open>auto simp: consumeStringLiteral_def Let_def\<close>)
  then show ?thesis using skip_rest_le [of p] by linarith
qed

lemma scan_number_consumes:
  "scan_number (skip_sign s) False False = (r, d, e) \<Longrightarrow> take (length s - length r) s \<noteq> [] \<Longrightarrow> length r < length s"
  using length_scan_number [of "skip_sign s" False False] length_skip_sign [of s] by simp

lemma consumeValueLiteral_le:
  assumes "consumeValueLiteral p = (p', r)"
  shows "length (sp_rest p') + (if r = None then 0 else 1) \<le> length (sp_rest p)"
proof -
  let ?q = "skipWhitespaceAndComments p"
  obtain p1 b1 where k1: "consumeKeyword ''TRUE'' ?q = (p1, b1)" by fastforce
  obtain p2 b2 where k2: "consumeKeyword ''FALSE'' p1 = (p2, b2)" by fastforce
  obtain p3 b3 where k3: "consumeKeyword ''NULL'' p2 = (p3, b3)" by fastforce
  obtain t d e where n: "scan_number (skip_sign (sp_rest p3)) False False = (t, d, e)" by (metis prod_cases3)
  have le: "length t \<le> length (sp_rest p3)"
    using length_scan_number [of "skip_sign (sp_rest p3)" False False] length_skip_sign [of "sp_rest p3"] n by simp
  note kws = consumeKeyword_le [OF k1] consumeKeyword_le [OF k2] consumeKeyword_le [OF k3]
  have "length (sp_rest p') + (if r = None then 0 else 1) \<le> length (sp_rest ?q)"
  proof (cases "sp_rest ?q = [] \<or> hd (sp_rest ?q) = CHR 0x27 \<or> hd (sp_rest ?q) = CHR 0x22")
    case True
    then show ?thesis using assms consumeStringLiteral_le [of ?q]
      by (cases "consumeStringLiteral ?q") (auto simp: consumeValueLiteral_def Let_def split: if_splits)
  next
    case False
    then show ?thesis using assms kws le scan_number_consumes [OF n]
      by (cases b1; cases b2; cases b3) (auto simp: consumeValueLiteral_def Let_def k1 k2 k3 n split: if_splits)
  qed
  then show ?thesis using skip_rest_le [of p] by linarith
qed

section \<open>Printed integers\<close>

lemma show_nat_head: "is_digit (hd (show_nat n))"
  using show_nat_digits [of n] hd_in_set [OF show_nat_nonempty] by blast

lemma skip_sign_show: "skip_sign (show_int i) = show_nat (nat \<bar>i\<bar>)"
  using show_nat_head [of "nat \<bar>i\<bar>"] by (cases "i < 0") (auto simp: show_int_def skip_sign_def is_digit_def less_eq_char_def)

lemma leading_int_show: "leading_int (show_int i) = i"
proof -
  have "takeWhile is_digit (show_nat n) = show_nat n" for n
    using show_nat_digits [of n] takeWhile_eq_all_conv [of is_digit "show_nat n"] by blast
  moreover have "hd (show_nat n) \<noteq> CHR ''-''" for n
    using show_nat_head [of n] by (auto simp: is_digit_def less_eq_char_def)
  ultimately show ?thesis unfolding leading_int_def skip_sign_show
    by (simp add: show_int_def Let_def del: takeWhile_eq_all_conv)
qed

end
