(* ===== verification/Sql_Parser.thy ===== *)
theory Sql_Parser
  imports Sql_Lexer
begin

text \<open>
  The recursive-descent parser of \<open>src/src/SqlParser.cpp\<close>. A parsing method reads from the parser
  state and returns an \<open>optional\<close>; the constructor of \<open>Command\<close> may throw. So a method is a function to
  \<open>(SqlParser \<times> 'a option) result\<close>, and \<open>pbind\<close> leaves a method at the first \<open>nullopt\<close> as its early
  returns do. Every loop consumes input in each round, so all methods terminate. The explicit skips of
  white space in front of a token are absorbed by the skip of the token itself (\<open>skip_blank_idem\<close>).
\<close>

section \<open>Methods that may return \<open>nullopt\<close>\<close>

type_synonym 'a parsing = "SqlParser \<Rightarrow> (SqlParser \<times> 'a option) result"

definition ret :: "'a \<Rightarrow> 'a parsing" where
  "ret x p = Inr (p, Some x)"

definition fail_with :: "string \<Rightarrow> 'a parsing" where
  "fail_with msg p = Inr (set_error msg p, None)"

definition pbind :: "'a parsing \<Rightarrow> ('a \<Rightarrow> 'b parsing) \<Rightarrow> 'b parsing" where
  "pbind m f p = rbind (m p) (\<lambda>(p', r). case r of None \<Rightarrow> Inr (p', None) | Some x \<Rightarrow> f x p')"

lemma pbind_cong [fundef_cong]:
  assumes "p1 = p2" "m1 p2 = m2 p2" "\<And>x p'. m2 p2 = Inr (p', Some x) \<Longrightarrow> f1 x p' = f2 x p'"
  shows "pbind m1 f1 p1 = pbind m2 f2 p2"
  using assms by (cases "m2 p2") (auto simp: pbind_def split: option.splits)

lemma pbind_Inr_iff:
  "pbind m f p = Inr (q, r) \<longleftrightarrow> (\<exists>p' x. m p = Inr (p', Some x) \<and> f x p' = Inr (q, r)) \<or> (m p = Inr (q, None) \<and> r = None)"
  by (auto simp: pbind_def rbind_Inr_iff split: option.splits)

definition kw :: "string \<Rightarrow> bool parsing" where
  "kw k p = (case consumeKeyword k p of (p', b) \<Rightarrow> Inr (p', Some b))"

definition symbol :: "string \<Rightarrow> bool parsing" where
  "symbol s p = (case consumeSymbol s p of (p', b) \<Rightarrow> Inr (p', Some b))"

definition opt_value :: "Value option parsing" where
  "opt_value p = (case consumeValueLiteral p of (p', v) \<Rightarrow> Inr (p', Some v))"

definition opt_ident :: "string option parsing" where
  "opt_ident p = (case consumeIdentifier p of (p', v) \<Rightarrow> Inr (p', Some v))"

text \<open>A missing token: the message is set and the method returns \<open>nullopt\<close>.\<close>

definition need :: "'a option \<Rightarrow> string \<Rightarrow> 'a parsing" where
  "need r msg p = (case r of None \<Rightarrow> fail_with msg p | Some x \<Rightarrow> ret x p)"

definition need_kw :: "string \<Rightarrow> string \<Rightarrow> unit parsing" where
  "need_kw k msg = pbind (kw k) (\<lambda>b. if b then ret () else fail_with msg)"

definition need_symbol :: "string \<Rightarrow> string \<Rightarrow> unit parsing" where
  "need_symbol s msg = pbind (symbol s) (\<lambda>b. if b then ret () else fail_with msg)"

definition need_ident :: "string \<Rightarrow> string parsing" where
  "need_ident msg = pbind opt_ident (\<lambda>r. need r msg)"

section \<open>Consumed input\<close>

definition left_len :: "SqlParser \<Rightarrow> nat" where
  "left_len p = length (sp_rest p)"

text \<open>A method that never gives input back, and one that takes some when it succeeds.\<close>

definition reader :: "'a parsing \<Rightarrow> bool" where
  "reader m \<longleftrightarrow> (\<forall>p p' r. m p = Inr (p', r) \<longrightarrow> left_len p' \<le> left_len p)"

definition consumer :: "'a parsing \<Rightarrow> bool" where
  "consumer m \<longleftrightarrow> reader m \<and> (\<forall>p p' x. m p = Inr (p', Some x) \<longrightarrow> left_len p' < left_len p)"

named_theorems readers \<open>methods that do not give input back\<close>

lemma readerD: "reader m \<Longrightarrow> m p = Inr (p', r) \<Longrightarrow> left_len p' \<le> left_len p"
  by (auto simp: reader_def)

lemma consumerD: "consumer m \<Longrightarrow> m p = Inr (p', Some x) \<Longrightarrow> left_len p' < left_len p"
  by (auto simp: consumer_def)

lemma consumer_reader: "consumer m \<Longrightarrow> reader m"
  by (simp add: consumer_def)

lemma reader_ret [readers]: "reader (ret x)"
  by (simp add: reader_def ret_def)

lemma reader_fail [readers]: "reader (fail_with m)"
  by (simp add: reader_def fail_with_def left_len_def)

lemma reader_need [readers]: "reader (need r m)"
  by (cases r) (auto simp: reader_def need_def fail_with_def ret_def left_len_def)

lemma reader_pbind [readers]: "reader m \<Longrightarrow> (\<And>x. reader (f x)) \<Longrightarrow> reader (pbind m f)"
  unfolding reader_def pbind_Inr_iff by (metis le_trans)

lemma reader_if [readers]: "reader m \<Longrightarrow> reader n \<Longrightarrow> reader (if b then m else n)"
  by simp

lemma kw_len: "kw k p = Inr (p', Some b) \<Longrightarrow> left_len p' + (if b then length k else 0) \<le> left_len p"
  using consumeKeyword_le [of k p] by (auto simp: kw_def left_len_def split: prod.splits)

lemma symbol_len: "symbol s p = Inr (p', Some b) \<Longrightarrow> left_len p' + (if b then length s else 0) \<le> left_len p"
  using consumeSymbol_le [of s p] by (auto simp: symbol_def left_len_def split: prod.splits)

lemma opt_value_len: "opt_value p = Inr (p', Some v) \<Longrightarrow> left_len p' + (if v = None then 0 else 1) \<le> left_len p"
  using consumeValueLiteral_le [of p] by (auto simp: opt_value_def left_len_def split: prod.splits)

lemma opt_ident_len: "opt_ident p = Inr (p', Some v) \<Longrightarrow> left_len p' + (if v = None then 0 else 1) \<le> left_len p"
  using consumeIdentifier_le [of p] by (auto simp: opt_ident_def left_len_def split: prod.splits)

lemma reader_token:
  assumes "\<And>p. left_len (fst (t p)) \<le> left_len p" "\<And>p. m p = Inr (fst (t p), Some (snd (t p)))"
  shows "reader m"
  using assms by (auto simp: reader_def)

lemma token_readers [readers]: "reader (kw k)" "reader (symbol s)" "reader opt_value" "reader opt_ident"
proof -
  have "left_len (fst (consumeKeyword k p)) \<le> left_len p" "left_len (fst (consumeSymbol s p)) \<le> left_len p"
      "left_len (fst (consumeValueLiteral p)) \<le> left_len p" "left_len (fst (consumeIdentifier p)) \<le> left_len p" for p
    using consumeKeyword_le [of k p "fst (consumeKeyword k p)" "snd (consumeKeyword k p)"]
      consumeSymbol_le [of s p "fst (consumeSymbol s p)" "snd (consumeSymbol s p)"]
      consumeValueLiteral_le [of p "fst (consumeValueLiteral p)" "snd (consumeValueLiteral p)"]
      consumeIdentifier_le [of p "fst (consumeIdentifier p)" "snd (consumeIdentifier p)"]
    by (simp_all add: left_len_def)
  note le = this
  show "reader (kw k)" by (rule reader_token [OF le(1)]) (simp add: kw_def split: prod.splits)
  show "reader (symbol s)" by (rule reader_token [OF le(2)]) (simp add: symbol_def split: prod.splits)
  show "reader opt_value" by (rule reader_token [OF le(3)]) (simp add: opt_value_def split: prod.splits)
  show "reader opt_ident" by (rule reader_token [OF le(4)]) (simp add: opt_ident_def split: prod.splits)
qed

lemma need_readers [readers]: "reader (need_kw k m)" "reader (need_symbol s m)" "reader (need_ident m)"
  by (auto simp: need_kw_def need_symbol_def need_ident_def intro!: readers)

lemma need_kw_len: "need_kw k m p = Inr (p', Some x) \<Longrightarrow> left_len p' + length k \<le> left_len p"
  by (auto simp: need_kw_def pbind_Inr_iff ret_def fail_with_def dest!: kw_len split: if_splits)

lemma need_symbol_len: "need_symbol s m p = Inr (p', Some x) \<Longrightarrow> left_len p' + length s \<le> left_len p"
  by (auto simp: need_symbol_def pbind_Inr_iff ret_def fail_with_def dest!: symbol_len split: if_splits)

lemma need_ident_len: "need_ident m p = Inr (p', Some x) \<Longrightarrow> left_len p' < left_len p"
proof -
  assume "need_ident m p = Inr (p', Some x)"
  then have "opt_ident p = Inr (p', Some (Some x))"
    by (auto simp: need_ident_def pbind_Inr_iff need_def ret_def fail_with_def split: option.splits)
  from opt_ident_len [OF this] show ?thesis by simp
qed

lemmas lens = kw_len symbol_len opt_value_len opt_ident_len need_kw_len need_symbol_len need_ident_len

section \<open>Columns\<close>

fun first_keyword :: "(string \<times> 'a) list \<Rightarrow> 'a option parsing" where
  "first_keyword [] = ret None"
| "first_keyword ((k, v) # ks) = pbind (kw k) (\<lambda>b. if b then ret (Some v) else first_keyword ks)"

definition column_types :: "(string \<times> ValueType) list" where
  "column_types =
     [(''INT'', TInt64), (''INTEGER'', TInt64), (''BIGINT'', TInt64), (''SMALLINT'', TInt32),
      (''DOUBLE'', TDouble), (''REAL'', TDouble), (''FLOAT'', TDouble),
      (''TEXT'', TText), (''VARCHAR'', TText), (''CHAR'', TText), (''BLOB'', TBlob), (''BYTEA'', TBlob),
      (''DATE'', TDate), (''TIMESTAMP'', TTimestamp), (''BOOL'', TBool), (''BOOLEAN'', TBool)]"

text \<open>The loop over the constraints of a column; the flag is \<open>hasPrimaryKey\<close>.\<close>

function column_constraints :: "ColumnDef \<Rightarrow> bool \<Rightarrow> (ColumnDef \<times> bool) parsing" where
  "column_constraints out hasPk p =
     pbind (kw ''PRIMARY'') (\<lambda>b p.
       if b then
         pbind (need_kw ''KEY'' ''expected KEY after PRIMARY'') (\<lambda>_ p.
           if hasPk then fail_with ''only one PRIMARY KEY allowed'' p
           else column_constraints (out\<lparr>cd_primaryKey := True\<rparr>) True p) p
       else pbind (kw ''NOT'') (\<lambda>b p.
         if b then
           pbind (need_kw ''NULL'' ''expected NULL after NOT'') (\<lambda>_ p.
             column_constraints (out\<lparr>cd_nullable := False\<rparr>) hasPk p) p
         else pbind (kw ''NULL'') (\<lambda>b p.
           if b then column_constraints (out\<lparr>cd_nullable := True\<rparr>) hasPk p
           else pbind (kw ''DEFAULT'') (\<lambda>b p.
             if b then
               pbind (kw ''NULL'') (\<lambda>b p.
                 if b then column_constraints (out\<lparr>cd_default := Some VNull\<rparr>) hasPk p
                 else pbind opt_value (\<lambda>dv p.
                   pbind (need dv ''expected literal after DEFAULT'') (\<lambda>v p.
                     column_constraints (out\<lparr>cd_default := Some v\<rparr>) hasPk p) p) p) p
             else ret (out, hasPk) p) p) p) p) p"
  by pat_completeness auto
termination
  by (relation "measure (\<lambda>(out, hasPk, p). left_len p)")
    (auto dest!: kw_len need_kw_len opt_value_len readerD [OF reader_need] split: if_splits)

declare column_constraints.simps [simp del]

definition parseColumnSpec :: "bool \<Rightarrow> (ColumnDef \<times> bool) parsing" where
  "parseColumnSpec hasPk =
     pbind (need_ident ''expected column name'') (\<lambda>name.
     pbind (first_keyword column_types) (\<lambda>t.
     pbind (need t ''unknown column type'') (\<lambda>ty.
       column_constraints (ColumnDef_init\<lparr>cd_name := name, cd_type := ty\<rparr>) hasPk)))"

lemma reader_first_keyword [readers]: "reader (first_keyword ks)"
  by (induction ks rule: first_keyword.induct) (auto intro!: readers)

text \<open>Loops: the claim for the states that are left after one more token gives it for this state.\<close>

definition reads_below :: "nat \<Rightarrow> 'a parsing \<Rightarrow> bool" where
  "reads_below n m \<longleftrightarrow> (\<forall>p p' r. left_len p < n \<and> m p = Inr (p', r) \<longrightarrow> left_len p' \<le> left_len p)"

lemma reads_below_reader: "reader m \<Longrightarrow> reads_below n m"
  by (simp add: reader_def reads_below_def)

lemma reader_below: "(\<And>n. reads_below n m) \<Longrightarrow> reader m"
  by (auto simp: reader_def reads_below_def)

lemma reads_below_bind: "reader m \<Longrightarrow> (\<And>x. reads_below n (f x)) \<Longrightarrow> reads_below n (pbind m f)"
  unfolding reader_def reads_below_def pbind_Inr_iff by (meson le_trans order_le_less_trans)

lemma reads_below_kw:
  assumes "reads_below (Suc n) (f False)" "reads_below n (f True)" "k \<noteq> []"
  shows "reads_below (Suc n) (pbind (kw k) f)"
proof -
  have "left_len q \<le> left_len p" if p: "left_len p < Suc n" and q: "pbind (kw k) f p = Inr (q, r)" for p q r
  proof -
    have "kw k p \<noteq> Inr (q, None)" by (simp add: kw_def split: prod.splits)
    with q obtain p' b where p': "kw k p = Inr (p', Some b)" "f b p' = Inr (q, r)" by (auto simp: pbind_Inr_iff)
    have le: "left_len p' + (if b then length k else 0) \<le> left_len p" by (rule kw_len [OF p'(1)])
    have "left_len q \<le> left_len p'"
    proof (cases b)
      case True
      then have "left_len p' < n" using le p assms(3) by (cases k) auto
      then show ?thesis using assms(2) p'(2) True by (auto simp: reads_below_def)
    next
      case False
      then show ?thesis using assms(1) p'(2) le p by (auto simp: reads_below_def)
    qed
    then show ?thesis using le by (simp split: if_splits)
  qed
  then show ?thesis by (auto simp: reads_below_def)
qed

lemma reads_below_if: "(b \<Longrightarrow> reads_below n m) \<Longrightarrow> (\<not> b \<Longrightarrow> reads_below n m') \<Longrightarrow> reads_below n (\<lambda>p. if b then m p else m' p)"
  by (cases b) simp_all

lemmas reads_below_intros =
  reads_below_bind reads_below_if reads_below_reader [OF reader_ret] reads_below_reader [OF reader_fail]

lemma reader_column_constraints [readers]: "reader (column_constraints out hasPk)"
proof (rule reader_below)
  show "reads_below n (column_constraints out hasPk)" for n
  proof (induction n arbitrary: out hasPk)
    case (Suc n)
    show ?case
      by (subst ext [OF column_constraints.simps [of out hasPk]], (rule reads_below_kw, simp_all)+)
        (intro reads_below_intros token_readers need_readers reader_need Suc)+
  qed (simp add: reads_below_def)
qed

lemma column_spec_len: "parseColumnSpec hasPk p = Inr (p', Some x) \<Longrightarrow> left_len p' < left_len p"
  by (auto simp: parseColumnSpec_def pbind_Inr_iff
      dest!: need_ident_len readerD [OF reader_first_keyword] readerD [OF reader_need] readerD [OF reader_column_constraints])

section \<open>Table statements\<close>

datatype SqlStatement =
    DdlCreateTable Schema
  | DdlDropTable string
  | DdlAlterTable string AlterSpec
  | SqlTxnBegin
  | SqlTxnCommit
  | SqlTxnRollback
  | SqlCommand Command

definition sq :: "string \<Rightarrow> string" where
  "sq s = [CHR 0x27] @ s @ [CHR 0x27]"

definition comma_or_close :: "string \<Rightarrow> string" where
  "comma_or_close what = ''expected '' @ sq '','' @ '' or '' @ sq '')'' @ '' in '' @ what @ '' list''"

function column_list :: "bool \<Rightarrow> ColumnDef list \<Rightarrow> ColumnDef list parsing" where
  "column_list hasPk cols p =
     pbind (symbol '')'') (\<lambda>b p.
       if b then ret cols p
       else pbind (parseColumnSpec hasPk) (\<lambda>x p.
         case x of (col, hasPk) \<Rightarrow>
           pbind (symbol '','') (\<lambda>b p.
             if b then column_list hasPk (cols @ [col]) p
             else pbind (symbol '')'') (\<lambda>b p.
               if b then ret (cols @ [col]) p
               else fail_with (comma_or_close ''column'') p) p) p) p) p"
  by pat_completeness auto
termination
  by (relation "measure (\<lambda>(hasPk, cols, p). left_len p)")
    (auto dest!: symbol_len column_spec_len split: if_splits)

declare column_list.simps [simp del]

definition partition_clause :: "PartitionPolicy option parsing" where
  "partition_clause =
     pbind (kw ''PARTITION'') (\<lambda>b.
       if \<not> b then ret None
       else pbind (need_kw ''BY'' ''expected BY after PARTITION'') (\<lambda>_.
            pbind (need_kw ''HASH'' ''only HASH partitioning supported'') (\<lambda>_.
            pbind (need_symbol ''('' (''expected '' @ sq ''('' @ '' after HASH'')) (\<lambda>_.
            pbind (need_ident ''expected partition column name'') (\<lambda>col.
            pbind (need_symbol '')'' (''expected '' @ sq '')'' @ '' after partition column'')) (\<lambda>_.
            pbind (need_kw ''PARTITIONS'' ''expected PARTITIONS N'') (\<lambda>_.
            pbind (\<lambda>p. case consumeWord p of (p', w) \<Rightarrow> need w ''expected partition count'' p') (\<lambda>w.
            pbind (\<lambda>p. rbind (atoi w) (\<lambda>n. ret n p)) (\<lambda>n.
              if n \<le> 0 then fail_with ''partition count must be positive''
              else ret (Some (PartitionPolicy_init\<lparr>pp_kind := PHash, pp_column := col, pp_shardCount := word_of_int n\<rparr>)))))))))))"

definition parseCreateTable :: "SqlStatement parsing" where
  "parseCreateTable =
     pbind (need_ident ''expected table name after CREATE TABLE'') (\<lambda>name.
     pbind (need_symbol ''('' (''expected '' @ sq ''('' @ '' after table name'')) (\<lambda>_.
     pbind (column_list False []) (\<lambda>cols.
     pbind partition_clause (\<lambda>part.
       ret (DdlCreateTable \<lparr>sc_table = name, sc_columns = cols, sc_partition = part\<rparr>)))))"

definition parseDropTable :: "SqlStatement parsing" where
  "parseDropTable = pbind (need_ident ''expected table name after DROP TABLE'') (\<lambda>name. ret (DdlDropTable name))"

text \<open>The kind of a default-initialised \<open>AlterSpec\<close> is never read before it is set.\<close>

definition parseAlterTable :: "SqlStatement parsing" where
  "parseAlterTable =
     pbind (need_ident ''expected table name after ALTER TABLE'') (\<lambda>name.
     pbind (kw ''ADD'') (\<lambda>b.
       if b then
         pbind (need_kw ''COLUMN'' ''expected COLUMN after ADD'') (\<lambda>_.
         pbind (parseColumnSpec False) (\<lambda>(col, _).
           ret (DdlAlterTable name \<lparr>as_kind = AddColumn, as_column = cd_name col, as_columnDef = col\<rparr>)))
       else pbind (kw ''DROP'') (\<lambda>b.
         if b then
           pbind (need_kw ''COLUMN'' ''expected COLUMN after DROP'') (\<lambda>_.
           pbind (need_ident ''expected column name'') (\<lambda>col.
             ret (DdlAlterTable name \<lparr>as_kind = DropColumn, as_column = col, as_columnDef = ColumnDef_init\<rparr>)))
         else pbind (kw ''RENAME'') (\<lambda>b.
           if b then
             pbind (need_kw ''TO'' ''expected TO after RENAME'') (\<lambda>_.
             pbind (need_ident ''expected new table name after RENAME TO'') (\<lambda>new_name.
               ret (DdlAlterTable name \<lparr>as_kind = RenameTable, as_column = new_name, as_columnDef = ColumnDef_init\<rparr>)))
           else fail_with ''expected ADD, DROP, or RENAME after ALTER TABLE''))))"

section \<open>Predicates\<close>

definition parseComparisonOp :: "ComparisonOp option parsing" where
  "parseComparisonOp =
     pbind (kw ''IS'') (\<lambda>b.
       if b then
         pbind (kw ''NULL'') (\<lambda>b.
           if b then ret (Some IsNull)
           else pbind (kw ''NOT'') (\<lambda>b.
             if b then pbind (kw ''NULL'') (\<lambda>b.
               if b then ret (Some IsNotNull)
               else (\<lambda>p. ret None (set_error ''expected NULL after IS NOT'' p)))
             else (\<lambda>p. ret None (set_error ''expected NULL or NOT NULL after IS'' p))))
       else pbind (symbol ''='') (\<lambda>b. if b then ret (Some Equals)
       else pbind (symbol ''!='') (\<lambda>b. if b then ret (Some NotEquals)
       else pbind (symbol ''<='') (\<lambda>b. if b then ret (Some LessEquals)
       else pbind (symbol ''>='') (\<lambda>b. if b then ret (Some GreaterEquals)
       else pbind (symbol ''<'') (\<lambda>b. if b then ret (Some Less)
       else pbind (symbol ''>'') (\<lambda>b. if b then ret (Some Greater) else ret None)))))))"

text \<open>A failed comparison is a null pointer, which its caller may hang into a tree.\<close>

definition parsePrimExpr :: "PredicateNode option parsing" where
  "parsePrimExpr =
     pbind opt_ident (\<lambda>c. case c of
         None \<Rightarrow> (\<lambda>p. ret None (set_error ''expected column name in predicate'' p))
       | Some col \<Rightarrow>
           pbind parseComparisonOp (\<lambda>r. case r of
               None \<Rightarrow> (\<lambda>p. ret None (set_error ''expected comparison operator'' p))
             | Some cmp \<Rightarrow>
                 (if cmp = IsNull \<or> cmp = IsNotNull then ret (Some (ComparisonNode col cmp VNull))
                  else pbind opt_value (\<lambda>v. ret (map_option (ComparisonNode col cmp) v)))))"

function and_loop :: "PredicateNode option \<Rightarrow> PredicateNode option parsing" where
  "and_loop lhs p =
     pbind (kw ''AND'') (\<lambda>b p.
       if b then pbind parsePrimExpr (\<lambda>rhs p. and_loop (Some (LogicalNode And [lhs, rhs])) p) p
       else ret lhs p) p"
  by pat_completeness auto

lemma reader_parsePrimExpr [readers]: "reader parsePrimExpr"
proof -
  have err: "reader (\<lambda>p. ret x (set_error m p))" for x :: 'a and m by (simp add: reader_def ret_def left_len_def)
  have cmp: "reader parseComparisonOp" unfolding parseComparisonOp_def by (intro readers err)
  show ?thesis unfolding parsePrimExpr_def
    by (intro reader_pbind readers) (auto split: option.splits intro!: readers err cmp)
qed

termination and_loop
  by (relation "measure (\<lambda>(lhs, p). left_len p)")
    (auto dest!: kw_len readerD [OF reader_parsePrimExpr] split: if_splits)

declare and_loop.simps [simp del]

lemma reader_and_loop [readers]: "reader (and_loop lhs)"
proof (rule reader_below)
  show "reads_below n (and_loop lhs)" for n
  proof (induction n arbitrary: lhs)
    case (Suc n)
    show ?case
      by (subst ext [OF and_loop.simps [of lhs]], (rule reads_below_kw, simp_all)+)
        (intro reads_below_intros reader_parsePrimExpr Suc)+
  qed (simp add: reads_below_def)
qed

definition parseAndExpr :: "PredicateNode option parsing" where
  "parseAndExpr = pbind parsePrimExpr and_loop"

function or_loop :: "PredicateNode option \<Rightarrow> PredicateNode option parsing" where
  "or_loop lhs p =
     pbind (kw ''OR'') (\<lambda>b p.
       if b then pbind parseAndExpr (\<lambda>rhs p. or_loop (Some (LogicalNode Or [lhs, rhs])) p) p
       else ret lhs p) p"
  by pat_completeness auto

lemma reader_parseAndExpr [readers]: "reader parseAndExpr"
  unfolding parseAndExpr_def by (intro readers)

termination or_loop
  by (relation "measure (\<lambda>(lhs, p). left_len p)")
    (auto dest!: kw_len readerD [OF reader_parseAndExpr] split: if_splits)

declare or_loop.simps [simp del]

definition parseOrExpr :: "PredicateNode option parsing" where
  "parseOrExpr = pbind parseAndExpr or_loop"

definition parsePredicate :: "PredicateNode option parsing" where
  "parsePredicate = parseOrExpr"

text \<open>\<open>WHERE\<close>: a null predicate ends the statement.\<close>

definition where_clause :: "Predicate option parsing" where
  "where_clause =
     pbind (kw ''WHERE'') (\<lambda>b.
       if b then pbind parsePredicate (\<lambda>r p. case r of None \<Rightarrow> Inr (p, None) | Some n \<Rightarrow> ret (Some (Some n)) p)
       else ret None)"

section \<open>Row statements\<close>

definition make_command :: "CommandType \<Rightarrow> string \<Rightarrow> Predicate option \<Rightarrow> Tuple option \<Rightarrow> string list \<Rightarrow> Command parsing" where
  "make_command ty table wh vals proj p = rbind (mkCommand ty table wh vals proj None) (\<lambda>c. ret c p)"

text \<open>The value list: every exit returns the columns read so far, named by their position.\<close>

function value_list :: "Tuple \<Rightarrow> Tuple parsing" where
  "value_list t p =
     pbind opt_value (\<lambda>r p.
       case r of
         None \<Rightarrow> ret t p
       | Some v \<Rightarrow>
           pbind (symbol '','') (\<lambda>b p.
             if b then value_list (tset t (show_nat (tuple_size t)) v) p
             else pbind (symbol '')'') (\<lambda>b p.
               ret (tset t (show_nat (tuple_size t)) v) (if b then p else set_error (comma_or_close ''value'') p)) p) p) p"
  by pat_completeness auto
termination
  by (relation "measure (\<lambda>(t, p). left_len p)") (auto dest!: opt_value_len symbol_len split: if_splits)

declare value_list.simps [simp del]

definition parseInsertValueList :: "Tuple parsing" where
  "parseInsertValueList =
     pbind (symbol ''('') (\<lambda>b p.
       if b then value_list Tuple_empty p
       else ret Tuple_empty (set_error (''expected '' @ sq ''('' @ '' after VALUES'') p))"

function insert_columns :: "string list \<Rightarrow> string list parsing" where
  "insert_columns cols p =
     pbind (need_ident ''expected column name'') (\<lambda>col p.
     pbind (symbol '','') (\<lambda>b p.
       if b then insert_columns (cols @ [col]) p
       else pbind (symbol '')'') (\<lambda>b p.
         if b then ret (cols @ [col]) p else fail_with (comma_or_close ''column'') p) p) p) p"
  by pat_completeness auto
termination
  by (relation "measure (\<lambda>(cols, p). left_len p)") (auto dest!: need_ident_len symbol_len split: if_splits)

declare insert_columns.simps [simp del]

text \<open>The column list of an INSERT is parsed and not used.\<close>

definition parseInsert :: "Command parsing" where
  "parseInsert =
     pbind (kw ''INTO'') (\<lambda>_.
     pbind (need_ident ''expected table name after INSERT'') (\<lambda>table.
     pbind (symbol ''('') (\<lambda>b.
     pbind (if b then insert_columns [] else ret []) (\<lambda>columns.
     pbind (kw ''VALUES'') (\<lambda>b.
       if b then pbind parseInsertValueList (\<lambda>t. make_command Insert table None (Some t) [])
       else pbind (kw ''DEFAULT'') (\<lambda>b.
         if b then pbind (need_kw ''VALUES'' ''expected VALUES after DEFAULT'') (\<lambda>_.
                make_command Insert table None (Some Tuple_empty) [])
         else fail_with ''expected VALUES or DEFAULT VALUES''))))))"

function projection_list :: "string list \<Rightarrow> string list parsing" where
  "projection_list cols p =
     pbind (need_ident ''expected column name in SELECT'') (\<lambda>col p.
     pbind (symbol '','') (\<lambda>b p.
       if b then projection_list (cols @ [col]) p else ret (cols @ [col]) p) p) p"
  by pat_completeness auto
termination
  by (relation "measure (\<lambda>(cols, p). left_len p)") (auto dest!: need_ident_len symbol_len split: if_splits)

declare projection_list.simps [simp del]

definition order_direction :: "SortDirection parsing" where
  "order_direction =
     pbind (kw ''ASC'') (\<lambda>b. if b then ret Asc else pbind (kw ''DESC'') (\<lambda>b. ret (if b then Desc else Asc)))"

definition nulls_clause :: "bool option parsing" where
  "nulls_clause =
     pbind (kw ''NULLS'') (\<lambda>b.
       if b then pbind (kw ''FIRST'') (\<lambda>b.
         if b then ret (Some True)
         else pbind (kw ''LAST'') (\<lambda>b.
           if b then ret (Some False) else fail_with ''expected FIRST or LAST after NULLS''))
       else ret None)"

lemma reader_order_parts [readers]: "reader order_direction" "reader nulls_clause"
  unfolding order_direction_def nulls_clause_def by (intro readers)+

function order_list :: "OrderBySpec list \<Rightarrow> OrderBySpec list parsing" where
  "order_list specs p =
     pbind (need_ident ''expected column name in ORDER BY'') (\<lambda>col p.
     pbind order_direction (\<lambda>dir p.
     pbind nulls_clause (\<lambda>nulls p.
     pbind (symbol '','') (\<lambda>b p.
       let specs = specs @ [\<lparr>ob_column = col, ob_direction = dir, ob_nullsFirst = nulls\<rparr>]
       in if b then order_list specs p else ret specs p) p) p) p) p"
  by pat_completeness auto
termination
  by (relation "measure (\<lambda>(specs, p). left_len p)")
    (auto dest!: need_ident_len symbol_len readerD [OF reader_order_parts(1)] readerD [OF reader_order_parts(2)] split: if_splits)

declare order_list.simps [simp del]

definition order_clause :: "OrderBySpec list parsing" where
  "order_clause =
     pbind (kw ''ORDER'') (\<lambda>b.
       if b then pbind (need_kw ''BY'' ''expected BY after ORDER'') (\<lambda>_. order_list [])
       else ret [])"

text \<open>\<open>static_cast<std::size_t>\<close> of an integer literal: a negative count becomes a huge one.\<close>

definition count_value :: "string \<Rightarrow> nat parsing" where
  "count_value msg =
     pbind opt_value (\<lambda>v. case v of
         Some (VInt64 i) \<Rightarrow> ret (unat i)
       | Some (VInt32 i) \<Rightarrow> ret (unat (scast i :: u64))
       | _ \<Rightarrow> fail_with msg)"

definition offset_clause :: "nat option parsing" where
  "offset_clause =
     pbind (kw ''OFFSET'') (\<lambda>b.
       if b then pbind (count_value ''expected integer after OFFSET'') (\<lambda>n. ret (Some n)) else ret None)"

definition limit_clause :: "(nat option \<times> nat option) parsing" where
  "limit_clause =
     pbind (kw ''LIMIT'') (\<lambda>b.
       if b then pbind (count_value ''expected integer after LIMIT'') (\<lambda>n.
         pbind offset_clause (\<lambda>m. ret (Some n, m)))
       else pbind offset_clause (\<lambda>m. ret (None, m)))"

text \<open>\<open>None\<close>: the loop over the joins ends; \<open>INNER\<close> or \<open>LEFT\<close> without \<open>JOIN\<close> is dropped.\<close>

definition join_kind :: "JoinKind option parsing" where
  "join_kind =
     pbind (kw ''INNER'') (\<lambda>b.
       if b then pbind (kw ''JOIN'') (\<lambda>b. ret (if b then Some Inner else None))
       else pbind (kw ''LEFT'') (\<lambda>b.
         if b then pbind (kw ''JOIN'') (\<lambda>b. ret (if b then Some LeftJoin else None))
         else pbind (kw ''JOIN'') (\<lambda>b. ret (if b then Some Inner else None))))"

definition join_rest :: "JoinKind \<Rightarrow> JoinClause parsing" where
  "join_rest kind =
     pbind (need_ident ''expected table name after JOIN'') (\<lambda>table.
     pbind (need_kw ''ON'' ''expected ON after JOIN table'') (\<lambda>_.
     pbind (need_ident ''expected left table in JOIN ON'') (\<lambda>lt.
     pbind (need_symbol ''.'' (''expected '' @ sq ''.'' @ '' in JOIN ON left'')) (\<lambda>_.
     pbind (need_ident ''expected left column in JOIN ON'') (\<lambda>lc.
     pbind (need_symbol ''='' (''expected '' @ sq ''='' @ '' in JOIN ON'')) (\<lambda>_.
     pbind (need_ident ''expected right table in JOIN ON'') (\<lambda>rt.
     pbind (need_symbol ''.'' (''expected '' @ sq ''.'' @ '' in JOIN ON right'')) (\<lambda>_.
     pbind (need_ident ''expected right column in JOIN ON'') (\<lambda>rc.
       ret \<lparr>jc_kind = kind, jc_table = table, jc_leftColumn = lt @ ''.'' @ lc, jc_rightColumn = rt @ ''.'' @ rc\<rparr>)))))))))"

lemma reader_join_kind [readers]: "reader join_kind"
  unfolding join_kind_def by (intro readers)

lemma join_rest_len: "join_rest kind p = Inr (p', Some j) \<Longrightarrow> left_len p' < left_len p"
  by (auto simp: join_rest_def pbind_Inr_iff ret_def dest!: need_ident_len need_kw_len need_symbol_len)

function join_list :: "JoinClause list \<Rightarrow> JoinClause list parsing" where
  "join_list js p =
     pbind join_kind (\<lambda>k p.
       case k of
         None \<Rightarrow> ret js p
       | Some kind \<Rightarrow> pbind (join_rest kind) (\<lambda>j p. join_list (js @ [j]) p) p) p"
  by pat_completeness auto
termination
  by (relation "measure (\<lambda>(js, p). left_len p)")
    (auto dest!: readerD [OF reader_join_kind] join_rest_len)

declare join_list.simps [simp del]

definition select_projections :: "string list parsing" where
  "select_projections = pbind (symbol ''*'') (\<lambda>b. if b then ret [''*''] else projection_list [])"

text \<open>What follows the table: the clauses, the command and its joins.\<close>

definition select_clauses :: "string list \<Rightarrow> string \<Rightarrow> Command parsing" where
  "select_clauses proj table =
     pbind where_clause (\<lambda>wh.
     pbind order_clause (\<lambda>order.
     pbind limit_clause (\<lambda>(lim, off).
     pbind (make_command Select table wh None proj) (\<lambda>cmd.
     pbind (join_list []) (\<lambda>js.
       ret (cmd\<lparr>cmd_orderBy := order, cmd_limit := lim, cmd_offset := off, cmd_joins := js\<rparr>))))))"

definition parseSelect :: "Command parsing" where
  "parseSelect =
     pbind select_projections (\<lambda>proj.
     pbind (need_kw ''FROM'' ''expected FROM after SELECT'') (\<lambda>_.
     pbind (need_ident ''expected table name after FROM'') (\<lambda>table. select_clauses proj table)))"

function set_list :: "Tuple \<Rightarrow> Tuple parsing" where
  "set_list t p =
     pbind (need_ident ''expected column name in SET'') (\<lambda>col p.
     pbind (need_symbol ''='' (''expected '' @ sq ''='' @ '' after column'')) (\<lambda>_ p.
     pbind opt_value (\<lambda>v p.
       case v of
         None \<Rightarrow> Inr (p, None)
       | Some w \<Rightarrow>
           pbind (symbol '','') (\<lambda>b p.
             if b then set_list (tset t col w) p else ret (tset t col w) p) p) p) p) p"
  by pat_completeness auto
termination
  by (relation "measure (\<lambda>(t, p). left_len p)")
    (auto dest!: need_ident_len need_symbol_len opt_value_len symbol_len split: if_splits)

declare set_list.simps [simp del]

definition parseUpdate :: "Command parsing" where
  "parseUpdate =
     pbind (need_ident ''expected table name after UPDATE'') (\<lambda>table.
     pbind (need_kw ''SET'' ''expected SET after table name'') (\<lambda>_.
     pbind (set_list Tuple_empty) (\<lambda>vals.
     pbind where_clause (\<lambda>wh. make_command Update table wh (Some vals) []))))"

definition parseDelete :: "Command parsing" where
  "parseDelete =
     pbind (kw ''FROM'') (\<lambda>_.
     pbind (need_ident ''expected table name after DELETE'') (\<lambda>table.
     pbind where_clause (\<lambda>wh. make_command Delete table wh None [])))"

section \<open>Statements\<close>

definition as_statement :: "Command parsing \<Rightarrow> SqlStatement parsing" where
  "as_statement m = pbind m (\<lambda>c. ret (SqlCommand c))"

definition table_keyword :: "string \<Rightarrow> SqlStatement parsing \<Rightarrow> SqlStatement parsing" where
  "table_keyword what m = pbind (need_kw ''TABLE'' (''expected TABLE after '' @ what)) (\<lambda>_. m)"

definition statements :: "(string \<times> SqlStatement parsing) list" where
  "statements =
     [(''CREATE'', table_keyword ''CREATE'' parseCreateTable),
      (''DROP'', table_keyword ''DROP'' parseDropTable),
      (''ALTER'', table_keyword ''ALTER'' parseAlterTable),
      (''INSERT'', as_statement parseInsert),
      (''SELECT'', as_statement parseSelect),
      (''UPDATE'', as_statement parseUpdate),
      (''DELETE'', as_statement parseDelete),
      (''BEGIN'', pbind (kw ''TRANSACTION'') (\<lambda>_. ret SqlTxnBegin)),
      (''COMMIT'', ret SqlTxnCommit),
      (''ROLLBACK'', ret SqlTxnRollback)]"

definition parseStatement :: "SqlStatement parsing" where
  "parseStatement p =
     (let p = skipWhitespaceAndComments p
      in if sp_rest p = [] then fail_with ''empty statement'' p
         else pbind (first_keyword statements) (\<lambda>m. case m of
                Some body \<Rightarrow> body | None \<Rightarrow> fail_with ''unknown statement type'') p)"

definition sql_init :: SqlParser where
  "sql_init = \<lparr>sp_rest = [], sp_pos = 0, sp_error = []\<rparr>"

definition sql_parse :: "string \<Rightarrow> SqlParser \<Rightarrow> (SqlParser \<times> SqlStatement option) result" where
  "sql_parse text p = parseStatement (p\<lparr>sp_rest := text, sp_pos := 0, sp_error := []\<rparr>)"

text \<open>The pieces of a text between semicolons outside of quotes.\<close>

fun split_statements :: "string \<Rightarrow> bool \<Rightarrow> bool \<Rightarrow> string \<Rightarrow> string list" where
  "split_statements [] inSingle inDouble piece =
     (if \<not> inSingle \<and> \<not> inDouble \<or> piece \<noteq> [] then [piece] else [])"
| "split_statements (c # cs) inSingle inDouble piece =
     (if c = CHR 0x27 \<and> \<not> inDouble then split_statements cs (\<not> inSingle) inDouble (piece @ [c])
      else if c = CHR 0x22 \<and> \<not> inSingle then split_statements cs inSingle (\<not> inDouble) (piece @ [c])
      else if c = CHR '';'' \<and> \<not> inSingle \<and> \<not> inDouble then piece # split_statements cs inSingle inDouble []
      else split_statements cs inSingle inDouble (piece @ [c]))"

text \<open>\<open>out.push_back(*parsed)\<close> copies the statement and with it the predicate of a command.\<close>

definition copy_command :: "Command \<Rightarrow> Command result" where
  "copy_command c =
     (case cmd_where c of
        None \<Rightarrow> Inr c
      | Some w \<Rightarrow> rbind (copy_predicate w) (\<lambda>w'. Inr (c\<lparr>cmd_where := Some w'\<rparr>)))"

definition copy_statement :: "SqlStatement \<Rightarrow> SqlStatement result" where
  "copy_statement s = (case s of SqlCommand c \<Rightarrow> rbind (copy_command c) (\<lambda>c. Inr (SqlCommand c)) | _ \<Rightarrow> Inr s)"

fun parse_pieces :: "string list \<Rightarrow> SqlParser \<Rightarrow> (SqlParser \<times> SqlStatement list) result" where
  "parse_pieces [] p = Inr (p, [])"
| "parse_pieces (s # ss) p =
     rbind (sql_parse s p) (\<lambda>(p, r).
     rbind (case r of None \<Rightarrow> Inr [] | Some st \<Rightarrow> rbind (copy_statement st) (\<lambda>st'. Inr [st'])) (\<lambda>out.
     rbind (parse_pieces ss p) (\<lambda>(p, rest). Inr (p, out @ rest))))"

definition parseAll :: "string \<Rightarrow> SqlParser \<Rightarrow> (SqlParser \<times> SqlStatement list) result" where
  "parseAll text = parse_pieces (split_statements text False False [])"

end
