(* ===== verification/Json_Text.thy ===== *)
theory Json_Text
  imports Tuples
begin

unbundle bit_operations_syntax

text \<open>
  The JSON encoder of \<open>frontend/JsonEncoder.hpp\<close>: values, rows, result sets and errors as JSON texts, with
  Base64 for blobs and ISO dates. Strings are lists of bytes, as \<open>std::string\<close> is. The decoder of
  Base64 and the strings of the request parser (theory \<open>Json_Request\<close>) are the inverses.
\<close>

section \<open>Strings\<close>

definition hex_digit :: "nat \<Rightarrow> char" where
  "hex_digit d = (if d < 10 then char_of (48 + d) else char_of (55 + d))"

definition escape_char :: "char \<Rightarrow> string" where
  "escape_char c =
     (if c = CHR 0x22 then [CHR 0x5C, CHR 0x22]
      else if c = CHR 0x5C then [CHR 0x5C, CHR 0x5C]
      else if c = CHR 0x08 then [CHR 0x5C, CHR ''b'']
      else if c = CHR 0x0C then [CHR 0x5C, CHR ''f'']
      else if c = CHR 0x0A then [CHR 0x5C, CHR ''n'']
      else if c = CHR 0x0D then [CHR 0x5C, CHR ''r'']
      else if c = CHR 0x09 then [CHR 0x5C, CHR ''t'']
      else if (of_char c :: nat) < 32
      then [CHR 0x5C, CHR ''u'', CHR ''0'', CHR ''0'', hex_digit (of_char c div 16), hex_digit (of_char c mod 16)]
      else [c])"

definition escapeJson :: "string \<Rightarrow> string" where
  "escapeJson s = concat (map escape_char s)"

definition json_quote :: "string \<Rightarrow> string" where
  "json_quote s = CHR 0x22 # s @ [CHR 0x22]"

section \<open>Base64\<close>

definition kAlphabet :: string where
  "kAlphabet = ''ABCDEFGHIJKLMNOPQRSTUVWXYZabcdefghijklmnopqrstuvwxyz0123456789+/''"

definition sextet :: "u32 \<Rightarrow> nat \<Rightarrow> char" where
  "sextet n k = kAlphabet ! unat (drop_bit k n AND 0x3F)"

fun base64Encode :: "bytes \<Rightarrow> string" where
  "base64Encode (a # b # c # bs) =
     (let n = push_bit 16 (ucast a) OR push_bit 8 (ucast b) OR ucast c :: u32
      in sextet n 18 # sextet n 12 # sextet n 6 # sextet n 0 # base64Encode bs)"
| "base64Encode [a] =
     (let n = push_bit 16 (ucast a) :: u32 in [sextet n 18, sextet n 12, CHR ''='', CHR ''=''])"
| "base64Encode [a, b] =
     (let n = push_bit 16 (ucast a) OR push_bit 8 (ucast b) :: u32
      in [sextet n 18, sextet n 12, sextet n 6, CHR ''=''])"
| "base64Encode [] = []"

section \<open>Dates\<close>

text \<open>\<open>setw\<close> with \<open>setfill('0')\<close> pads in front of the sign; the arithmetic is in 64 bits and does not overflow.\<close>

definition fill_zero :: "nat \<Rightarrow> int \<Rightarrow> string" where
  "fill_zero w i = pad_left (CHR ''0'') w (show_int i)"

definition encodeIsoDate :: "int \<Rightarrow> string" where
  "encodeIsoDate days =
     (case civil_from_days days of (y, m, d) \<Rightarrow>
        fill_zero 4 y @ ''-'' @ fill_zero 2 m @ ''-'' @ fill_zero 2 d)"

definition encodeIsoTimestamp :: "int \<Rightarrow> string result" where
  "encodeIsoTimestamp ms =
     (let days0 = signed_take_bit 31 (ms sdiv 86400000);
          rem0 = ms smod 86400000;
          rem = (if rem0 < 0 then rem0 + 86400000 else rem0);
          days = (if rem0 < 0 then days0 - 1 else days0);
          h = rem sdiv 3600000; rem1 = rem smod 3600000;
          mn = rem1 sdiv 60000; rem2 = rem1 smod 60000
      in if days < - (2 ^ 31) then Inl Undefined
         else Inr (encodeIsoDate days @ ''T'' @ fill_zero 2 h @ '':'' @ fill_zero 2 mn @ '':'' @
                   fill_zero 2 (rem2 sdiv 1000) @ ''.'' @ fill_zero 3 (rem2 smod 1000) @ ''Z''))"

section \<open>Values, rows, results\<close>

fun encode_value :: "Value \<Rightarrow> string result" where
  "encode_value VNull = Inr ''null''"
| "encode_value (VBool b) = Inr (if b then ''true'' else ''false'')"
| "encode_value (VInt32 i) = Inr (show_int (sint i))"
| "encode_value (VInt64 i) = Inr (show_int (sint i))"
| "encode_value (VDouble d) = Inr (d_show d)"
| "encode_value (VText s) = Inr (json_quote (escapeJson s))"
| "encode_value (VBlob b) = Inr (json_quote (base64Encode b))"
| "encode_value (VDate i) = Inr (json_quote (encodeIsoDate (sint i)))"
| "encode_value (VTimestamp i) = rbind (encodeIsoTimestamp (sint i)) (\<lambda>s. Inr (json_quote s))"

definition encode_member :: "ColumnValue \<Rightarrow> string result" where
  "encode_member cv = rbind (encode_value (snd cv)) (\<lambda>s. Inr (json_quote (escapeJson (fst cv)) @ '':'' @ s))"

definition encodeTuple :: "Tuple \<Rightarrow> string result" where
  "encodeTuple t = rbind (join_results '','' (map encode_member (tcolumns t))) (\<lambda>s. Inr (''{'' @ s @ ''}''))"

definition encode_rows :: "(Tuple \<Rightarrow> string result) \<Rightarrow> ResultSet \<Rightarrow> string result" where
  "encode_rows enc rs =
     rbind (join_results '','' (map enc (rs_rows rs))) (\<lambda>s.
       Inr (''{'' @ json_quote ''success'' @ '':'' @ (if rs_success rs then ''true'' else ''false'') @ '','' @
            json_quote ''rows'' @ '':['' @ s @ '']}''))"

definition encode_result :: "ResultSet \<Rightarrow> string result" where
  "encode_result = encode_rows encodeTuple"

definition encode_error :: "DbError \<Rightarrow> string" where
  "encode_error e =
     ''{'' @ json_quote ''success'' @ '':false,'' @ json_quote ''error'' @ '':'' @ json_quote (escapeJson (error_toString e)) @ ''}''"

definition encodeArray :: "Tuple \<Rightarrow> string result" where
  "encodeArray t = rbind (join_results '','' (map (\<lambda>cv. encode_value (snd cv)) (tcolumns t))) (\<lambda>s. Inr (''['' @ s @ '']''))"

definition encodeArray_result :: "ResultSet \<Rightarrow> string result" where
  "encodeArray_result = encode_rows encodeArray"

section \<open>Base64 is invertible\<close>

text \<open>The reference decoder: four characters give three bytes, padding shortens the last group.\<close>

fun position :: "char \<Rightarrow> string \<Rightarrow> nat" where
  "position c [] = 0"
| "position c (d # ds) = (if c = d then 0 else Suc (position c ds))"

definition sextet_of :: "char \<Rightarrow> u32" where
  "sextet_of c = of_nat (position c kAlphabet)"

definition group_of :: "char \<Rightarrow> char \<Rightarrow> char \<Rightarrow> char \<Rightarrow> u32" where
  "group_of p q r s = push_bit 18 (sextet_of p) OR push_bit 12 (sextet_of q) OR push_bit 6 (sextet_of r) OR sextet_of s"

fun base64_decode :: "string \<Rightarrow> bytes" where
  "base64_decode (p # q # r # s # cs) =
     (if r = CHR ''='' then [ucast (drop_bit 16 (group_of p q (CHR ''A'') (CHR ''A'')))]
      else if s = CHR ''=''
      then [ucast (drop_bit 16 (group_of p q r (CHR ''A''))), ucast (drop_bit 8 (group_of p q r (CHR ''A'')))]
      else ucast (drop_bit 16 (group_of p q r s)) # ucast (drop_bit 8 (group_of p q r s)) # ucast (group_of p q r s) # base64_decode cs)"
| "base64_decode cs = []"

lemma position_nth: "distinct ds \<Longrightarrow> i < length ds \<Longrightarrow> position (ds ! i) ds = i"
proof (induction ds arbitrary: i)
  case (Cons d ds)
  then show ?case by (cases i) auto
qed simp

lemma alphabet: "distinct kAlphabet" "length kAlphabet = 64" "CHR ''='' \<notin> set kAlphabet"
  by (simp_all add: kAlphabet_def)

lemma sextet_index: "unat (drop_bit k n AND 0x3F :: u32) < 64"
proof -
  have "drop_bit k n AND 0x3F \<le> (0x3F :: u32)" by (rule word_and_le1)
  then have "unat (drop_bit k n AND 0x3F :: u32) \<le> unat (0x3F :: u32)" by (simp only: word_le_nat_alt)
  then show ?thesis by simp
qed

lemma sextet_of_sextet: "sextet_of (sextet n k) = drop_bit k n AND 0x3F"
  using sextet_index [of k n] by (simp add: sextet_of_def sextet_def position_nth alphabet)

lemma sextet_not_pad: "sextet n k \<noteq> CHR ''=''"
proof -
  have "sextet n k \<in> set kAlphabet" unfolding sextet_def by (rule nth_mem) (simp add: alphabet sextet_index)
  then show ?thesis using alphabet(3) by metis
qed

lemma low_six: "(0x3F :: u32) = mask 6"
  by (simp add: mask_eq_exp_minus_1)

lemma regroup:
  "push_bit 18 (drop_bit 18 n AND 0x3F) OR push_bit 12 (drop_bit 12 n AND 0x3F) OR push_bit 6 (drop_bit 6 n AND 0x3F) OR (drop_bit 0 n AND 0x3F)
     = n AND mask 24" for n :: u32
  unfolding low_six
proof (rule bit_word_eqI)
  fix k
  show "bit (push_bit 18 (drop_bit 18 n AND mask 6) OR push_bit 12 (drop_bit 12 n AND mask 6) OR push_bit 6 (drop_bit 6 n AND mask 6)
      OR (drop_bit 0 n AND mask 6)) k = bit (n AND mask 24) k"
    by (cases "k < 6"; cases "k < 12"; cases "k < 18") (auto simp: bit_simps)
qed

lemma group_bytes:
  fixes a b c :: u8
  defines "n \<equiv> push_bit 16 (ucast a) OR push_bit 8 (ucast b) OR ucast c :: u32"
  shows "ucast (drop_bit 16 (n AND mask 24)) = a" "ucast (drop_bit 8 (n AND mask 24)) = b" "ucast (n AND mask 24) = c"
  unfolding n_def by (rule bit_word_eqI; auto simp: bit_simps dest: bit_imp_le_length)+

lemma sextet_zero: "sextet_of (CHR ''A'') = 0"
  by (simp add: sextet_of_def kAlphabet_def)

lemma group_sextets:
  "group_of (sextet n 18) (sextet n 12) (sextet n 6) (sextet n 0) = n AND mask 24"
  "drop_bit 0 n AND 0x3F = 0 \<Longrightarrow> group_of (sextet n 18) (sextet n 12) (sextet n 6) (CHR ''A'') = n AND mask 24"
  "drop_bit 0 n AND 0x3F = 0 \<Longrightarrow> drop_bit 6 n AND 0x3F = 0 \<Longrightarrow> group_of (sextet n 18) (sextet n 12) (CHR ''A'') (CHR ''A'') = n AND mask 24"
  unfolding group_of_def sextet_of_sextet sextet_zero regroup [of n, symmetric] by (simp_all only:)

lemma base64_roundtrip: "base64_decode (base64Encode bs) = bs"
proof (induction bs rule: base64Encode.induct)
  case (1 a b c bs)
  then show ?case using group_bytes [of a b c] by (simp add: Let_def sextet_not_pad group_sextets)
next
  case (2 a)
  have "drop_bit 0 (push_bit 16 (ucast a) :: u32) AND 0x3F = 0" "drop_bit 6 (push_bit 16 (ucast a) :: u32) AND 0x3F = 0"
    unfolding low_six by (rule bit_word_eqI; auto simp: bit_simps)+
  then have "group_of (sextet (push_bit 16 (ucast a)) 18) (sextet (push_bit 16 (ucast a)) 12) (CHR ''A'') (CHR ''A'') = push_bit 16 (ucast a) AND mask 24"
    by (rule group_sextets(3))
  then show ?case using group_bytes(1) [of a 0 0] by (simp add: Let_def)
next
  case (3 a b)
  let ?n = "push_bit 16 (ucast a) OR push_bit 8 (ucast b) :: u32"
  have "drop_bit 0 ?n AND 0x3F = 0"
    unfolding low_six by (rule bit_word_eqI; auto simp: bit_simps)
  then have "group_of (sextet ?n 18) (sextet ?n 12) (sextet ?n 6) (CHR ''A'') = ?n AND mask 24" by (rule group_sextets(2))
  then show ?case using group_bytes(1,2) [of a b 0] by (simp add: Let_def sextet_not_pad)
qed simp

lemma base64_length: "length (base64Encode bs) = 4 * ((length bs + 2) div 3)"
proof (induction bs rule: base64Encode.induct)
  case (1 a b c bs)
  have "(length (a # b # c # bs) + 2) div 3 = Suc ((length bs + 2) div 3)" by simp
  with 1 show ?case by (simp only: base64Encode.simps Let_def list.size) simp
qed (simp_all add: Let_def)

lemma base64_chars: "set (base64Encode bs) \<subseteq> insert (CHR ''='') (set kAlphabet)"
proof -
  have "sextet n k \<in> set kAlphabet" for n k unfolding sextet_def by (rule nth_mem) (simp add: alphabet sextet_index)
  then show ?thesis by (induction bs rule: base64Encode.induct) (auto simp: Let_def)
qed

end
