(* ===== verification/Json_Request.thy ===== *)
theory Json_Request
  imports Json_Text
begin

text \<open>
  The request parser of \<open>frontend/JsonEncoder.hpp\<close> (\<open>json_detail::JsonParser\<close>, \<open>parseJsonRequest\<close>). The parser
  only reads forward, so the state is the text that is left; a method that returns \<open>false\<close> makes all its callers
  return \<open>false\<close>, so it is \<open>None\<close> here. \<open>skipValue\<close> recurses through objects and arrays: one function with the loop
  it is in as an argument, which terminates because every value takes input.
\<close>

section \<open>Strings and numbers\<close>

definition skipWhitespace :: "string \<Rightarrow> string" where
  "skipWhitespace s = dropWhile (\<lambda>c. c = CHR '' '' \<or> c = CHR 0x09 \<or> c = CHR 0x0A \<or> c = CHR 0x0D) s"

definition hex_value :: "char \<Rightarrow> nat option" where
  "hex_value h =
     (if CHR ''0'' \<le> h \<and> h \<le> CHR ''9'' then Some (of_char h - 48)
      else if CHR ''a'' \<le> h \<and> h \<le> CHR ''f'' then Some (of_char h - 97 + 10)
      else if CHR ''A'' \<le> h \<and> h \<le> CHR ''F'' then Some (of_char h - 65 + 10)
      else None)"

fun hex_code :: "string \<Rightarrow> nat \<Rightarrow> nat option" where
  "hex_code [] code = Some code"
| "hex_code (h # hs) code = (case hex_value h of None \<Rightarrow> None | Some v \<Rightarrow> hex_code hs (code * 16 + v))"

text \<open>UTF-8 of a code point below \<open>0x10000\<close>.\<close>

definition utf8 :: "nat \<Rightarrow> string" where
  "utf8 code =
     (if code < 0x80 then [char_of code]
      else if code < 0x800 then [char_of (0xC0 + code div 64), char_of (0x80 + code mod 64)]
      else [char_of (0xE0 + code div 4096), char_of (0x80 + (code div 64) mod 64), char_of (0x80 + code mod 64)])"

definition simple_escape :: "char \<Rightarrow> char option" where
  "simple_escape e =
     (if e = CHR 0x22 then Some (CHR 0x22)
      else if e = CHR 0x5C then Some (CHR 0x5C)
      else if e = CHR ''/'' then Some (CHR ''/'')
      else if e = CHR ''b'' then Some (CHR 0x08)
      else if e = CHR ''f'' then Some (CHR 0x0C)
      else if e = CHR ''n'' then Some (CHR 0x0A)
      else if e = CHR ''r'' then Some (CHR 0x0D)
      else if e = CHR ''t'' then Some (CHR 0x09)
      else None)"

text \<open>One escape sequence after its backslash: the characters it stands for and the text left.\<close>

fun escape_sequence :: "string \<Rightarrow> (string \<times> string) option" where
  "escape_sequence [] = None"
| "escape_sequence (e # cs) =
     (case simple_escape e of
        Some c \<Rightarrow> Some ([c], cs)
      | None \<Rightarrow>
          (if e \<noteq> CHR ''u'' \<or> length cs < 4 then None
           else map_option (\<lambda>code. (utf8 code, drop 4 cs)) (hex_code (take 4 cs) 0)))"

lemma escape_sequence_shorter: "escape_sequence s = Some (t, r) \<Longrightarrow> length r < length s"
  by (cases s) (auto split: option.splits if_splits)

function string_chars :: "string \<Rightarrow> (string \<times> string) option" where
  "string_chars [] = None"
| "string_chars (c # cs) =
     (if c = CHR 0x22 then Some ([], cs)
      else if c = CHR 0x5C
      then (case escape_sequence cs of None \<Rightarrow> None
            | Some (t, r) \<Rightarrow> map_option (\<lambda>(u, r'). (t @ u, r')) (string_chars r))
      else map_option (\<lambda>(u, r'). (c # u, r')) (string_chars cs))"
  by pat_completeness auto
termination
  by (relation "measure length") (auto dest!: escape_sequence_shorter)

fun parseString :: "string \<Rightarrow> (string \<times> string) option" where
  "parseString (c # cs) = (if c = CHR 0x22 then string_chars cs else None)"
| "parseString [] = None"

definition sign_char :: "char \<Rightarrow> bool" where
  "sign_char c \<longleftrightarrow> c = CHR ''-'' \<or> c = CHR ''+''"

definition after_sign :: "string \<Rightarrow> string" where
  "after_sign s = (if s \<noteq> [] \<and> sign_char (hd s) then tl s else s)"

definition parseNumberAsString :: "string \<Rightarrow> (string \<times> string) option" where
  "parseNumberAsString s0 =
     (let s = skipWhitespace s0; r = dropWhile is_digit (after_sign s); n = take (length s - length r) s
      in if n = [] then None else Some (n, r))"

text \<open>\<open>std::stoull\<close> on a sign and digits: no digits or a value beyond 64 bits throw; a minus negates modulo 2^64.\<close>

definition stoull :: "string \<Rightarrow> u64 option" where
  "stoull v =
     (let ds = after_sign v; n = read_nat ds
      in if ds = [] \<or> 2 ^ 64 \<le> n then None
         else Some (if hd v = CHR ''-'' then - of_nat n else of_nat n))"

lemma length_skipWhitespace: "length (skipWhitespace s) \<le> length s"
  by (simp add: skipWhitespace_def length_dropWhile_le)

lemma string_chars_shorter: "string_chars s = Some (t, r) \<Longrightarrow> length r < length s"
proof (induction s arbitrary: t rule: string_chars.induct)
  case (2 c cs)
  then show ?case by (fastforce dest!: escape_sequence_shorter split: if_splits option.splits)
qed simp

lemma parseString_shorter: "parseString s = Some (t, r) \<Longrightarrow> length r < length s"
  by (cases s) (auto dest: string_chars_shorter split: if_splits)

lemma after_sign_length: "length (after_sign s) \<le> length s"
  by (simp add: after_sign_def)

lemma parseNumber_shorter: "parseNumberAsString s = Some (t, r) \<Longrightarrow> length r < length s"
  using length_skipWhitespace [of s] by (auto simp: parseNumberAsString_def Let_def split: if_splits)

section \<open>Skipping a value\<close>

datatype skipping = SkipValue | SkipMembers | SkipElements

definition skip_literal :: "string \<Rightarrow> string \<Rightarrow> string option" where
  "skip_literal w s = (if take (length w) s = w then Some (drop (length w) s) else None)"

definition skip_number :: "string \<Rightarrow> string" where
  "skip_number s = dropWhile is_digit (after_sign s)"

text \<open>After a value inside of an object or an array: a comma goes on, the closing character ends.\<close>

definition separator :: "char \<Rightarrow> string \<Rightarrow> (bool \<times> string) option" where
  "separator close s =
     (case skipWhitespace s of [] \<Rightarrow> None
      | c # cs \<Rightarrow> if c = CHR '','' then Some (True, cs) else if c = close then Some (False, cs) else None)"

text \<open>A key and its colon.\<close>

definition member_key :: "string \<Rightarrow> (string \<times> string) option" where
  "member_key s0 =
     (let s = skipWhitespace s0
      in case parseString s of None \<Rightarrow> None
         | Some (k, r) \<Rightarrow> (case skipWhitespace r of [] \<Rightarrow> None | c # cs \<Rightarrow> if c = CHR '':'' then Some (k, cs) else None))"

lemma separator_shorter: "separator close s = Some (b, r) \<Longrightarrow> length r < length s"
  using length_skipWhitespace [of s] by (auto simp: separator_def split: list.splits if_splits)

lemma member_key_shorter: "member_key s = Some (k, r) \<Longrightarrow> length r < length s"
proof -
  assume "member_key s = Some (k, r)"
  then obtain t where t: "parseString (skipWhitespace s) = Some (k, t)" "skipWhitespace t = CHR '':'' # r"
    by (auto simp: member_key_def Let_def split: option.splits list.splits if_splits)
  show ?thesis using parseString_shorter [OF t(1)] length_skipWhitespace [of s] length_skipWhitespace [of t] t(2) by simp
qed

function skip_json :: "skipping \<Rightarrow> string \<Rightarrow> string option" where
  "skip_json SkipValue s =
     (case skipWhitespace s of [] \<Rightarrow> None
      | c # cs \<Rightarrow>
          (if c = CHR 0x22 then map_option snd (parseString (c # cs))
           else if c = CHR ''{''
           then (let r = skipWhitespace cs in if r \<noteq> [] \<and> hd r = CHR ''}'' then Some (tl r) else skip_json SkipMembers r)
           else if c = CHR ''[''
           then (let r = skipWhitespace cs in if r \<noteq> [] \<and> hd r = CHR '']'' then Some (tl r) else skip_json SkipElements r)
           else if c = CHR ''t'' then skip_literal ''true'' (c # cs)
           else if c = CHR ''f'' then skip_literal ''false'' (c # cs)
           else if c = CHR ''n'' then skip_literal ''null'' (c # cs)
           else if sign_char c \<or> is_digit c then Some (skip_number (c # cs))
           else None))"
| "skip_json SkipMembers s =
     (case member_key s of None \<Rightarrow> None
      | Some (k, r) \<Rightarrow> (case skip_json SkipValue r of None \<Rightarrow> None
        | Some r' \<Rightarrow> (case separator (CHR ''}'') r' of None \<Rightarrow> None
          | Some (more_members, r'') \<Rightarrow> if more_members then skip_json SkipMembers r'' else Some r'')))"
| "skip_json SkipElements s =
     (case skip_json SkipValue s of None \<Rightarrow> None
      | Some r' \<Rightarrow> (case separator (CHR '']'') r' of None \<Rightarrow> None
        | Some (more_elements, r'') \<Rightarrow> if more_elements then skip_json SkipElements r'' else Some r''))"
  by pat_completeness auto

text \<open>A value that is skipped takes at least one character; this gives the termination of the nested calls.\<close>

lemma skip_number_shorter: "sign_char c \<or> is_digit c \<Longrightarrow> length (skip_number (c # cs)) < length (c # cs)"
  using length_dropWhile_le [of is_digit cs] by (auto simp: skip_number_def after_sign_def le_imp_less_Suc)

lemma skip_json_shorter: "skip_json_dom (m, s) \<Longrightarrow> skip_json m s = Some r \<Longrightarrow> length r < length s"
proof (induction m s arbitrary: r rule: skip_json.pinduct)
  case (1 s)
  obtain c cs where c: "skipWhitespace s = c # cs" using 1 by (cases "skipWhitespace s") (auto simp: skip_json.psimps)
  let ?r = "skipWhitespace cs"
  have le: "length (c # cs) \<le> length s" "length ?r \<le> length cs" "length (tl ?r) \<le> length ?r"
    using length_skipWhitespace [of s] length_skipWhitespace [of cs] c by auto
  show ?case
  proof (cases "c = CHR ''{'' \<or> c = CHR ''[''")
    case True
    then consider "r = tl ?r" "?r \<noteq> []" | "c = CHR ''{''" "?r = [] \<or> hd ?r \<noteq> CHR ''}''" "skip_json SkipMembers ?r = Some r"
      | "c = CHR ''[''" "?r = [] \<or> hd ?r \<noteq> CHR '']''" "skip_json SkipElements ?r = Some r"
      using 1(1) 1(4) c by (auto simp: skip_json.psimps Let_def split: if_splits)
    then show ?thesis
    proof cases
      case 1
      then show ?thesis using le by (cases ?r) auto
    next
      case 2
      have "length r < length ?r" by (rule 1(2) [OF c]) (use 2 in auto)
      then show ?thesis using le by simp
    next
      case 3
      have "length r < length ?r" by (rule 1(3) [OF c]) (use 3 in auto)
      then show ?thesis using le by simp
    qed
  next
    case False
    then have "length r < length (c # cs)" using 1(1) 1(4) c parseString_shorter [of "c # cs"] skip_number_shorter [of c cs]
      by (auto simp: skip_json.psimps skip_literal_def split: if_splits)
    then show ?thesis using le by simp
  qed
next
  case (2 s)
  obtain k r1 r2 b r3 where m: "member_key s = Some (k, r1)" "skip_json SkipValue r1 = Some r2" "separator (CHR ''}'') r2 = Some (b, r3)"
      "if b then skip_json SkipMembers r3 = Some r else r = r3"
    using 2(1) 2(4) by (auto simp: skip_json.psimps split: option.splits prod.splits if_splits)
  have "length r2 < length r1" by (rule 2(2) [OF m(1) refl m(2)])
  moreover have "length r \<le> length r3" using m(4) 2(3) [OF m(1) refl m(2,3) refl] by (cases b) (auto simp: less_imp_le)
  ultimately show ?case using member_key_shorter [OF m(1)] separator_shorter [OF m(3)] by linarith
next
  case (3 s)
  obtain r2 b r3 where m: "skip_json SkipValue s = Some r2" "separator (CHR '']'') r2 = Some (b, r3)"
      "if b then skip_json SkipElements r3 = Some r else r = r3"
    using 3(1) 3(4) by (auto simp: skip_json.psimps split: option.splits prod.splits if_splits)
  have "length r2 < length s" by (rule 3(2) [OF m(1)])
  moreover have "length r \<le> length r3" using m(3) 3(3) [OF m(1,2) refl] by (cases b) (auto simp: less_imp_le)
  ultimately show ?case using separator_shorter [OF m(2)] by linarith
qed

fun skip_rank :: "skipping \<Rightarrow> nat" where
  "skip_rank SkipElements = 1"
| "skip_rank m = 0"

lemma skip_json_total: "All skip_json_dom"
proof (relation "measure (\<lambda>(m, s). 2 * length s + skip_rank m)", goal_cases)
  case (2 s c cs r)
  then show ?case using length_skipWhitespace [of s] length_skipWhitespace [of cs] by simp
next
  case (3 s c cs r)
  then show ?case using length_skipWhitespace [of s] length_skipWhitespace [of cs] by simp
qed (auto dest!: skip_json_shorter member_key_shorter separator_shorter simp: less_Suc_eq_le)

termination skip_json
  by (rule skip_json_total)

lemmas skip_json_takes = skip_json_shorter [OF skip_json_total [THEN spec]]

declare skip_json.simps [simp del]

definition skipValue :: "string \<Rightarrow> string option" where
  "skipValue = skip_json SkipValue"

section \<open>Requests\<close>

record JsonRequest =
  jr_type :: string
  jr_sql :: string
  jr_txnId :: "u64 option"

definition JsonRequest_init :: JsonRequest where
  "JsonRequest_init = \<lparr>jr_type = [], jr_sql = [], jr_txnId = None\<rparr>"

text \<open>The value of a member: captured for the known keys, skipped for the others.\<close>

definition member_value :: "string \<Rightarrow> JsonRequest \<Rightarrow> string \<Rightarrow> (JsonRequest \<times> string) option" where
  "member_value key out s0 =
     (let s = skipWhitespace s0
      in if s = [] then None
         else if key = ''type'' then map_option (\<lambda>(v, r). (out\<lparr>jr_type := v\<rparr>, r)) (parseString s)
         else if key = ''sql'' then map_option (\<lambda>(v, r). (out\<lparr>jr_sql := v\<rparr>, r)) (parseString s)
         else if key = ''txnId''
         then (case parseNumberAsString s of None \<Rightarrow> None
               | Some (v, r) \<Rightarrow> map_option (\<lambda>n. (out\<lparr>jr_txnId := Some n\<rparr>, r)) (stoull v))
         else map_option (\<lambda>r. (out, r)) (skipValue s))"

lemma member_value_shorter: "member_value key out s = Some (out', r) \<Longrightarrow> length r < length s"
  using length_skipWhitespace [of s]
  by (auto simp: member_value_def Let_def skipValue_def dest!: skip_json_takes parseString_shorter parseNumber_shorter split: if_splits option.splits)

function object_members :: "JsonRequest \<Rightarrow> string \<Rightarrow> (JsonRequest \<times> string) option" where
  "object_members out s =
     (case member_key s of None \<Rightarrow> None
      | Some (key, r) \<Rightarrow> (case member_value key out r of None \<Rightarrow> None
        | Some (out', r') \<Rightarrow> (case separator (CHR ''}'') r' of None \<Rightarrow> None
          | Some (more_members, r'') \<Rightarrow> if more_members then object_members out' r'' else Some (out', r''))))"
  by pat_completeness auto
termination
  by (relation "measure (\<lambda>(out, s). length s)") (auto dest!: member_key_shorter member_value_shorter separator_shorter)

declare object_members.simps [simp del]

definition parseObject :: "JsonRequest \<Rightarrow> string \<Rightarrow> (JsonRequest \<times> string) option" where
  "parseObject out s0 =
     (case skipWhitespace s0 of [] \<Rightarrow> None
      | c # cs \<Rightarrow>
          if c \<noteq> CHR ''{'' then None
          else let r = skipWhitespace cs
               in if r \<noteq> [] \<and> hd r = CHR ''}'' then Some (out, tl r) else object_members out r)"

definition parseValue :: "JsonRequest \<Rightarrow> string \<Rightarrow> (JsonRequest \<times> string) option" where
  "parseValue out s0 =
     (let s = skipWhitespace s0 in if s \<noteq> [] \<and> hd s = CHR ''{'' then parseObject out s else None)"

definition parseJsonRequest :: "string \<Rightarrow> JsonRequest option" where
  "parseJsonRequest json =
     (case parseValue JsonRequest_init json of None \<Rightarrow> None
      | Some (req, _) \<Rightarrow> if jr_type req = [] then None else Some req)"

end
