(* ===== verification/Http_Api.thy ===== *)
theory Http_Api
  imports Dispatcher InMemory_Provider Sql_Parser Json_Request
begin

text \<open>
  The JSON front ends: \<open>frontend/HttpApi.hpp\<close> (\<open>HttpApiAccessPlugin\<close>) and \<open>frontend/HttpSession.hpp\<close>. The
  plugin answers one request at a time on the shared transaction manager, lock manager and provider; its
  lock wait of 50 seconds splits a statement into the part before the wait and the continuations for a
  wake-up and for the deadline. The provider is a record of its methods over one state, as
  \<open>IStorageProvider*\<close> is in the code.
\<close>

section \<open>The provider\<close>

record 's provider_ops =
  pv_engine :: "'s engine_ops"
  pv_createTable :: "'s \<Rightarrow> Schema \<Rightarrow> 's \<times> DbError"
  pv_dropTable :: "'s \<Rightarrow> string \<Rightarrow> 's \<times> DbError"
  pv_alterTable :: "'s \<Rightarrow> string \<Rightarrow> AlterSpec \<Rightarrow> 's \<times> DbError"
  pv_describeTable :: "'s \<Rightarrow> string \<Rightarrow> Schema option"

definition on_engine :: "(InMemory \<Rightarrow> InMemory \<times> 'a) \<Rightarrow> IMProvider \<Rightarrow> IMProvider \<times> 'a" where
  "on_engine f p = (case f (ip_engine p) of (e, x) \<Rightarrow> (p\<lparr>ip_engine := e\<rparr>, x))"

definition ip_engine_ops :: "IMProvider engine_ops" where
  "ip_engine_ops =
     \<lparr>eget = (\<lambda>p t tbl k. on_engine (\<lambda>e. eget InMemoryStorageEngine e t tbl k) p),
      eput = (\<lambda>p t tbl k row. on_engine (\<lambda>e. eput InMemoryStorageEngine e t tbl k row) p),
      eremove = (\<lambda>p t tbl k. on_engine (\<lambda>e. eremove InMemoryStorageEngine e t tbl k) p),
      escan = (\<lambda>p t tbl. escan InMemoryStorageEngine (ip_engine p) t tbl),
      eprepare = (\<lambda>p t. on_engine (\<lambda>e. eprepare InMemoryStorageEngine e t) p),
      ecommit_internal = (\<lambda>p t. on_engine (\<lambda>e. ecommit_internal InMemoryStorageEngine e t) p),
      ecommit = (\<lambda>p t seq. on_engine (\<lambda>e. ecommit InMemoryStorageEngine e t seq) p),
      eabort = (\<lambda>p t. on_engine (\<lambda>e. eabort InMemoryStorageEngine e t) p)\<rparr>"

definition in_memory_provider :: "IMProvider provider_ops" where
  "in_memory_provider =
     \<lparr>pv_engine = ip_engine_ops, pv_createTable = ip_createTable, pv_dropTable = ip_dropTable,
      pv_alterTable = ip_alterTable, pv_describeTable = ip_describeTable\<rparr>"

section \<open>The plugin\<close>

record 's http_api =
  ha_storage :: 's
  ha_tm :: TransactionManager
  ha_lm :: LockManager
  ha_parser :: SqlParser
  ha_opened :: bool

definition ha_init :: "'s \<Rightarrow> TransactionManager \<Rightarrow> LockManager \<Rightarrow> 's http_api" where
  "ha_init s tm lm = \<lparr>ha_storage = s, ha_tm = tm, ha_lm = lm, ha_parser = sql_init, ha_opened = False\<rparr>"

text \<open>\<open>storage\<close> and \<open>dispatcher\<close> say whether the pointers are not null.\<close>

definition ha_open :: "bool \<Rightarrow> bool \<Rightarrow> 's http_api \<Rightarrow> 's http_api \<times> DbError" where
  "ha_open storage dispatcher st =
     (if ha_opened st then (st, db_error Internal ''already open'')
      else if \<not> storage then (st, db_error Internal ''storage provider required'')
      else if \<not> dispatcher then (st, db_error Internal ''dispatcher required'')
      else (st\<lparr>ha_opened := True\<rparr>, sentinel))"

definition ha_close :: "'s http_api \<Rightarrow> 's http_api \<times> DbError" where
  "ha_close st = (st\<lparr>ha_opened := False\<rparr>, sentinel)"

text \<open>A request is answered, waits for a lock, or leaves by an exception or undefined behaviour.\<close>

type_synonym 's replied = "('s http_api \<times> string) outcome"

definition reply :: "'s http_api \<Rightarrow> string result \<Rightarrow> 's replied" where
  "reply st r = (case r of Inl e \<Rightarrow> Crash e | Inr s \<Rightarrow> Done (st, s))"

definition success_text :: string where
  "success_text = ''{'' @ json_quote ''success'' @ '':true}''"

definition reply_error :: "'s http_api \<Rightarrow> DbError \<Rightarrow> 's replied" where
  "reply_error st e = Done (st, encode_error e)"

definition reply_status :: "'s http_api \<Rightarrow> DbError \<Rightarrow> 's replied" where
  "reply_status st e = (if isSentinel e then Done (st, success_text) else reply_error st e)"

section \<open>Row statements\<close>

definition default_row :: "Schema \<Rightarrow> Tuple \<Rightarrow> Tuple" where
  "default_row sc row =
     fold (\<lambda>col row. case cd_default col of None \<Rightarrow> row | Some v \<Rightarrow> tset row (cd_name col) v) (sc_columns sc) row"

text \<open>The key is the column \<open>_id\<close> when it is there and not null; an empty row is filled from the defaults.\<close>

definition api_insert :: "'s provider_ops \<Rightarrow> 's \<Rightarrow> TxnId \<Rightarrow> Command \<Rightarrow> 's worked" where
  "api_insert pv s txn cmd =
     (let row0 = (case cmd_values cmd of None \<Rightarrow> Tuple_empty | Some r \<Rightarrow> r);
          row = (if tuple_size row0 = 0
                 then (case pv_describeTable pv s (cmd_table cmd) of None \<Rightarrow> row0 | Some sc \<Rightarrow> default_row sc row0)
                 else row0);
          (s', err) = eput (pv_engine pv) s txn (cmd_table cmd) (insert_key row) row
      in (s', if isSentinel err then None else Some err, ok_result))"

definition api_handle :: "'s provider_ops \<Rightarrow> 's \<Rightarrow> TxnId \<Rightarrow> Command \<Rightarrow> 's worked result" where
  "api_handle pv s txn cmd =
     (let ops = pv_engine pv in
      case cmd_type cmd of
        Select \<Rightarrow> rbind (disp_select ops s txn cmd) (\<lambda>rs. Inr (s, None, \<lparr>rs_success = True, rs_rows = rs\<rparr>))
      | Insert \<Rightarrow> Inr (api_insert pv s txn cmd)
      | Update \<Rightarrow>
          (case (cmd_where cmd, cmd_values cmd) of
             (None, _) \<Rightarrow> Inr (s, Some (db_error Internal ''Update requires WHERE''), ok_result)
           | (Some p, None) \<Rightarrow> Inr (s, Some (db_error Internal ''Update requires values''), ok_result)
           | (Some p, Some vals) \<Rightarrow>
               rbind (matching_ids ops s txn (cmd_table cmd) p)
                 (\<lambda>ks. Inr (disp_keys ''update''
                    (each_key (\<lambda>s k. eput ops s txn (cmd_table cmd) k (tset vals ''_id'' k)) s ks False))))
      | Delete \<Rightarrow>
          (case cmd_where cmd of
             None \<Rightarrow> Inr (s, Some (db_error Internal ''Delete requires WHERE''), ok_result)
           | Some p \<Rightarrow>
               rbind (matching_ids ops s txn (cmd_table cmd) p)
                 (\<lambda>ks. Inr (disp_keys ''delete''
                    (each_key (\<lambda>s k. eremove ops s txn (cmd_table cmd) k) s ks False)))))"

text \<open>After the lock is granted: the handler, and for a statement of its own the release of the lock and the commit.\<close>

definition dml_execute :: "'s provider_ops \<Rightarrow> Command \<Rightarrow> TxnId \<Rightarrow> bool \<Rightarrow> 's http_api \<Rightarrow> 's replied" where
  "dml_execute pv cmd txn auto_commit st =
     (case api_handle pv (ha_storage st) txn cmd of
        Inl e \<Rightarrow> Crash e
      | Inr (s, err, rs) \<Rightarrow>
          (let st = st\<lparr>ha_storage := s\<rparr>
           in if auto_commit then
                (let st = st\<lparr>ha_lm := fst (release (ha_lm st) txn)\<rparr>
                 in case err of
                      Some e \<Rightarrow> reply_error st e
                    | None \<Rightarrow>
                        (let tm = fst (commitTxn (ha_tm st) txn);
                             (s', cerr) = ecommit (pv_engine pv) (ha_storage st) txn (visibleSeq tm);
                             st = st\<lparr>ha_tm := tm, ha_storage := s'\<rparr>
                         in if isSentinel cerr then reply st (encode_result rs) else reply_error st cerr))
              else (case err of Some e \<Rightarrow> reply_error st e | None \<Rightarrow> reply st (encode_result rs))))"

definition handleDml ::
  "hash_orders \<Rightarrow> 's provider_ops \<Rightarrow> Command \<Rightarrow> u64 option \<Rightarrow> 's http_api \<Rightarrow> 's replied" where
  "handleDml ord pv cmd explicitTxnId st =
     (let (tm, txn) = (case explicitTxnId of None \<Rightarrow> beginTxn (ha_tm st) | Some t \<Rightarrow> (ha_tm st, t));
          st = st\<lparr>ha_tm := tm\<rparr>
      in case detectCycle (fst ord) (snd ord) (ha_lm st) txn of
           Some victim \<Rightarrow>
             reply_error (st\<lparr>ha_tm := fst (abortTxn (ha_tm st) victim), ha_lm := fst (release (ha_lm st) victim)\<rparr>)
               (db_error Deadlock (''cycle detected for '' @ txn_toString txn))
         | None \<Rightarrow>
             (case try_enter (ha_lm st) txn (tableKey (cmd_table cmd)) (command_mode cmd) of
                (lm, None) \<Rightarrow> Blocked (st\<lparr>ha_lm := lm\<rparr>, [])
              | (lm, Some r) \<Rightarrow> dml_execute pv cmd txn (explicitTxnId = None) (st\<lparr>ha_lm := lm\<rparr>)))"

definition dml_wake :: "'s provider_ops \<Rightarrow> Command \<Rightarrow> TxnId \<Rightarrow> bool \<Rightarrow> 's http_api \<Rightarrow> 's replied" where
  "dml_wake pv cmd txn auto_commit st =
     (case try_wake (ha_lm st) txn (tableKey (cmd_table cmd)) (command_mode cmd) of
        (lm, None) \<Rightarrow> Blocked (st\<lparr>ha_lm := lm\<rparr>, [])
      | (lm, Some r) \<Rightarrow> dml_execute pv cmd txn auto_commit (st\<lparr>ha_lm := lm\<rparr>))"

definition dml_timeout :: "Command \<Rightarrow> TxnId \<Rightarrow> 's http_api \<Rightarrow> 's replied" where
  "dml_timeout cmd txn st =
     reply_error
       (st\<lparr>ha_tm := fst (abortTxn (ha_tm st) txn),
          ha_lm := fst (release (fst (try_timeout (ha_lm st) txn (tableKey (cmd_table cmd)))) txn)\<rparr>)
       (db_error LockTimeout ''lock wait exceeded 50000 ms'')"

section \<open>Requests\<close>

text \<open>\<open>begin\<close>, \<open>commit\<close> and \<open>rollback\<close>; \<open>None\<close> for other types.\<close>

definition txn_request :: "'s provider_ops \<Rightarrow> JsonRequest \<Rightarrow> 's http_api \<Rightarrow> 's replied option" where
  "txn_request pv req st =
     (if jr_type req = ''begin'' then
        (let (tm, tid) = beginTxn (ha_tm st)
         in Some (Done (st\<lparr>ha_tm := tm\<rparr>, ''{'' @ json_quote ''success'' @ '':true,'' @ json_quote ''txnId'' @ '':'' @ show_nat (unat tid) @ ''}'')))
      else if jr_type req = ''commit'' then
        Some (case jr_txnId req of
           None \<Rightarrow> reply_error st (db_error NotSupported ''commit requires txnId'')
         | Some t \<Rightarrow>
             (case commitTxn (ha_tm st) t of
                (tm, False) \<Rightarrow> reply_error (st\<lparr>ha_tm := tm\<rparr>) (db_error Internal ''txn not found or already closed'')
              | (tm, True) \<Rightarrow>
                  (let (s, err) = ecommit (pv_engine pv) (ha_storage st) t (visibleSeq tm);
                       st = st\<lparr>ha_tm := tm, ha_storage := s\<rparr>
                   in if isSentinel err then Done (st\<lparr>ha_lm := fst (release (ha_lm st) t)\<rparr>, success_text)
                      else reply_error st err)))
      else if jr_type req = ''rollback'' then
        Some (case jr_txnId req of
           None \<Rightarrow> reply_error st (db_error NotSupported ''rollback requires txnId'')
         | Some t \<Rightarrow>
             Done (st\<lparr>ha_storage := fst (eabort (pv_engine pv) (ha_storage st) t), ha_tm := fst (abortTxn (ha_tm st) t),
                     ha_lm := fst (release (ha_lm st) t)\<rparr>, success_text))
      else None)"

text \<open>A transaction statement in SQL becomes a request without a transaction id.\<close>

definition bare_request :: "string \<Rightarrow> JsonRequest" where
  "bare_request ty = JsonRequest_init\<lparr>jr_type := ty\<rparr>"

definition sql_txn :: "'s provider_ops \<Rightarrow> string \<Rightarrow> 's http_api \<Rightarrow> 's replied" where
  "sql_txn pv ty st = (case txn_request pv (bare_request ty) st of None \<Rightarrow> Crash Undefined | Some r \<Rightarrow> r)"

fun executeStatement ::
  "hash_orders \<Rightarrow> 's provider_ops \<Rightarrow> SqlStatement \<Rightarrow> u64 option \<Rightarrow> 's http_api \<Rightarrow> 's replied" where
  "executeStatement ord pv (DdlCreateTable sc) t st =
     (case pv_createTable pv (ha_storage st) sc of (s, e) \<Rightarrow> reply_status (st\<lparr>ha_storage := s\<rparr>) e)"
| "executeStatement ord pv (DdlDropTable name) t st =
     (case pv_dropTable pv (ha_storage st) name of (s, e) \<Rightarrow> reply_status (st\<lparr>ha_storage := s\<rparr>) e)"
| "executeStatement ord pv (DdlAlterTable name sp) t st =
     (case pv_alterTable pv (ha_storage st) name sp of (s, e) \<Rightarrow> reply_status (st\<lparr>ha_storage := s\<rparr>) e)"
| "executeStatement ord pv SqlTxnBegin t st = sql_txn pv ''begin'' st"
| "executeStatement ord pv SqlTxnCommit t st = sql_txn pv ''commit'' st"
| "executeStatement ord pv SqlTxnRollback t st = sql_txn pv ''rollback'' st"
| "executeStatement ord pv (SqlCommand cmd) t st = handleDml ord pv cmd t st"

text \<open>Only the first statement of a query is executed.\<close>

definition executeRequest ::
  "hash_orders \<Rightarrow> 's provider_ops \<Rightarrow> JsonRequest \<Rightarrow> 's http_api \<Rightarrow> 's replied" where
  "executeRequest ord pv req st =
     (case txn_request pv req st of
        Some r \<Rightarrow> r
      | None \<Rightarrow>
          if jr_type req = ''query'' then
            (case parseAll (jr_sql req) (ha_parser st) of
               Inl e \<Rightarrow> Crash e
             | Inr (p, stmts) \<Rightarrow>
                 (let st = st\<lparr>ha_parser := p\<rparr>
                  in case stmts of
                       [] \<Rightarrow> reply_error st (db_error ParseError (sp_error p))
                     | stmt # _ \<Rightarrow> executeStatement ord pv stmt (jr_txnId req) st))
          else reply_error st (db_error NotSupported (''unknown request type: '' @ jr_type req)))"

definition handleRequest :: "hash_orders \<Rightarrow> 's provider_ops \<Rightarrow> string \<Rightarrow> 's http_api \<Rightarrow> 's replied" where
  "handleRequest ord pv requestJson st =
     (if \<not> ha_opened st then reply_error st (db_error Internal ''plugin not open'')
      else case parseJsonRequest requestJson of
             None \<Rightarrow> reply_error st (db_error ParseError ''invalid request JSON'')
           | Some req \<Rightarrow> executeRequest ord pv req st)"

section \<open>Sessions\<close>

record http_session =
  hs_request :: string
  hs_processed :: bool
  hs_response :: string
  hs_closed :: bool

definition session_init :: "string \<Rightarrow> http_session" where
  "session_init json = \<lparr>hs_request = json, hs_processed = False, hs_response = [], hs_closed = False\<rparr>"

definition convertRequestToCommand :: "JsonRequest \<Rightarrow> SqlParser \<Rightarrow> (SqlParser \<times> Command option) result" where
  "convertRequestToCommand req p =
     (let txn_command = (\<lambda>name. rbind (mkCommand Insert name None None [] None) (\<lambda>c. Inr (p, Some c)))
      in if jr_type req = ''begin'' then txn_command ''__begin__''
         else if jr_type req = ''commit'' then txn_command ''__commit__''
         else if jr_type req = ''rollback'' then txn_command ''__rollback__''
         else if jr_type req = ''query'' then
           rbind (parseAll (jr_sql req) p) (\<lambda>(p, stmts). case stmts of SqlCommand c # _ \<Rightarrow> Inr (p, Some c) | _ \<Rightarrow> Inr (p, None))
         else Inr (p, None))"

definition session_next :: "http_session \<Rightarrow> SqlParser \<Rightarrow> (http_session \<times> SqlParser \<times> Command option) result" where
  "session_next ses p =
     (if hs_processed ses then Inr (ses, p, None)
      else let ses = ses\<lparr>hs_processed := True\<rparr>
           in case parseJsonRequest (hs_request ses) of
                None \<Rightarrow> Inr (ses, p, None)
              | Some req \<Rightarrow> rbind (convertRequestToCommand req p) (\<lambda>(p, c). Inr (ses, p, c)))"

definition session_present :: "answer \<Rightarrow> http_session \<Rightarrow> http_session result" where
  "session_present a ses =
     (case a of
        Rows rs \<Rightarrow> rbind (encode_result rs) (\<lambda>s. Inr (ses\<lparr>hs_response := s\<rparr>))
      | Failure e \<Rightarrow> Inr (ses\<lparr>hs_response := encode_error e\<rparr>))"

definition session_close :: "http_session \<Rightarrow> http_session" where
  "session_close ses = ses\<lparr>hs_closed := True\<rparr>"

end
