(* ===== verification/Sql_Laws.thy ===== *)
theory Sql_Laws
  imports Sql_Parser
begin

text \<open>
  What the SQL parser reads: texts are written as tokens separated by blanks, and \<open>runs m ts x ts'\<close>
  says that a method \<open>m\<close> takes the tokens \<open>ts\<close> to the result \<open>x\<close> and leaves \<open>ts'\<close>, whatever blanks are in
  front. With a printer for predicates and commands this gives the round trip of the front end; the
  last section has the texts that the parser accepts although they are cut off.
\<close>

section \<open>Texts as tokens\<close>

fun unwords :: "string list \<Rightarrow> string" where
  "unwords [] = []"
| "unwords [t] = t"
| "unwords (t # u # ts) = t @ CHR '' '' # unwords (u # ts)"

text \<open>A token does not begin with a blank or a comment.\<close>

definition tok_ok :: "string \<Rightarrow> bool" where
  "tok_ok t \<longleftrightarrow> t \<noteq> [] \<and> \<not> isspace (hd t) \<and> take 2 t \<noteq> ''--'' \<and> take 2 t \<noteq> ''/*''"

definition after :: "string list \<Rightarrow> string" where
  "after ts = (if ts = [] then [] else CHR '' '' # unwords ts)"

lemma unwords_Cons: "unwords (t # ts) = t @ after ts"
  by (cases ts) (auto simp: after_def)

lemma skip_blank_space [simp]: "skip_blank (CHR '' '' # s) = skip_blank s"
  by (simp add: isspace_def)

lemma skip_blank_idem: "skip_blank (skip_blank s) = skip_blank s"
  by (induction s rule: skip_blank.induct) auto

lemma skip_blank_token: "tok_ok t \<Longrightarrow> r = [] \<or> hd r = CHR '' '' \<Longrightarrow> skip_blank (t @ r) = t @ r"
  by (cases t; cases "tl t") (auto simp: tok_ok_def neq_Nil_conv)

definition sees :: "SqlParser \<Rightarrow> string list \<Rightarrow> bool" where
  "sees p ts \<longleftrightarrow> (\<forall>t \<in> set ts. tok_ok t) \<and> skip_blank (sp_rest p) = unwords ts"

definition runs :: "'a parsing \<Rightarrow> string list \<Rightarrow> 'a \<Rightarrow> string list \<Rightarrow> bool" where
  "runs m ts x ts' \<longleftrightarrow> (\<forall>p. sees p ts \<longrightarrow> (\<exists>p'. m p = Inr (p', Some x) \<and> sees p' ts'))"

lemma runs_ret: "runs (ret x) ts x ts"
  by (simp add: runs_def ret_def)

lemma runs_bind: "runs m ts x ts' \<Longrightarrow> runs (f x) ts' y ts'' \<Longrightarrow> runs (pbind m f) ts y ts''"
  by (fastforce simp: runs_def pbind_def)

lemma sees_skip: "sees p ts \<Longrightarrow> sp_rest (skipWhitespaceAndComments p) = unwords ts"
  by (simp add: sees_def skipWhitespaceAndComments_def)

lemma skip_blank_after: "\<forall>t \<in> set ts. tok_ok t \<Longrightarrow> skip_blank (after ts) = unwords ts"
proof (cases ts)
  case (Cons t us)
  assume "\<forall>t \<in> set ts. tok_ok t"
  then have "skip_blank (t @ after us) = t @ after us" using Cons by (intro skip_blank_token) (auto simp: after_def)
  then have "skip_blank (unwords ts) = unwords ts" by (simp add: Cons unwords_Cons)
  then show ?thesis by (simp add: Cons after_def isspace_def)
qed (simp add: after_def)

lemma sees_after: "\<forall>t \<in> set ts. tok_ok t \<Longrightarrow> sp_rest p = after ts \<Longrightarrow> sees p ts"
  by (simp add: sees_def skip_blank_after)

lemma sees_stay: "sees p ts \<Longrightarrow> sp_rest q = unwords ts \<Longrightarrow> sees q ts"
  by (simp add: sees_def) (metis skip_blank_idem)

section \<open>Keywords and symbols\<close>

definition wordy :: "string \<Rightarrow> bool" where
  "wordy t \<longleftrightarrow> t \<noteq> [] \<and> (\<forall>c \<in> set t. word_char c)"

text \<open>Keywords are words; their letters in upper case are compared.\<close>

lemma after_boundary: "after ts = [] \<or> hd (after ts) = CHR '' ''"
  by (simp add: after_def)

lemma not_word_space: "\<not> word_char (CHR '' '')"
  by (simp add: word_char_def isalnum_def isalpha_def is_digit_def less_eq_char_def)

lemma upper_space: "word_char c \<Longrightarrow> toupper c \<noteq> toupper (CHR '' '')"
  by (cases "CHR ''a'' \<le> c \<and> c \<le> CHR ''z''")
    (auto simp: toupper_def less_eq_char_def not_word_space dest!: arg_cong [of _ _ "of_char :: char \<Rightarrow> nat"])

lemma kw_word:
  assumes "wordy t" "wordy k"
  shows "runs (kw k) (t # ts) (map toupper t = map toupper k) (if map toupper t = map toupper k then ts else t # ts)"
  unfolding runs_def
proof (intro allI impI)
  fix p
  assume p: "sees p (t # ts)"
  let ?q = "skipWhitespaceAndComments p" and ?rest = "t @ after ts"
  have rest: "sp_rest ?q = ?rest" using sees_skip [OF p] by (simp add: unwords_Cons)
  have stay: "sees ?q (t # ts)" using sees_stay [OF p] rest by (simp add: unwords_Cons)
  have ts: "\<forall>t \<in> set ts. tok_ok t" using p by (simp add: sees_def)
  have nth: "after ts \<noteq> [] \<Longrightarrow> ?rest ! length t = CHR '' ''" by (auto simp: nth_append after_def split: if_splits)
  consider "length k = length t" | "length k < length t" | "length k > length t" by linarith
  then show "\<exists>p'. kw k p = Inr (p', Some (map toupper t = map toupper k))
      \<and> sees p' (if map toupper t = map toupper k then ts else t # ts)"
  proof cases
    case 1
    have "\<not> (length k < length ?rest \<and> word_char (?rest ! length k))"
      using 1 nth not_word_space by (cases "after ts") auto
    then show ?thesis using 1 rest stay sees_after [OF ts]
      by (auto simp: kw_def consumeKeyword_def Let_def)
  next
    case 2
    then have "map toupper t \<noteq> map toupper k" by (auto dest: map_eq_imp_length_eq)
    moreover have "word_char (?rest ! length k)" using 2 assms(1) by (simp add: nth_append wordy_def)
    ultimately show ?thesis using 2 rest stay by (auto simp: kw_def consumeKeyword_def Let_def)
  next
    case 3
    then have ne: "map toupper t \<noteq> map toupper k" by (auto dest: map_eq_imp_length_eq)
    have "map toupper (take (length k) ?rest) \<noteq> map toupper k" if len: "length k \<le> length ?rest"
    proof
      assume eq: "map toupper (take (length k) ?rest) = map toupper k"
      have at: "map toupper (take n r) ! i = toupper (r ! i)" if "i < n" "n \<le> length r" for n i and r :: string
        using that by simp
      have "after ts \<noteq> []" using 3 len by auto
      then have "toupper (CHR '' '') = toupper (k ! length t)"
        using arg_cong [OF eq, of "\<lambda>s. s ! length t"] 3 nth at [OF 3 len] by simp
      then show False using upper_space [of "k ! length t"] assms(2) 3 by (simp add: wordy_def)
    qed
    then show ?thesis using ne rest stay by (auto simp: kw_def consumeKeyword_def Let_def)
  qed
qed

text \<open>A token that does not begin like a word is no keyword.\<close>

lemma kw_punct:
  assumes "tok_ok t" "toupper (hd t) \<noteq> toupper (hd k)" "k \<noteq> []"
  shows "runs (kw k) (t # ts) False (t # ts)"
  unfolding runs_def
proof (intro allI impI)
  fix p
  assume p: "sees p (t # ts)"
  let ?q = "skipWhitespaceAndComments p"
  have rest: "sp_rest ?q = t @ after ts" using sees_skip [OF p] by (simp add: unwords_Cons)
  have stay: "sees ?q (t # ts)" using sees_stay [OF p] rest by (simp add: unwords_Cons)
  have "map toupper (take (length k) (t @ after ts)) \<noteq> map toupper k"
    using assms by (cases t; cases k) (auto simp: tok_ok_def)
  then show "\<exists>p'. kw k p = Inr (p', Some False) \<and> sees p' (t # ts)"
    using rest stay by (auto simp: kw_def consumeKeyword_def Let_def)
qed

lemma kw_end: "k \<noteq> [] \<Longrightarrow> runs (kw k) [] False []"
  unfolding runs_def using sees_skip sees_stay
  by (fastforce simp: kw_def consumeKeyword_def Let_def)

lemma symbol_hit: "s \<noteq> [] \<Longrightarrow> runs (symbol s) (s # ts) True ts"
  unfolding runs_def
proof (intro allI impI)
  fix p
  assume "s \<noteq> []" and p: "sees p (s # ts)"
  then have "sp_rest (skipWhitespaceAndComments p) = s @ after ts" "\<forall>t \<in> set ts. tok_ok t"
    using sees_skip [OF p] p by (auto simp: unwords_Cons sees_def)
  then show "\<exists>p'. symbol s p = Inr (p', Some True) \<and> sees p' ts"
    using sees_after by (auto simp: symbol_def consumeSymbol_def Let_def)
qed

definition starts_with :: "string \<Rightarrow> string \<Rightarrow> bool" where
  "starts_with s t \<longleftrightarrow> take (length s) (t @ '' '') = s"

lemma symbol_miss:
  assumes "\<not> starts_with s t" "t \<noteq> []" "length s \<le> Suc (length t)"
  shows "runs (symbol s) (t # ts) False (t # ts)"
  unfolding runs_def
proof (intro allI impI)
  fix p
  assume p: "sees p (t # ts)"
  let ?q = "skipWhitespaceAndComments p"
  have rest: "sp_rest ?q = t @ after ts" using sees_skip [OF p] by (simp add: unwords_Cons)
  have stay: "sees ?q (t # ts)" using sees_stay [OF p] rest by (simp add: unwords_Cons)
  have "take (length s) (t @ after ts) \<noteq> s" if "length s \<le> length (t @ after ts)"
  proof -
    have "take (length s) (t @ after ts) = take (length s) (t @ '' '')"
    proof (cases ts)
      case (Cons u us)
      then have "t @ after ts = (t @ '' '') @ unwords ts" by (simp add: after_def)
      then show ?thesis using assms(3) by (simp only: take_append) simp
    qed (use that in \<open>simp add: after_def\<close>)
    then show ?thesis using assms(1) by (simp add: starts_with_def)
  qed
  then show "\<exists>p'. symbol s p = Inr (p', Some False) \<and> sees p' (t # ts)"
    using rest stay by (auto simp: symbol_def consumeSymbol_def Let_def)
qed

lemma symbol_end: "s \<noteq> [] \<Longrightarrow> runs (symbol s) [] False []"
  unfolding runs_def using sees_skip sees_stay
  by (fastforce simp: symbol_def consumeSymbol_def Let_def)

section \<open>Identifiers and literals\<close>

definition plain_ident :: "string \<Rightarrow> bool" where
  "plain_ident t \<longleftrightarrow> wordy t \<and> (isalpha (hd t) \<or> hd t = CHR ''_'')"

lemma word_not_space: "word_char c \<Longrightarrow> \<not> isspace c \<and> c \<noteq> CHR ''-'' \<and> c \<noteq> CHR ''/'' \<and> c \<noteq> CHR 0x22 \<and> c \<noteq> CHR 0x27"
  by (auto simp: word_char_def isalnum_def isalpha_def is_digit_def isspace_def less_eq_char_def)

lemma wordy_tok: "wordy t \<Longrightarrow> tok_ok t"
  by (cases t) (auto simp: wordy_def tok_ok_def dest!: word_not_space)

lemma takeWhile_token: "\<forall>c \<in> set t. word_char c \<Longrightarrow> takeWhile word_char (t @ after ts) = t \<and> dropWhile word_char (t @ after ts) = after ts"
  by (induction t) (auto simp: after_def not_word_space)

lemma runs_ident: "plain_ident t \<Longrightarrow> runs opt_ident (t # ts) (Some t) ts"
  unfolding runs_def
proof (intro allI impI)
  fix p
  assume t: "plain_ident t" and p: "sees p (t # ts)"
  let ?q = "skipWhitespaceAndComments p"
  have rest: "sp_rest ?q = t @ after ts" using sees_skip [OF p] by (simp add: unwords_Cons)
  obtain c cs where cs: "t = c # cs" "word_char c" "isalpha c \<or> c = CHR ''_''" "\<forall>c \<in> set t. word_char c"
    using t by (cases t) (auto simp: plain_ident_def wordy_def)
  have "consumeIdentifier p = (set_rest (after ts) ?q, Some t)"
    using rest cs takeWhile_token [OF cs(4), of ts] word_not_space [OF cs(2)] by (auto simp: consumeIdentifier_def Let_def)
  then show "\<exists>p'. opt_ident p = Inr (p', Some (Some t)) \<and> sees p' ts"
    using p sees_after [of ts "set_rest (after ts) ?q"] by (auto simp: opt_ident_def sees_def)
qed

lemma runs_need_ident: "plain_ident t \<Longrightarrow> runs (need_ident m) (t # ts) t ts"
  unfolding need_ident_def by (rule runs_bind [OF runs_ident]) (simp_all add: need_def runs_def ret_def)

lemma runs_need_kw: "wordy k \<Longrightarrow> runs (need_kw k m) (k # ts) () ts"
  unfolding need_kw_def using kw_word [of k k ts] by (intro runs_bind [of _ _ True]) (simp, simp, rule runs_ret)

lemma runs_need_symbol: "s \<noteq> [] \<Longrightarrow> runs (need_symbol s m) (s # ts) () ts"
  unfolding need_symbol_def by (rule runs_bind [OF symbol_hit]) (simp, simp, rule runs_ret)

text \<open>Literals: null, truth values, 64-bit integers and texts without quotes and backslashes.\<close>

fun lit :: "Value \<Rightarrow> string" where
  "lit VNull = ''NULL''"
| "lit (VBool b) = (if b then ''TRUE'' else ''FALSE'')"
| "lit (VInt64 i) = show_int (sint i)"
| "lit (VText s) = CHR 0x27 # s @ [CHR 0x27]"
| "lit v = []"

fun plain_value :: "Value \<Rightarrow> bool" where
  "plain_value VNull = True"
| "plain_value (VBool b) = True"
| "plain_value (VInt64 i) = True"
| "plain_value (VText s) = (CHR 0x27 \<notin> set s \<and> CHR 0x5C \<notin> set s)"
| "plain_value v = False"

lemma scan_quoted_plain: "q \<notin> set s \<Longrightarrow> CHR 0x5C \<notin> set s \<Longrightarrow> q \<noteq> CHR 0x5C \<Longrightarrow> scan_quoted q (s @ q # r) = Some (s, r)"
proof (induction s)
  case Nil
  then show ?case by (cases r) simp_all
next
  case (Cons c s)
  then show ?case by (cases "s @ q # r") auto
qed

lemma scan_digits: "\<forall>c \<in> set ds. is_digit c \<Longrightarrow> scan_number (ds @ r) d e = scan_number r d e"
  by (induction ds) auto

lemma scan_after: "scan_number (after ts) d e = (after ts, d, e)"
  by (simp add: after_def is_digit_def less_eq_char_def)

lemma strtoll_show_int: "strtoll (show_int (sint i)) = i"
  using sint_range_size [of i] by (simp add: strtoll_def leading_int_show word_size)

lemma value_text:
  assumes "plain_value (VText s)"
  shows "runs opt_value (lit (VText s) # ts) (Some (VText s)) ts"
  unfolding runs_def
proof (intro allI impI)
  fix p
  assume p: "sees p (lit (VText s) # ts)"
  let ?q = "skipWhitespaceAndComments p"
  have rest: "sp_rest ?q = CHR 0x27 # s @ CHR 0x27 # after ts" using sees_skip [OF p] by (simp add: unwords_Cons)
  have "sp_rest (skipWhitespaceAndComments ?q) = sp_rest ?q"
    by (simp add: skipWhitespaceAndComments_def skip_blank_idem)
  then obtain q where "consumeValueLiteral p = (q, Some (VText s))" "sp_rest q = after ts"
    using rest assms scan_quoted_plain [of "CHR 0x27" s "after ts"]
    by (auto simp: consumeValueLiteral_def consumeStringLiteral_def Let_def)
  then show "\<exists>p'. opt_value p = Inr (p', Some (Some (VText s))) \<and> sees p' ts"
    using p sees_after [of ts q] by (auto simp: opt_value_def sees_def)
qed

lemma kw_consume: "runs (kw k) ts b us \<Longrightarrow> sees p ts \<Longrightarrow> \<exists>p'. consumeKeyword k p = (p', b) \<and> sees p' us"
  by (cases "consumeKeyword k p") (auto simp: runs_def kw_def)

lemma sees_skip_again: "sees p ts \<Longrightarrow> sees (skipWhitespaceAndComments p) ts"
  using sees_skip sees_stay by blast

lemma value_word:
  assumes "v = VNull \<or> (\<exists>b. v = VBool b)"
  shows "runs opt_value (lit v # ts) (Some v) ts"
  unfolding runs_def
proof (intro allI impI)
  fix p
  assume p: "sees p (lit v # ts)"
  let ?q = "skipWhitespaceAndComments p"
  have w: "wordy ''TRUE''" "wordy ''FALSE''" "wordy ''NULL''"
    by (simp_all add: wordy_def word_char_def isalnum_def isalpha_def less_eq_char_def)
  have q: "sees ?q (lit v # ts)" by (rule sees_skip_again [OF p])
  have hd: "sp_rest ?q \<noteq> []" "hd (sp_rest ?q) \<noteq> CHR 0x27" "hd (sp_rest ?q) \<noteq> CHR 0x22"
    using sees_skip [OF p] assms by (auto simp: unwords_Cons split: if_splits)
  consider "v = VBool True" | "v = VBool False" | "v = VNull" using assms by (cases v) auto
  then have "\<exists>p'. consumeValueLiteral p = (p', Some v) \<and> sees p' ts"
  proof cases
    case 1
    then show ?thesis using hd kw_consume [OF kw_word [OF w(1,1)]] q
      by (fastforce simp: consumeValueLiteral_def Let_def)
  next
    case 2
    obtain p1 where p1: "consumeKeyword ''TRUE'' ?q = (p1, False)" "sees p1 (''FALSE'' # ts)"
      using kw_consume [OF kw_word [OF w(2,1)], of ?q ts] q 2 by (auto simp: toupper_def less_eq_char_def)
    then show ?thesis using hd kw_consume [OF kw_word [OF w(2,2)] p1(2)] 2
      by (auto simp: consumeValueLiteral_def Let_def)
  next
    case 3
    obtain p1 where p1: "consumeKeyword ''TRUE'' ?q = (p1, False)" "sees p1 (''NULL'' # ts)"
      using kw_consume [OF kw_word [OF w(3,1)], of ?q ts] q 3 by (auto simp: toupper_def less_eq_char_def)
    obtain p2 where p2: "consumeKeyword ''FALSE'' p1 = (p2, False)" "sees p2 (''NULL'' # ts)"
      using kw_consume [OF kw_word [OF w(3,2)] p1(2)] by (auto simp: toupper_def less_eq_char_def)
    show ?thesis using hd p1 p2 kw_consume [OF kw_word [OF w(3,3)] p2(2)] 3
      by (auto simp: consumeValueLiteral_def Let_def)
  qed
  then show "\<exists>p'. opt_value p = Inr (p', Some (Some v)) \<and> sees p' ts" by (auto simp: opt_value_def)
qed

lemma skip_sign_digits: "ds \<noteq> [] \<Longrightarrow> \<forall>c \<in> set ds. is_digit c \<Longrightarrow> skip_sign (ds @ r) = ds @ r"
  by (cases ds) (auto simp: skip_sign_def is_digit_def less_eq_char_def)

lemma show_int_scan: "scan_number (skip_sign (show_int i @ after ts)) False False = (after ts, False, False)"
proof -
  have "skip_sign (show_int i @ after ts) = show_nat (nat \<bar>i\<bar>) @ after ts"
  proof (cases "i < 0")
    case True
    then show ?thesis by (simp add: show_int_def skip_sign_def)
  next
    case False
    then show ?thesis using skip_sign_digits [OF show_nat_nonempty show_nat_digits] by (simp add: show_int_def)
  qed
  then show ?thesis using scan_digits [OF show_nat_digits] by (simp add: scan_after)
qed

lemma show_int_head:
  "show_int i \<noteq> []" "is_digit (hd (show_int i)) \<or> hd (show_int i) = CHR ''-''" "take 2 (show_int i) \<noteq> ''--''"
proof -
  have no: "hd (show_nat n) \<noteq> CHR ''-''" for n using show_nat_head [of n] by (auto simp: is_digit_def less_eq_char_def)
  have first: "hd s = c" if "take 1 s = c # r" for s r :: string and c using that by (cases s) auto
  show "take 2 (show_int i) \<noteq> ''--''"
  proof
    assume "take 2 (show_int i) = ''--''"
    then have "hd (show_int i) = CHR ''-''" "take 1 (tl (show_int i)) = ''-''" by (cases "show_int i"; auto)+
    then show False using no first [of "tl (show_int i)"] by (cases "i < 0") (auto simp: show_int_def)
  qed
qed (simp_all add: show_int_def show_nat_head)

lemma show_int_tok: "tok_ok (show_int i)"
  using show_int_head [of i] by (cases "show_int i") (auto simp: tok_ok_def is_digit_def isspace_def less_eq_char_def)

lemma value_int: "runs opt_value (lit (VInt64 i) # ts) (Some (VInt64 i)) ts"
  unfolding runs_def
proof (intro allI impI)
  fix p
  assume p: "sees p (lit (VInt64 i) # ts)"
  let ?t = "show_int (sint i)" and ?q = "skipWhitespaceAndComments p"
  have hdt: "toupper (hd ?t) \<noteq> toupper (CHR ''T'')" "toupper (hd ?t) \<noteq> toupper (CHR ''F'')" "toupper (hd ?t) \<noteq> toupper (CHR ''N'')"
      "hd ?t \<noteq> CHR 0x27" "hd ?t \<noteq> CHR 0x22"
    using show_int_head(2) [of "sint i"] by (auto simp: toupper_def is_digit_def less_eq_char_def)
  have q: "sees ?q (?t # ts)" using sees_skip_again [OF p] by simp
  obtain p1 where p1: "consumeKeyword ''TRUE'' ?q = (p1, False)" "sees p1 (?t # ts)"
    using kw_consume [OF kw_punct [OF show_int_tok, of "sint i" "''TRUE''"] q] hdt by auto
  obtain p2 where p2: "consumeKeyword ''FALSE'' p1 = (p2, False)" "sees p2 (?t # ts)"
    using kw_consume [OF kw_punct [OF show_int_tok, of "sint i" "''FALSE''"] p1(2)] hdt by auto
  obtain p3 where p3: "consumeKeyword ''NULL'' p2 = (p3, False)" "sees p3 (?t # ts)"
    using kw_consume [OF kw_punct [OF show_int_tok, of "sint i" "''NULL''"] p2(2)] hdt by auto
  have "p3 = skipWhitespaceAndComments p2" using p3(1) by (auto simp: consumeKeyword_def Let_def split: if_splits)
  then have rest: "sp_rest p3 = ?t @ after ts" using sees_skip [OF p2(2)] by (simp add: unwords_Cons)
  have hd: "sp_rest ?q \<noteq> []" "hd (sp_rest ?q) = hd ?t"
    using sees_skip [OF p] show_int_head(1) by (auto simp: unwords_Cons)
  have "consumeValueLiteral p = (set_rest (after ts) p3, Some (VInt64 i))"
    using hd hdt p1 p2 p3 rest show_int_head(1) by (simp add: consumeValueLiteral_def Let_def show_int_scan strtoll_show_int)
  then show "\<exists>p'. opt_value p = Inr (p', Some (Some (VInt64 i))) \<and> sees p' ts"
    using p sees_after [of ts "set_rest (after ts) p3"] by (auto simp: opt_value_def sees_def)
qed

lemma runs_value: "plain_value v \<Longrightarrow> runs opt_value (lit v # ts) (Some v) ts"
  by (cases v) (simp_all only: plain_value.simps, (rule value_word value_int value_text; simp)+)

lemma lit_tok: "plain_value v \<Longrightarrow> tok_ok (lit v)"
  using show_int_tok by (cases v) (auto simp: tok_ok_def isspace_def less_eq_char_def)

section \<open>Predicates\<close>

primrec op_toks :: "ComparisonOp \<Rightarrow> string list" where
  "op_toks Equals = [''='']"
| "op_toks NotEquals = [''!='']"
| "op_toks Less = [''<'']"
| "op_toks LessEquals = [''<='']"
| "op_toks Greater = [''>'']"
| "op_toks GreaterEquals = [''>='']"
| "op_toks IsNull = [''IS'', ''NULL'']"
| "op_toks IsNotNull = [''IS'', ''NOT'', ''NULL'']"

lemma keyword_words [simp]:
  "wordy ''IS''" "wordy ''NULL''" "wordy ''NOT''" "wordy ''AND''" "wordy ''OR''" "wordy ''WHERE''" "wordy ''SELECT''"
  "wordy ''FROM''" "wordy ''ORDER''" "wordy ''BY''" "wordy ''LIMIT''" "wordy ''OFFSET''" "wordy ''ASC''" "wordy ''DESC''"
  "wordy ''NULLS''" "wordy ''FIRST''" "wordy ''LAST''" "wordy ''INSERT''" "wordy ''INTO''" "wordy ''VALUES''"
  "wordy ''UPDATE''" "wordy ''SET''" "wordy ''DELETE''" "wordy ''INNER''" "wordy ''LEFT''" "wordy ''JOIN''"
  "wordy ''CREATE''" "wordy ''DROP''" "wordy ''ALTER''" "wordy ''BEGIN''" "wordy ''COMMIT''" "wordy ''ROLLBACK''"
  "wordy ''TABLE''" "wordy ''DEFAULT''" "wordy ''TRANSACTION''" "wordy ''ADD''" "wordy ''COLUMN''" "wordy ''RENAME''" "wordy ''TO''"
  by (simp_all add: wordy_def word_char_def isalnum_def isalpha_def less_eq_char_def)

lemma kw_hit: "wordy k \<Longrightarrow> runs (kw k) (k # ts) True ts"
  using kw_word [of k k ts] by simp

lemma kw_other: "wordy t \<Longrightarrow> wordy k \<Longrightarrow> map toupper t \<noteq> map toupper k \<Longrightarrow> runs (kw k) (t # ts) False (t # ts)"
  using kw_word [of t k ts] by simp

text \<open>One token of a method: the test is decided and the method goes on with its outcome.\<close>

lemmas upper_simps = toupper_def less_eq_char_def

lemma kw_step:
  "wordy t \<Longrightarrow> wordy k \<Longrightarrow> runs (g (map toupper t = map toupper k)) (if map toupper t = map toupper k then ts else t # ts) x us \<Longrightarrow>
     runs (pbind (kw k) g) (t # ts) x us"
  by (rule runs_bind [OF kw_word])

text \<open>Tokens that are no words: operators, punctuation, quoted texts.\<close>

definition nonword :: "string \<Rightarrow> bool" where
  "nonword t \<longleftrightarrow> tok_ok t \<and> \<not> word_char (hd t)"

lemma toupper_cases: "toupper c = c \<or> (isalpha c \<and> toupper c = char_of (of_char c - 32 :: nat))"
  by (simp add: toupper_def isalpha_def)

lemma word_toupper: "word_char (toupper c) \<longleftrightarrow> word_char c"
proof (cases "CHR ''a'' \<le> c \<and> c \<le> CHR ''z''")
  case True
  then have "65 \<le> of_char c - (32 :: nat)" "of_char c - (32 :: nat) \<le> 90" by (auto simp: less_eq_char_def)
  then have "isalpha (toupper c)" using True by (simp add: toupper_def isalpha_def less_eq_char_def)
  then show ?thesis using True by (simp add: word_char_def isalnum_def isalpha_def)
qed (auto simp: toupper_def)

lemma upper_word: "word_char d \<Longrightarrow> toupper c = toupper d \<Longrightarrow> word_char c"
  using word_toupper by metis

lemma kw_step_nonword: "nonword t \<Longrightarrow> wordy k \<Longrightarrow> runs (g False) (t # ts) x us \<Longrightarrow> runs (pbind (kw k) g) (t # ts) x us"
  by (rule runs_bind [OF kw_punct]) (auto simp: nonword_def wordy_def dest: upper_word [of "hd k" "hd t"])

lemma kw_step_end: "wordy k \<Longrightarrow> runs (g False) [] x us \<Longrightarrow> runs (pbind (kw k) g) [] x us"
  by (rule runs_bind [OF kw_end]) (auto simp: wordy_def)

lemma symbol_step:
  "s \<noteq> [] \<Longrightarrow> t \<noteq> [] \<Longrightarrow> length s \<le> Suc (length t) \<Longrightarrow> starts_with s t \<longrightarrow> t = s \<Longrightarrow>
     runs (g (t = s)) (if t = s then ts else t # ts) x us \<Longrightarrow> runs (pbind (symbol s) g) (t # ts) x us"
  using runs_bind [OF symbol_hit, of s g ts x us] runs_bind [OF symbol_miss, of s t g ts x us] by (cases "t = s") auto

lemma symbol_step_end: "s \<noteq> [] \<Longrightarrow> runs (g False) [] x us \<Longrightarrow> runs (pbind (symbol s) g) [] x us"
  by (rule runs_bind [OF symbol_end])

lemma operators_nonword [simp]:
  "nonword ''=''" "nonword ''!=''" "nonword ''<''" "nonword ''<=''" "nonword ''>''" "nonword ''>=''" "nonword '',''" "nonword ''(''" "nonword '')''" "nonword ''*''"
  by (simp_all add: nonword_def tok_ok_def isspace_def less_eq_char_def word_char_def isalnum_def isalpha_def is_digit_def)

lemma runs_op: "runs parseComparisonOp (op_toks cmp @ ts) (Some cmp) ts"
  unfolding parseComparisonOp_def
  by (cases cmp; simp,
      (rule runs_ret | (rule kw_step, simp, simp, simp add: upper_simps) | (rule kw_step_nonword, simp, simp, simp only: if_False)
        | (rule symbol_step, simp, simp, simp, simp add: starts_with_def, simp))+)

text \<open>A keyword is not next: the text ends, or another word or a token that is no word follows.\<close>

definition stops :: "string \<Rightarrow> string list \<Rightarrow> bool" where
  "stops k ts \<longleftrightarrow> ts = [] \<or> nonword (hd ts) \<or> (wordy (hd ts) \<and> map toupper (hd ts) \<noteq> map toupper k)"

lemma kw_stops: "wordy k \<Longrightarrow> stops k ts \<Longrightarrow> runs (g False) ts x us \<Longrightarrow> runs (pbind (kw k) g) ts x us"
  using kw_step [of "hd ts" k g "tl ts"] kw_step_nonword [of "hd ts" k g "tl ts"] kw_step_end [of k g]
  by (cases ts) (auto simp: stops_def)

text \<open>Comparisons joined by AND, these joined by OR.\<close>

type_synonym comparison = "string \<times> ComparisonOp \<times> Value"

fun cmp_node :: "comparison \<Rightarrow> PredicateNode" where
  "cmp_node (col, cmp, v) = ComparisonNode col cmp v"

fun cmp_toks :: "comparison \<Rightarrow> string list" where
  "cmp_toks (col, cmp, v) = col # op_toks cmp @ (if cmp = IsNull \<or> cmp = IsNotNull then [] else [lit v])"

fun plain_cmp :: "comparison \<Rightarrow> bool" where
  "plain_cmp (col, cmp, v) \<longleftrightarrow> plain_ident col \<and> (if cmp = IsNull \<or> cmp = IsNotNull then v = VNull else plain_value v)"

definition join_node :: "LogicalOp \<Rightarrow> PredicateNode list \<Rightarrow> PredicateNode" where
  "join_node lop ns = foldl (\<lambda>t n. LogicalNode lop [Some t, Some n]) (hd ns) (tl ns)"

definition sep_by :: "string \<Rightarrow> string list list \<Rightarrow> string list" where
  "sep_by s xs = (if xs = [] then [] else hd xs @ concat (map ((#) s) (tl xs)))"

definition dnf_node :: "comparison list list \<Rightarrow> PredicateNode" where
  "dnf_node ds = join_node Or (map (\<lambda>cs. join_node And (map cmp_node cs)) ds)"

definition dnf_toks :: "comparison list list \<Rightarrow> string list" where
  "dnf_toks ds = sep_by ''OR'' (map (\<lambda>cs. sep_by ''AND'' (map cmp_toks cs)) ds)"

definition plain_dnf :: "comparison list list \<Rightarrow> bool" where
  "plain_dnf ds \<longleftrightarrow> ds \<noteq> [] \<and> (\<forall>cs \<in> set ds. cs \<noteq> [] \<and> (\<forall>c \<in> set cs. plain_cmp c))"

lemma runs_cmp: "plain_cmp c \<Longrightarrow> runs parsePrimExpr (cmp_toks c @ ts) (Some (cmp_node c)) ts"
proof (cases c)
  case (fields col cmp v)
  assume "plain_cmp c"
  then have c: "plain_ident col" "cmp = IsNull \<or> cmp = IsNotNull \<longrightarrow> v = VNull" "\<not> (cmp = IsNull \<or> cmp = IsNotNull) \<longrightarrow> plain_value v"
    by (auto simp: fields split: if_splits)
  have "runs (if cmp = IsNull \<or> cmp = IsNotNull then ret (Some (ComparisonNode col cmp VNull))
      else pbind opt_value (\<lambda>v. ret (map_option (ComparisonNode col cmp) v)))
      ((if cmp = IsNull \<or> cmp = IsNotNull then [] else [lit v]) @ ts) (Some (cmp_node (col, cmp, v))) ts"
    using c by (auto simp: runs_ret intro: runs_bind [OF runs_value])
  then show ?thesis unfolding parsePrimExpr_def fields cmp_toks.simps append_Cons append_assoc
    by (intro runs_bind [OF runs_ident [OF c(1)]], unfold option.case, intro runs_bind [OF runs_op]) (simp only: option.case)
qed

lemma runs_and_loop:
  "\<forall>c \<in> set cs. plain_cmp c \<Longrightarrow> stops ''AND'' ts \<Longrightarrow>
     runs (and_loop (Some t)) (concat (map ((#) ''AND'') (map cmp_toks cs)) @ ts)
       (Some (foldl (\<lambda>t n. LogicalNode And [Some t, Some n]) t (map cmp_node cs))) ts"
proof (induction cs arbitrary: t)
  case Nil
  then show ?case by (subst ext [OF and_loop.simps]) (auto intro!: kw_stops simp: runs_ret)
next
  case (Cons c cs)
  then show ?case
    by (subst ext [OF and_loop.simps]) (auto intro!: runs_bind [OF kw_hit] runs_bind [OF runs_cmp])
qed

lemma runs_and:
  assumes "cs \<noteq> []" "\<forall>c \<in> set cs. plain_cmp c" "stops ''AND'' ts"
  shows "runs parseAndExpr (sep_by ''AND'' (map cmp_toks cs) @ ts) (Some (join_node And (map cmp_node cs))) ts"
proof (cases cs)
  case (Cons c cs')
  then show ?thesis
    using assms runs_bind [where f = and_loop, OF runs_cmp [of c "concat (map ((#) ''AND'') (map cmp_toks cs')) @ ts"] runs_and_loop [of cs' ts]]
    by (simp add: parseAndExpr_def sep_by_def join_node_def)
qed (use assms in simp)

lemma stops_rest: "stops ''AND'' ts \<Longrightarrow> stops ''AND'' (concat (map ((#) ''OR'') xs) @ ts)"
  by (cases xs) (auto simp: stops_def upper_simps)

lemma runs_or_loop:
  "\<forall>cs \<in> set ds. cs \<noteq> [] \<and> (\<forall>c \<in> set cs. plain_cmp c) \<Longrightarrow> stops ''AND'' ts \<Longrightarrow> stops ''OR'' ts \<Longrightarrow>
     runs (or_loop (Some t)) (concat (map ((#) ''OR'') (map (\<lambda>cs. sep_by ''AND'' (map cmp_toks cs)) ds)) @ ts)
       (Some (foldl (\<lambda>t n. LogicalNode Or [Some t, Some n]) t (map (\<lambda>cs. join_node And (map cmp_node cs)) ds))) ts"
proof (induction ds arbitrary: t)
  case Nil
  then show ?case by (subst ext [OF or_loop.simps]) (auto intro!: kw_stops simp: runs_ret)
next
  case (Cons cs ds)
  then show ?case using stops_rest [of ts "map (\<lambda>cs. sep_by ''AND'' (map cmp_toks cs)) ds"]
    by (subst ext [OF or_loop.simps]) (auto intro!: runs_bind [OF kw_hit] runs_bind [OF runs_and])
qed

lemma runs_dnf:
  assumes "plain_dnf ds" "stops ''AND'' ts" "stops ''OR'' ts"
  shows "runs parsePredicate (dnf_toks ds @ ts) (Some (dnf_node ds)) ts"
proof (cases ds)
  case (Cons cs ds')
  let ?more = "concat (map ((#) ''OR'') (map (\<lambda>cs. sep_by ''AND'' (map cmp_toks cs)) ds'))"
  show ?thesis using assms runs_bind [where f = or_loop, OF runs_and [of cs "?more @ ts", OF _ _ stops_rest] runs_or_loop [of ds' ts]] Cons
    by (simp add: parsePredicate_def parseOrExpr_def dnf_toks_def dnf_node_def sep_by_def [of "''OR''"] join_node_def [of Or] plain_dnf_def)
qed (use assms in \<open>simp add: plain_dnf_def\<close>)

lemma runs_where:
  assumes "case w of None \<Rightarrow> stops ''WHERE'' ts | Some ds \<Rightarrow> plain_dnf ds \<and> stops ''AND'' ts \<and> stops ''OR'' ts"
  shows "runs where_clause ((case w of None \<Rightarrow> [] | Some ds \<Rightarrow> ''WHERE'' # dnf_toks ds) @ ts) (map_option (\<lambda>ds. Some (dnf_node ds)) w) ts"
proof (cases w)
  case None
  then show ?thesis using assms by (auto simp: where_clause_def intro!: kw_stops runs_ret)
next
  case (Some ds)
  then show ?thesis using assms
    by (auto simp: where_clause_def intro!: runs_bind [OF kw_hit] runs_bind [OF runs_dnf] runs_ret)
qed

text \<open>AND binds tighter than OR: what the tree of a printed condition means.\<close>

lemma sat_join: "ns \<noteq> [] \<Longrightarrow> sat (join_node lop ns) row = (if lop = And then \<forall>n \<in> set ns. sat n row else \<exists>n \<in> set ns. sat n row)"
proof -
  have "sat (foldl (\<lambda>t n. LogicalNode lop [Some t, Some n]) t ns) row
      = (if lop = And then sat t row \<and> (\<forall>n \<in> set ns. sat n row) else sat t row \<or> (\<exists>n \<in> set ns. sat n row))" for t ns
    by (induction ns arbitrary: t) (cases lop; auto)+
  then show "ns \<noteq> [] \<Longrightarrow> ?thesis" by (cases ns) (auto simp: join_node_def)
qed

lemma sat_dnf: "plain_dnf ds \<Longrightarrow> sat (dnf_node ds) row = (\<exists>cs \<in> set ds. \<forall>c \<in> set cs. sat (cmp_node c) row)"
  by (auto simp: dnf_node_def plain_dnf_def sat_join)

end
