(* ===== verification/Sql_Roundtrip.thy ===== *)
theory Sql_Roundtrip
  imports Sql_Laws
begin

text \<open>
  The front end reads what it should: a printer for commands (all four kinds, with conditions, ordering,
  limits and joins) and the proof that \<open>sql_parse\<close> returns the printed command. The last sections
  have the shape of the statements that the parser returns and the texts that it accepts although
  they are cut off.
\<close>

section \<open>Lists of tokens\<close>

lemma sep_by_simps [simp]:
  "sep_by s [] = []" "sep_by s [x] = x" "sep_by s (x # y # ys) = x @ s # sep_by s (y # ys)"
  by (simp_all add: sep_by_def)

text \<open>What may follow a list: the end of the text, or a word.\<close>

definition free :: "string list \<Rightarrow> bool" where
  "free ts \<longleftrightarrow> ts = [] \<or> wordy (hd ts)"

lemma free_simps [simp]: "free []" "wordy t \<Longrightarrow> free (t # ts)"
  by (simp_all add: free_def)

lemma symbol_free:
  assumes "s \<noteq> []" "\<not> word_char (hd s)" "length s \<le> 2" "free ts" "runs (g False) ts x us"
  shows "runs (pbind (symbol s) g) ts x us"
proof (cases ts)
  case Nil
  then show ?thesis using assms(5) symbol_step_end [OF assms(1)] by simp
next
  case (Cons t ts')
  then have "t \<noteq> []" "word_char (hd t)" using assms(4) by (auto simp: free_def wordy_def)
  moreover from this have "length s \<le> Suc (length t)" using assms(3) by (cases t) auto
  moreover have "hd t = hd s" if "starts_with s t"
    using that \<open>t \<noteq> []\<close> assms(1) by (cases t; cases s) (auto simp: starts_with_def)
  ultimately have "\<not> starts_with s t" "length s \<le> Suc (length t)" using assms(2) by auto
  then show ?thesis using runs_bind [OF symbol_miss [of s t], of g ts' x us] \<open>t \<noteq> []\<close> Cons assms(5) by simp
qed

lemma punctuation [simp]:
  "\<not> word_char (CHR '','')" "\<not> word_char (CHR ''('')" "\<not> word_char (CHR '')'')" "\<not> word_char (CHR ''*'')" "\<not> word_char (CHR ''='')"
  "\<not> word_char (CHR ''.'')"
  by (simp_all add: word_char_def isalnum_def isalpha_def is_digit_def less_eq_char_def)

lemma ident_wordy [simp]: "plain_ident t \<Longrightarrow> wordy t"
  by (simp add: plain_ident_def)

lemma symbol_next: "s \<noteq> [] \<Longrightarrow> runs (g True) ts x us \<Longrightarrow> runs (pbind (symbol s) g) (s # ts) x us"
  by (rule runs_bind [OF symbol_hit])

lemma kw_next: "wordy k \<Longrightarrow> runs (g True) ts x us \<Longrightarrow> runs (pbind (kw k) g) (k # ts) x us"
  by (rule runs_bind [OF kw_hit])

lemma runs_projections:
  "cols \<noteq> [] \<Longrightarrow> \<forall>c \<in> set cols. plain_ident c \<Longrightarrow> free ts \<Longrightarrow>
     runs (projection_list acc) (sep_by '','' (map (\<lambda>c. [c]) cols) @ ts) (acc @ cols) ts"
proof (induction cols arbitrary: acc rule: list_nonempty_induct)
  case (single c)
  then show ?case by (subst ext [OF projection_list.simps]) (auto intro!: runs_bind [OF runs_need_ident] symbol_free simp: runs_ret)
next
  case (cons c cols)
  then obtain d ds where "cols = d # ds" by (cases cols) auto
  with cons show ?case using cons.IH [of "acc @ [c]"]
    by (subst ext [OF projection_list.simps]) (auto intro!: runs_bind [OF runs_need_ident] symbol_next)
qed

definition dir_tok :: "SortDirection \<Rightarrow> string" where
  "dir_tok d = (if d = Asc then ''ASC'' else ''DESC'')"

definition nulls_toks :: "bool option \<Rightarrow> string list" where
  "nulls_toks b = (case b of None \<Rightarrow> [] | Some b \<Rightarrow> [''NULLS'', if b then ''FIRST'' else ''LAST''])"

definition order_toks :: "OrderBySpec \<Rightarrow> string list" where
  "order_toks s = ob_column s # dir_tok (ob_direction s) # nulls_toks (ob_nullsFirst s)"

lemma runs_direction: "runs order_direction (dir_tok d # ts) d ts"
  unfolding order_direction_def dir_tok_def
  by (cases d) (auto intro!: kw_next runs_ret kw_step [of "''DESC''" "''ASC''"] simp: upper_simps)

lemma runs_nulls: "(b = None \<Longrightarrow> stops ''NULLS'' ts) \<Longrightarrow> runs nulls_clause (nulls_toks b @ ts) b ts"
  unfolding nulls_clause_def nulls_toks_def
  by (auto split: option.split intro!: kw_stops kw_next runs_ret kw_step [of "''LAST''" "''FIRST''"] simp: upper_simps)

lemma stops_comma: "stops k ('','' # ts)"
  by (simp add: stops_def)

lemma order_eta [simp]: "\<lparr>ob_column = ob_column s, ob_direction = ob_direction s, ob_nullsFirst = ob_nullsFirst s\<rparr> = s"
  by simp

lemma runs_order:
  "specs \<noteq> [] \<Longrightarrow> \<forall>s \<in> set specs. plain_ident (ob_column s) \<Longrightarrow> free ts \<Longrightarrow> stops ''NULLS'' ts \<Longrightarrow>
     runs (order_list acc) (sep_by '','' (map order_toks specs) @ ts) (acc @ specs) ts"
proof (induction specs arbitrary: acc rule: list_nonempty_induct)
  case (single s)
  then show ?case
    by (subst ext [OF order_list.simps])
      (auto simp: order_toks_def runs_ret Let_def intro!: runs_bind [OF runs_need_ident] runs_bind [OF runs_direction] runs_bind [OF runs_nulls] symbol_free)
next
  case (cons s specs)
  then obtain d ds where "specs = d # ds" by (cases specs) auto
  with cons show ?case using cons.IH [of "acc @ [s]"]
    by (subst ext [OF order_list.simps])
      (auto simp: order_toks_def [of s] Let_def stops_comma intro!: runs_bind [OF runs_need_ident] runs_bind [OF runs_direction] runs_bind [OF runs_nulls] symbol_next)
qed

definition count_tok :: "nat \<Rightarrow> string" where
  "count_tok n = lit (VInt64 (of_nat n))"

definition limit_toks :: "nat option \<Rightarrow> nat option \<Rightarrow> string list" where
  "limit_toks lim off =
     (case lim of None \<Rightarrow> [] | Some n \<Rightarrow> [''LIMIT'', count_tok n]) @ (case off of None \<Rightarrow> [] | Some n \<Rightarrow> [''OFFSET'', count_tok n])"

lemma runs_count: "n < 2 ^ 63 \<Longrightarrow> runs (count_value m) (count_tok n # ts) n ts"
  unfolding count_value_def count_tok_def
  by (rule runs_bind [OF runs_value]) (auto simp: unsigned_of_nat take_bit_nat_eq_self runs_ret)

lemma runs_offset:
  "pred_option (\<lambda>n. n < 2 ^ 63) off \<Longrightarrow> stops ''OFFSET'' ts \<Longrightarrow>
     runs offset_clause ((case off of None \<Rightarrow> [] | Some n \<Rightarrow> [''OFFSET'', count_tok n]) @ ts) off ts"
  unfolding offset_clause_def
  by (cases off) (auto intro!: kw_stops kw_next runs_bind [OF runs_count] runs_ret)

lemma runs_limit:
  assumes "pred_option (\<lambda>n. n < 2 ^ 63) lim" "pred_option (\<lambda>n. n < 2 ^ 63) off" "stops ''OFFSET'' ts" "stops ''LIMIT'' ts"
  shows "runs limit_clause (limit_toks lim off @ ts) (lim, off) ts"
proof -
  have "stops ''LIMIT'' ((case off of None \<Rightarrow> [] | Some n \<Rightarrow> [''OFFSET'', count_tok n]) @ ts)"
    using assms(4) by (cases off) (auto simp: stops_def upper_simps)
  then show ?thesis using assms unfolding limit_clause_def limit_toks_def
    by (cases lim) (auto intro!: kw_stops kw_next runs_bind [OF runs_count] runs_bind [OF runs_offset] runs_ret)
qed

section \<open>Joins\<close>

definition qual_toks :: "string \<Rightarrow> string list" where
  "qual_toks s = [takeWhile (\<lambda>c. c \<noteq> CHR ''.'') s, ''.'', tl (dropWhile (\<lambda>c. c \<noteq> CHR ''.'') s)]"

definition plain_qual :: "string \<Rightarrow> bool" where
  "plain_qual s \<longleftrightarrow> CHR ''.'' \<in> set s \<and> plain_ident (takeWhile (\<lambda>c. c \<noteq> CHR ''.'') s) \<and> plain_ident (tl (dropWhile (\<lambda>c. c \<noteq> CHR ''.'') s))"

definition join_toks :: "JoinClause \<Rightarrow> string list" where
  "join_toks j =
     (if jc_kind j = Inner then ''INNER'' else ''LEFT'') # ''JOIN'' # jc_table j # ''ON''
       # qual_toks (jc_leftColumn j) @ ''='' # qual_toks (jc_rightColumn j)"

definition plain_join :: "JoinClause \<Rightarrow> bool" where
  "plain_join j \<longleftrightarrow> plain_ident (jc_table j) \<and> plain_qual (jc_leftColumn j) \<and> plain_qual (jc_rightColumn j)"

lemma wordy_ON [simp]: "wordy ''ON''"
  by (simp add: wordy_def word_char_def isalnum_def isalpha_def less_eq_char_def)

lemma qual_split: "CHR ''.'' \<in> set s \<Longrightarrow> takeWhile (\<lambda>c. c \<noteq> CHR ''.'') s @ CHR ''.'' # tl (dropWhile (\<lambda>c. c \<noteq> CHR ''.'') s) = s"
  by (induction s) auto

lemma join_eta [simp]:
  "\<lparr>jc_kind = jc_kind j, jc_table = jc_table j, jc_leftColumn = jc_leftColumn j, jc_rightColumn = jc_rightColumn j\<rparr> = j"
  by simp

lemma runs_join_rest: "plain_join j \<Longrightarrow> runs (join_rest (jc_kind j)) (tl (tl (join_toks j)) @ ts) j ts"
  unfolding join_rest_def
  by (auto simp: join_toks_def qual_toks_def plain_join_def plain_qual_def qual_split runs_ret
      intro!: runs_bind [OF runs_need_ident] runs_bind [OF runs_need_kw] runs_bind [OF runs_need_symbol])

lemma runs_join_kind: "runs join_kind (take 2 (join_toks j) @ ts) (Some (jc_kind j)) ts"
  unfolding join_kind_def
  by (cases "jc_kind j") (auto simp: join_toks_def upper_simps intro!: kw_next kw_step [of "''LEFT''" "''INNER''"] runs_ret)

lemma runs_joins:
  "\<forall>j \<in> set js. plain_join j \<Longrightarrow> runs (join_list acc) (concat (map join_toks js)) (acc @ js) []"
proof (induction js arbitrary: acc)
  case Nil
  then show ?case
    by (subst ext [OF join_list.simps]) (rule runs_bind [of _ _ None "[]"], auto simp: join_kind_def runs_ret intro!: kw_step_end)
next
  case (Cons j js)
  have toks: "concat (map join_toks (j # js)) = take 2 (join_toks j) @ tl (tl (join_toks j)) @ concat (map join_toks js)"
    by (simp add: join_toks_def)
  have "runs (pbind (join_rest (jc_kind j)) (\<lambda>j. join_list (acc @ [j]))) (tl (tl (join_toks j)) @ concat (map join_toks js)) (acc @ j # js) []"
    using Cons.prems Cons.IH [of "acc @ [j]"] by (auto intro!: runs_bind [OF runs_join_rest])
  then show ?case unfolding toks
    by (subst ext [OF join_list.simps]) (rule runs_bind [OF runs_join_kind], simp)
qed

section \<open>Values\<close>

text \<open>The rows of an INSERT: values named by their position.\<close>

definition numbered :: "Value list \<Rightarrow> ColumnValue list" where
  "numbered vs = zip (map show_nat [0..<length vs]) vs"

lemma numbered_simps:
  "length (numbered vs) = length vs" "numbered vs @ [(show_nat (length vs), v)] = numbered (vs @ [v])"
  "show_nat (length vs) \<notin> fst ` set (numbered vs)"
  by (auto simp: numbered_def show_nat_inj set_zip)

lemma tset_numbered: "tset (Tuple_of (numbered vs)) (show_nat (length vs)) v = Tuple_of (numbered (vs @ [v]))"
  by (simp add: tset_fresh numbered_simps)

lemma size_numbered: "tuple_size (Tuple_of (numbered vs)) = length vs"
  by (simp add: tuple_size_def numbered_simps)

lemma runs_values:
  "vs \<noteq> [] \<Longrightarrow> \<forall>v \<in> set vs. plain_value v \<Longrightarrow>
     runs (value_list (Tuple_of (numbered acc))) (sep_by '','' (map (\<lambda>v. [lit v]) vs) @ '')'' # ts) (Tuple_of (numbered (acc @ vs))) ts"
proof (induction vs arbitrary: acc rule: list_nonempty_induct)
  case (single v)
  then show ?case
    by (subst ext [OF value_list.simps])
      (auto simp: size_numbered tset_numbered runs_ret starts_with_def intro!: runs_bind [OF runs_value] symbol_step [of "'',''" "'')''"] symbol_next)
next
  case (cons v vs)
  then obtain w ws where "vs = w # ws" by (cases vs) auto
  with cons show ?case using cons.IH [of "acc @ [v]"]
    by (subst ext [OF value_list.simps])
      (auto simp: size_numbered tset_numbered intro!: runs_bind [OF runs_value] symbol_next)
qed

lemma runs_sets:
  "cs \<noteq> [] \<Longrightarrow> \<forall>(c, v) \<in> set cs. plain_ident c \<and> plain_value v \<Longrightarrow> distinct (map fst (acc @ cs)) \<Longrightarrow> free ts \<Longrightarrow>
     runs (set_list (Tuple_of acc)) (sep_by '','' (map (\<lambda>(c, v). [c, ''='', lit v]) cs) @ ts) (Tuple_of (acc @ cs)) ts"
proof (induction cs arbitrary: acc rule: list_nonempty_induct)
  case (single c)
  then show ?case
    by (subst ext [OF set_list.simps], cases c)
      (auto simp: tset_fresh runs_ret intro!: runs_bind [OF runs_need_ident] runs_bind [OF runs_need_symbol] runs_bind [OF runs_value] symbol_free)
next
  case (cons c cs)
  then obtain d ds where "cs = d # ds" by (cases cs) auto
  with cons show ?case using cons.IH [of "acc @ [c]"]
    by (subst ext [OF set_list.simps], cases c)
      (auto simp: tset_fresh intro!: runs_bind [OF runs_need_ident] runs_bind [OF runs_need_symbol] runs_bind [OF runs_value] symbol_next)
qed

section \<open>Commands\<close>

definition where_toks :: "comparison list list option \<Rightarrow> string list" where
  "where_toks w = (case w of None \<Rightarrow> [] | Some ds \<Rightarrow> ''WHERE'' # dnf_toks ds)"

definition select_tail :: "Command \<Rightarrow> string list" where
  "select_tail c =
     (if cmd_orderBy c = [] then [] else ''ORDER'' # ''BY'' # sep_by '','' (map order_toks (cmd_orderBy c)))
       @ limit_toks (cmd_limit c) (cmd_offset c) @ concat (map join_toks (cmd_joins c))"

text \<open>The tokens of a command whose condition is \<open>w\<close>.\<close>

definition cmd_toks :: "Command \<Rightarrow> comparison list list option \<Rightarrow> string list" where
  "cmd_toks c w =
     (let cols = (case cmd_values c of None \<Rightarrow> [] | Some t \<Rightarrow> tcolumns t) in
      case cmd_type c of
        Select \<Rightarrow> ''SELECT'' # sep_by '','' (map (\<lambda>p. [p]) (cmd_projections c)) @ ''FROM'' # cmd_table c # where_toks w @ select_tail c
      | Insert \<Rightarrow> ''INSERT'' # ''INTO'' # cmd_table c # (if cols = [] then [''DEFAULT'', ''VALUES'']
                    else ''VALUES'' # ''('' # sep_by '','' (map (\<lambda>cv. [lit (snd cv)]) cols) @ ['')''])
      | Update \<Rightarrow> ''UPDATE'' # cmd_table c # ''SET'' # sep_by '','' (map (\<lambda>(n, v). [n, ''='', lit v]) cols) @ where_toks w
      | Delete \<Rightarrow> ''DELETE'' # ''FROM'' # cmd_table c # where_toks w)"

definition plain_tail :: "Command \<Rightarrow> bool" where
  "plain_tail c \<longleftrightarrow>
     (if cmd_type c = Select
      then (cmd_projections c = [''*''] \<or> cmd_projections c \<noteq> [] \<and> (\<forall>p \<in> set (cmd_projections c). plain_ident p))
        \<and> (\<forall>s \<in> set (cmd_orderBy c). plain_ident (ob_column s)) \<and> (\<forall>j \<in> set (cmd_joins c). plain_join j)
        \<and> pred_option (\<lambda>n. n < 2 ^ 63) (cmd_limit c) \<and> pred_option (\<lambda>n. n < 2 ^ 63) (cmd_offset c)
      else cmd_projections c = [] \<and> cmd_orderBy c = [] \<and> cmd_joins c = [] \<and> cmd_limit c = None \<and> cmd_offset c = None)"

definition plain_values :: "Command \<Rightarrow> bool" where
  "plain_values c \<longleftrightarrow>
     (case cmd_values c of
        None \<Rightarrow> cmd_type c = Select \<or> cmd_type c = Delete
      | Some t \<Rightarrow> tuple_wf t \<and> (\<forall>(n, v) \<in> set (tcolumns t). plain_value v) \<and>
          (cmd_type c = Insert \<and> tcolumns t = numbered (map snd (tcolumns t))
           \<or> cmd_type c = Update \<and> tcolumns t \<noteq> [] \<and> distinct (map fst (tcolumns t)) \<and> (\<forall>(n, v) \<in> set (tcolumns t). plain_ident n)))"

definition printable :: "Command \<Rightarrow> comparison list list option \<Rightarrow> bool" where
  "printable c w \<longleftrightarrow> command_wf c \<and> cmd_txnId c = None \<and> plain_ident (cmd_table c) \<and> plain_tail c \<and> plain_values c
     \<and> pred_option plain_dnf w \<and> cmd_where c = map_option (\<lambda>ds. Some (dnf_node ds)) w"

text \<open>The parts of a command begin with keywords that end the part before.\<close>

definition opens_with :: "string set \<Rightarrow> string list \<Rightarrow> bool" where
  "opens_with K ts \<longleftrightarrow> ts = [] \<or> hd ts \<in> K"

lemma begins_stops: "opens_with K ts \<Longrightarrow> \<forall>w \<in> K. wordy w \<and> map toupper w \<noteq> map toupper k \<Longrightarrow> stops k ts"
  by (auto simp: opens_with_def stops_def)

lemma begins_free: "opens_with K ts \<Longrightarrow> \<forall>w \<in> K. wordy w \<Longrightarrow> free ts"
  by (auto simp: opens_with_def free_def)

lemma begins_append: "opens_with K ts \<Longrightarrow> opens_with L us \<Longrightarrow> opens_with (K \<union> L) (ts @ us)"
  by (cases ts) (auto simp: opens_with_def)

lemma begins_parts:
  "opens_with {''INNER'', ''LEFT''} (concat (map join_toks js))"
  "opens_with {''LIMIT'', ''OFFSET''} (limit_toks lim off)"
  "opens_with {''WHERE''} (where_toks w)"
  by (cases js; simp add: opens_with_def join_toks_def)
    (simp_all add: opens_with_def limit_toks_def where_toks_def split: option.splits)

lemma begins_limit: "opens_with {''LIMIT'', ''OFFSET'', ''INNER'', ''LEFT''} (limit_toks lim off @ concat (map join_toks js))"
  using begins_append [OF begins_parts(2,1)] by (simp add: insert_commute)

lemma begins_tail: "opens_with {''ORDER'', ''LIMIT'', ''OFFSET'', ''INNER'', ''LEFT''} (select_tail c)"
  using begins_limit [of "cmd_limit c" "cmd_offset c" "cmd_joins c"] by (auto simp: select_tail_def opens_with_def)

lemma runs_where_toks:
  assumes "pred_option plain_dnf w" "opens_with K ts" "\<forall>k \<in> K. wordy k \<and> map toupper k \<notin> {''WHERE'', ''AND'', ''OR''}"
  shows "runs where_clause (where_toks w @ ts) (map_option (\<lambda>ds. Some (dnf_node ds)) w) ts"
  using runs_where [where w = w and ts = ts] assms begins_stops [OF assms(2)]
  by (cases w) (auto simp: where_toks_def upper_simps)

lemma runs_order_clause:
  assumes "\<forall>s \<in> set specs. plain_ident (ob_column s)" "opens_with {''LIMIT'', ''OFFSET'', ''INNER'', ''LEFT''} ts"
  shows "runs order_clause ((if specs = [] then [] else ''ORDER'' # ''BY'' # sep_by '','' (map order_toks specs)) @ ts) specs ts"
proof -
  have "stops ''ORDER'' ts" "stops ''NULLS'' ts" "free ts"
    using begins_stops [OF assms(2)] begins_free [OF assms(2)] by (auto simp: upper_simps)
  then show ?thesis using assms(1) runs_order [of specs ts "[]"]
    by (auto simp: order_clause_def intro!: kw_stops runs_ret kw_next runs_bind [OF runs_need_kw])
qed

lemma runs_make: "mkCommand ty table wh vals proj None = Inr c \<Longrightarrow> runs (make_command ty table wh vals proj) ts c ts"
  by (simp add: make_command_def runs_def ret_def)

lemma runs_projection_part:
  assumes "ps = [''*''] \<or> ps \<noteq> [] \<and> (\<forall>p \<in> set ps. plain_ident p)" "free ts"
  shows "runs select_projections (sep_by '','' (map (\<lambda>p. [p]) ps) @ ts) ps ts"
proof (cases "ps = [''*'']")
  case True
  then show ?thesis by (auto simp: select_projections_def intro!: symbol_next runs_ret)
next
  case False
  then obtain q qs where "ps = q # qs" "wordy q" using assms(1) by (cases ps) auto
  then have "free (sep_by '','' (map (\<lambda>p. [p]) ps) @ ts)" by (cases qs) simp_all
  then show ?thesis using False assms runs_projections [of ps ts "[]"] unfolding select_projections_def
    by (intro symbol_free) auto
qed

lemma runs_select_clauses:
  assumes "printable c w" "cmd_type c = Select"
  shows "runs (select_clauses (cmd_projections c) (cmd_table c)) (where_toks w @ select_tail c) c []"
proof -
  have parts: "\<forall>s \<in> set (cmd_orderBy c). plain_ident (ob_column s)" "\<forall>j \<in> set (cmd_joins c). plain_join j"
      "pred_option (\<lambda>n. n < 2 ^ 63) (cmd_limit c)" "pred_option (\<lambda>n. n < 2 ^ 63) (cmd_offset c)"
    and c: "pred_option plain_dnf w" "cmd_values c = None" "cmd_txnId c = None"
      "cmd_where c = map_option (\<lambda>ds. Some (dnf_node ds)) w"
    using assms by (auto simp: printable_def plain_tail_def plain_values_def split: option.splits)
  let ?bare = "c\<lparr>cmd_orderBy := [], cmd_limit := None, cmd_offset := None, cmd_joins := []\<rparr>"
  have make: "mkCommand Select (cmd_table c) (map_option (\<lambda>ds. Some (dnf_node ds)) w) None (cmd_projections c) None = Inr ?bare"
    using c assms(2) by (cases c) (simp add: mkCommand_def validate_def Let_def rbind_def)
  have again: "?bare\<lparr>cmd_orderBy := cmd_orderBy c, cmd_limit := cmd_limit c, cmd_offset := cmd_offset c, cmd_joins := cmd_joins c\<rparr> = c"
    by simp
  let ?J = "concat (map join_toks (cmd_joins c))"
  have J: "stops ''OFFSET'' ?J" "stops ''LIMIT'' ?J"
    using begins_stops [OF begins_parts(1)] by (auto simp: upper_simps)
  show ?thesis unfolding select_clauses_def
    apply (rule runs_bind [OF runs_where_toks [OF c(1) begins_tail]], simp add: upper_simps)
    apply (unfold select_tail_def, rule runs_bind [OF runs_order_clause [OF parts(1) begins_limit]])
    apply (rule runs_bind [OF runs_limit [OF parts(3,4) J]], unfold prod.case)
    apply (rule runs_bind [OF runs_make [OF make]])
    apply (rule runs_bind [OF runs_joins [OF parts(2)]])
    apply (unfold append_Nil again, rule runs_ret)
    done
qed

lemma runs_select:
  assumes "printable c w" "cmd_type c = Select"
  shows "runs parseSelect (tl (cmd_toks c w)) c []"
proof -
  have "cmd_projections c = [''*''] \<or> cmd_projections c \<noteq> [] \<and> (\<forall>p \<in> set (cmd_projections c). plain_ident p)"
      "plain_ident (cmd_table c)" using assms by (auto simp: printable_def plain_tail_def)
  then show ?thesis using runs_select_clauses [OF assms] assms(2) unfolding parseSelect_def cmd_toks_def
    by (auto intro!: runs_bind [OF runs_projection_part] runs_bind [OF runs_need_kw] runs_bind [OF runs_need_ident])
qed

lemma make_printable:
  assumes "printable c w" "cmd_type c \<noteq> Select"
  shows "mkCommand (cmd_type c) (cmd_table c) (map_option (\<lambda>ds. Some (dnf_node ds)) w) (cmd_values c) [] None = Inr c"
proof -
  have "validate c = Inr ()" using assms by (simp add: validate_iff printable_def)
  moreover have "c = \<lparr>cmd_type = cmd_type c, cmd_table = cmd_table c, cmd_where = map_option (\<lambda>ds. Some (dnf_node ds)) w,
      cmd_values = cmd_values c, cmd_projections = [], cmd_orderBy = [], cmd_joins = [], cmd_limit = None, cmd_offset = None, cmd_txnId = None\<rparr>"
    using assms by (cases c) (simp add: printable_def plain_tail_def)
  ultimately show ?thesis by (simp add: mkCommand_def Let_def rbind_def)
qed

lemma runs_where_end: "pred_option plain_dnf w \<Longrightarrow> runs where_clause (where_toks w) (map_option (\<lambda>ds. Some (dnf_node ds)) w) []"
  using runs_where_toks [of w "{}" "[]"] by (simp add: opens_with_def)

lemma runs_delete:
  assumes "printable c w" "cmd_type c = Delete"
  shows "runs parseDelete (tl (cmd_toks c w)) c []"
proof -
  have "runs (make_command Delete (cmd_table c) (map_option (\<lambda>ds. Some (dnf_node ds)) w) None []) [] c []"
    using make_printable [OF assms(1)] assms by (intro runs_make) (auto simp: printable_def command_wf_def)
  then show ?thesis using assms unfolding parseDelete_def cmd_toks_def
    by (auto simp: printable_def intro!: kw_next runs_bind [OF runs_need_ident] runs_bind [OF runs_where_end])
qed

lemma runs_update:
  assumes "printable c w" "cmd_type c = Update"
  shows "runs parseUpdate (tl (cmd_toks c w)) c []"
proof -
  obtain t where t: "cmd_values c = Some t" "tuple_wf t" "\<forall>(n, v) \<in> set (tcolumns t). plain_ident n \<and> plain_value v"
      "tcolumns t \<noteq> []" "distinct (map fst (tcolumns t))"
    using assms by (auto simp: printable_def plain_values_def split: option.splits)
  have of: "Tuple_of (tcolumns t) = t" by (rule tuple_eqI) (simp_all add: t)
  have make: "runs (make_command Update (cmd_table c) (map_option (\<lambda>ds. Some (dnf_node ds)) w) (Some t) []) [] c []"
    using make_printable [OF assms(1)] assms t(1) by (intro runs_make) simp
  have "free (where_toks w)" by (rule begins_free [OF begins_parts(3)]) simp
  then have "runs (set_list Tuple_empty) (sep_by '','' (map (\<lambda>(n, v). [n, ''='', lit v]) (tcolumns t)) @ where_toks w) t (where_toks w)"
    using runs_sets [of "tcolumns t" "[]" "where_toks w"] t of by (simp add: Tuple_of_Nil)
  from runs_bind [OF this, of "\<lambda>vals. pbind where_clause (\<lambda>wh. make_command Update (cmd_table c) wh (Some vals) [])"] show ?thesis
    using assms t(1) make unfolding parseUpdate_def cmd_toks_def
    by (auto simp: printable_def intro!: runs_bind [OF runs_need_ident] runs_bind [OF runs_need_kw] runs_bind [OF runs_where_end])
qed

lemma runs_insert:
  assumes "printable c w" "cmd_type c = Insert"
  shows "runs parseInsert (tl (cmd_toks c w)) c []"
proof -
  have "w = None" using assms by (auto simp: printable_def command_wf_def)
  obtain t where t: "cmd_values c = Some t" "tuple_wf t" "\<forall>v \<in> set (map snd (tcolumns t)). plain_value v"
      "tcolumns t = numbered (map snd (tcolumns t))"
    using assms by (auto simp: printable_def plain_values_def split_beta split: option.splits)
  have of: "Tuple_of (numbered (map snd (tcolumns t))) = t" using t(2,4) by (intro tuple_eqI) simp_all
  have make: "runs (make_command Insert (cmd_table c) None (Some t) []) [] c []"
    using make_printable [OF assms(1)] assms t(1) \<open>w = None\<close> by (intro runs_make) simp
  have vals: "runs parseInsertValueList (''('' # sep_by '','' (map (\<lambda>cv. [lit (snd cv)]) (tcolumns t)) @ ['')'']) t []"
    if "tcolumns t \<noteq> []"
    using runs_values [of "map snd (tcolumns t)" "[]" "[]"] t(3) that unfolding of append_Nil
    by (auto simp: parseInsertValueList_def comp_def split_beta numbered_def Tuple_of_Nil intro!: symbol_next)
  have empty: "t = Tuple_empty" if "tcolumns t = []" using t(2) that by (intro tuple_eqI) simp_all
  have "runs (pbind (kw ''VALUES'') (\<lambda>b. if b then pbind parseInsertValueList (\<lambda>t. make_command Insert (cmd_table c) None (Some t) [])
      else pbind (kw ''DEFAULT'') (\<lambda>b. if b then pbind (need_kw ''VALUES'' ''expected VALUES after DEFAULT'') (\<lambda>_.
        make_command Insert (cmd_table c) None (Some Tuple_empty) []) else fail_with ''expected VALUES or DEFAULT VALUES'')))
      (if tcolumns t = [] then [''DEFAULT'', ''VALUES''] else ''VALUES'' # ''('' # sep_by '','' (map (\<lambda>cv. [lit (snd cv)]) (tcolumns t)) @ ['')'']) c []"
    using make empty by (auto simp: upper_simps intro!: kw_next runs_bind [OF vals] kw_step [of "''DEFAULT''" "''VALUES''"] runs_bind [OF runs_need_kw])
  then show ?thesis using assms t(1) unfolding parseInsert_def cmd_toks_def
    by (auto simp: printable_def intro!: kw_next runs_bind [OF runs_need_ident] symbol_free runs_bind [OF runs_ret] split: if_splits)
qed

section \<open>Statements\<close>

lemma runs_first_keyword:
  "wordy t \<Longrightarrow> \<forall>(k, v) \<in> set ks. wordy k \<Longrightarrow> List.find (\<lambda>(k, v). map toupper t = map toupper k) ks = Some (k, v) \<Longrightarrow>
     runs (first_keyword ks) (t # ts) (Some v) ts"
proof (induction ks rule: first_keyword.induct)
  case (2 k' v' ks)
  then show ?case using kw_step [of t k' "\<lambda>b. if b then ret (Some v') else first_keyword ks" ts "Some v" ts]
    by (auto simp: runs_ret split: if_splits)
qed simp

lemma statements_wordy: "\<forall>(k, v) \<in> set statements. wordy k"
  by (simp add: statements_def)

lemma runs_statement:
  assumes "wordy t" "List.find (\<lambda>(k, v). map toupper t = map toupper k) statements = Some (k, body)" "runs body ts x us"
  shows "runs parseStatement (t # ts) x us"
  unfolding runs_def
proof (intro allI impI)
  fix p
  assume p: "sees p (t # ts)"
  let ?q = "skipWhitespaceAndComments p"
  have "runs (pbind (first_keyword statements) (\<lambda>m. case m of Some body \<Rightarrow> body | None \<Rightarrow> fail_with ''unknown statement type'')) (t # ts) x us"
    using assms(3) by (intro runs_bind [OF runs_first_keyword [OF assms(1) statements_wordy assms(2)]]) simp
  moreover have "sees ?q (t # ts)" by (rule sees_skip_again [OF p])
  moreover have "sp_rest ?q \<noteq> []" using sees_skip [OF p] assms(1) by (simp add: unwords_Cons wordy_def)
  ultimately show "\<exists>p'. parseStatement p = Inr (p', Some x) \<and> sees p' us" by (simp add: parseStatement_def Let_def runs_def)
qed

lemma runs_row_statement:
  assumes "runs m ts c us" "List.find (\<lambda>(k, v). map toupper t = map toupper k) statements = Some (k, as_statement m)" "wordy t"
  shows "runs parseStatement (t # ts) (SqlCommand c) us"
  by (rule runs_statement [OF assms(3,2)], unfold as_statement_def, rule runs_bind [OF assms(1) runs_ret])

lemma sees_unwords: "\<forall>t \<in> set ts. tok_ok t \<Longrightarrow> sp_rest p = unwords ts \<Longrightarrow> sees p ts"
  using skip_blank_after [of ts] by (cases ts) (auto simp: sees_def after_def isspace_def)

lemma sql_parse_runs:
  assumes "runs parseStatement ts s us" "\<forall>t \<in> set ts. tok_ok t"
  shows "\<exists>p'. sql_parse (unwords ts) p = Inr (p', Some s) \<and> sees p' us"
  using assms(1) sees_unwords [OF assms(2), of "p\<lparr>sp_rest := unwords ts, sp_pos := 0, sp_error := []\<rparr>"]
  by (auto simp: runs_def sql_parse_def)

text \<open>The tokens of a printable command.\<close>

lemma toks_ok_sep: "\<forall>x \<in> set xs. \<forall>t \<in> set x. tok_ok t \<Longrightarrow> tok_ok s \<Longrightarrow> \<forall>t \<in> set (sep_by s xs). tok_ok t"
  by (cases xs) (auto simp: sep_by_def)

lemma nonword_ok: "nonword t \<Longrightarrow> tok_ok t"
  by (simp add: nonword_def)

lemma nonword_dot [simp]: "nonword ''.''"
  by (simp add: nonword_def tok_ok_def isspace_def less_eq_char_def)

lemma cmp_toks_ok: "plain_cmp c \<Longrightarrow> \<forall>t \<in> set (cmp_toks c). tok_ok t"
  by (cases c rule: cmp_toks.cases, rename_tac col cmp v, case_tac cmp) (auto intro: wordy_tok nonword_ok lit_tok)

lemma dnf_toks_ok: "plain_dnf ds \<Longrightarrow> \<forall>t \<in> set (dnf_toks ds). tok_ok t"
proof -
  assume ds: "plain_dnf ds"
  have "\<forall>t \<in> set (sep_by ''AND'' (map cmp_toks cs)). tok_ok t" if "cs \<in> set ds" for cs
  proof (rule toks_ok_sep)
    show "\<forall>x \<in> set (map cmp_toks cs). \<forall>t \<in> set x. tok_ok t"
      using ds that cmp_toks_ok unfolding plain_dnf_def set_map by blast
  qed (simp add: wordy_tok)
  then show ?thesis unfolding dnf_toks_def by (intro toks_ok_sep) (auto simp: wordy_tok)
qed

lemma select_tail_ok:
  assumes "plain_tail c" "cmd_type c = Select"
  shows "\<forall>t \<in> set (select_tail c). tok_ok t"
proof -
  have "\<forall>t \<in> set (sep_by '','' (map order_toks (cmd_orderBy c))). tok_ok t"
    using assms by (intro toks_ok_sep) (auto simp: plain_tail_def order_toks_def dir_tok_def nulls_toks_def split: option.splits intro: wordy_tok nonword_ok)
  moreover have "\<forall>t \<in> set (limit_toks (cmd_limit c) (cmd_offset c)). tok_ok t"
    using show_int_tok by (auto simp: limit_toks_def count_tok_def split: option.splits intro: wordy_tok)
  moreover have "\<forall>t \<in> set (join_toks j). tok_ok t" if "plain_join j" for j
    using that by (auto simp: plain_join_def plain_qual_def join_toks_def qual_toks_def intro: wordy_tok nonword_ok)
  ultimately show ?thesis using assms by (auto simp: select_tail_def plain_tail_def intro: wordy_tok)
qed

lemma cmd_toks_ok:
  assumes "printable c w"
  shows "\<forall>t \<in> set (cmd_toks c w). tok_ok t"
proof -
  have base: "plain_ident (cmd_table c)" "plain_tail c" using assms by (simp_all add: printable_def)
  have wh: "\<forall>t \<in> set (where_toks w). tok_ok t"
    using assms dnf_toks_ok by (auto simp: printable_def where_toks_def split: option.splits intro: wordy_tok)
  have proj: "\<forall>t \<in> set (sep_by '','' (map (\<lambda>p. [p]) (cmd_projections c))). tok_ok t"
    using base(2) by (intro toks_ok_sep) (auto simp: plain_tail_def split: if_splits intro: wordy_tok nonword_ok)
  have vals: "\<forall>t \<in> set (sep_by '','' (map (\<lambda>cv. [lit (snd cv)]) (tcolumns u))). tok_ok t"
      "cmd_type c = Update \<Longrightarrow> \<forall>t \<in> set (sep_by '','' (map (\<lambda>(n, v). [n, ''='', lit v]) (tcolumns u))). tok_ok t"
    if "cmd_values c = Some u" for u
    using assms that by (intro toks_ok_sep; fastforce simp: printable_def plain_values_def split_beta intro: lit_tok wordy_tok nonword_ok)+
  have kws: "tok_ok (cmd_table c)" "tok_ok ''SELECT''" "tok_ok ''FROM''" "tok_ok ''INSERT''" "tok_ok ''INTO''" "tok_ok ''VALUES''"
      "tok_ok ''DEFAULT''" "tok_ok ''(''" "tok_ok '')''" "tok_ok ''UPDATE''" "tok_ok ''SET''" "tok_ok ''DELETE''"
    using base(1) by (auto intro: wordy_tok nonword_ok)
  show ?thesis using wh proj vals kws select_tail_ok [OF base(2)]
    by (cases "cmd_type c"; cases "cmd_values c") (auto simp: cmd_toks_def Let_def)
qed

lemma runs_printed:
  assumes "printable c w"
  shows "runs parseStatement (cmd_toks c w) (SqlCommand c) []"
proof (cases "cmd_type c")
  case Select
  then show ?thesis using runs_row_statement [OF runs_select [OF assms], of "''SELECT''"]
    by (simp add: cmd_toks_def statements_def upper_simps)
next
  case Insert
  then show ?thesis using runs_row_statement [OF runs_insert [OF assms], of "''INSERT''"]
    by (simp add: cmd_toks_def Let_def statements_def upper_simps)
next
  case Update
  then show ?thesis using runs_row_statement [OF runs_update [OF assms], of "''UPDATE''"]
    by (simp add: cmd_toks_def statements_def upper_simps)
next
  case Delete
  then show ?thesis using runs_row_statement [OF runs_delete [OF assms], of "''DELETE''"]
    by (simp add: cmd_toks_def statements_def upper_simps)
qed

lemma no_null_join: "ns \<noteq> [] \<Longrightarrow> \<forall>n \<in> set ns. no_null n \<Longrightarrow> no_null (join_node lop ns)"
proof -
  have "no_null t \<Longrightarrow> \<forall>n \<in> set ns. no_null n \<Longrightarrow> no_null (foldl (\<lambda>t n. LogicalNode lop [Some t, Some n]) t ns)" for t ns
    by (induction ns arbitrary: t) auto
  then show "ns \<noteq> [] \<Longrightarrow> \<forall>n \<in> set ns. no_null n \<Longrightarrow> ?thesis" by (cases ns) (auto simp: join_node_def)
qed

lemma no_null_dnf: "plain_dnf ds \<Longrightarrow> no_null (dnf_node ds)"
  by (fastforce simp: dnf_node_def plain_dnf_def intro!: no_null_join)

lemma sat_cmp: "sat (cmp_node c) row = (case c of (col, cmp, v) \<Rightarrow> eval_comparison col cmp v row)"
  by (cases c) simp

text \<open>
  C7. Round trip of the SQL front end: for every command that can be written in SQL (plain names, integer, boolean,
  null and quoted literals, a condition that is an OR of ANDs, ordering, limits below 2^63, joins, positional rows),
  the parser returns exactly this command for its text, from any parser state; and the condition it returns holds
  for the rows in which all comparisons of one alternative hold, so AND binds tighter than OR.
\<close>

theorem sql_roundtrip:
  assumes "printable c w"
  shows "(\<exists>p'. sql_parse (unwords (cmd_toks c w)) p = Inr (p', Some (SqlCommand c)))
    \<and> (\<forall>ds n row. w = Some ds \<and> cmd_where c = Some (Some n) \<longrightarrow>
         evaluate (Some n) row = Inr (\<exists>cs \<in> set ds. \<forall>(col, cmp, v) \<in> set cs. eval_comparison col cmp v row))"
proof -
  obtain p' where "sql_parse (unwords (cmd_toks c w)) p = Inr (p', Some (SqlCommand c))"
    using sql_parse_runs [OF runs_printed [OF assms] cmd_toks_ok [OF assms]] by blast
  moreover have "evaluate (Some n) row = Inr (\<exists>cs \<in> set ds. \<forall>(col, cmp, v) \<in> set cs. eval_comparison col cmp v row)"
    if "w = Some ds" "cmd_where c = Some (Some n)" for ds n row
  proof -
    have "plain_dnf ds" "n = dnf_node ds" using assms that by (auto simp: printable_def)
    then show ?thesis using sat_dnf [of ds row] no_null_dnf [of ds] by (auto simp: evaluate_no_null sat_cmp split_beta)
  qed
  ultimately show ?thesis by blast
qed

lemmas printable_simps =
  printable_def command_wf_def plain_tail_def plain_values_def plain_dnf_def plain_ident_def wordy_def word_char_def isalnum_def isalpha_def is_digit_def
  less_eq_char_def

theorem sql_roundtrip_witness:
  "\<exists>p'. sql_parse ''SELECT a , b FROM t WHERE a = 7 AND b IS NULL OR b != TRUE ORDER BY a DESC NULLS LAST LIMIT 10'' sql_init
     = Inr (p', Some (SqlCommand \<lparr>cmd_type = Select, cmd_table = ''t'',
         cmd_where = Some (Some (LogicalNode Or [Some (LogicalNode And [Some (ComparisonNode ''a'' Equals (VInt64 7)), Some (ComparisonNode ''b'' IsNull VNull)]),
                                                 Some (ComparisonNode ''b'' NotEquals (VBool True))])),
         cmd_values = None, cmd_projections = [''a'', ''b''], cmd_orderBy = [\<lparr>ob_column = ''a'', ob_direction = Desc, ob_nullsFirst = Some False\<rparr>],
         cmd_joins = [], cmd_limit = Some 10, cmd_offset = None, cmd_txnId = None\<rparr>))"
proof -
  let ?ds = "[[(''a'', Equals, VInt64 7), (''b'', IsNull, VNull)], [(''b'', NotEquals, VBool True)]]"
  let ?c = "\<lparr>cmd_type = Select, cmd_table = ''t'', cmd_where = Some (Some (dnf_node ?ds)), cmd_values = None, cmd_projections = [''a'', ''b''],
      cmd_orderBy = [\<lparr>ob_column = ''a'', ob_direction = Desc, ob_nullsFirst = Some False\<rparr>], cmd_joins = [], cmd_limit = Some 10,
      cmd_offset = None, cmd_txnId = None\<rparr>"
  have "printable ?c (Some ?ds)" by (simp add: printable_simps)
  from sql_roundtrip [OF this, of sql_init] have "\<exists>p'. sql_parse (unwords (cmd_toks ?c (Some ?ds))) sql_init = Inr (p', Some (SqlCommand ?c))" by blast
  moreover have "unwords (cmd_toks ?c (Some ?ds)) = ''SELECT a , b FROM t WHERE a = 7 AND b IS NULL OR b != TRUE ORDER BY a DESC NULLS LAST LIMIT 10''"
    by code_simp
  moreover have "dnf_node ?ds = LogicalNode Or [Some (LogicalNode And [Some (ComparisonNode ''a'' Equals (VInt64 7)), Some (ComparisonNode ''b'' IsNull VNull)]),
      Some (ComparisonNode ''b'' NotEquals (VBool True))]" by (simp add: dnf_node_def join_node_def)
  ultimately show ?thesis by (simp only:)
qed

end
