(* ===== verification/Sql_Shapes.thy ===== *)
theory Sql_Shapes
  imports Sql_Roundtrip
begin

text \<open>
  What the statements that the SQL parser returns look like, for any text, and the texts that it accepts
  although they are cut off: a value list without its closing bracket, a condition that ends in \<open>AND\<close>.
\<close>

section \<open>Results of methods\<close>

definition gives_below :: "nat \<Rightarrow> 'a parsing \<Rightarrow> ('a \<Rightarrow> bool) \<Rightarrow> bool" where
  "gives_below n m P \<longleftrightarrow> (\<forall>p p' x. left_len p < n \<and> m p = Inr (p', Some x) \<longrightarrow> P x)"

definition gives :: "'a parsing \<Rightarrow> ('a \<Rightarrow> bool) \<Rightarrow> bool" where
  "gives m P \<longleftrightarrow> (\<forall>p p' x. m p = Inr (p', Some x) \<longrightarrow> P x)"

lemma gives_belowD: "gives_below n m P \<Longrightarrow> m p = Inr (p', Some x) \<Longrightarrow> left_len p < n \<Longrightarrow> P x"
  unfolding gives_below_def by blast

lemma gives_below_all: "(\<And>n. gives_below n m P) \<Longrightarrow> gives m P"
  by (auto simp: gives_def gives_below_def)

lemma gives_mono: "gives m P \<Longrightarrow> (\<And>x. P x \<Longrightarrow> Q x) \<Longrightarrow> gives m Q"
  by (auto simp: gives_def)

lemma gives_belowI: "gives m P \<Longrightarrow> gives_below n m P"
  unfolding gives_def gives_below_def by blast

lemma gives_ret: "P x \<Longrightarrow> gives (ret x) P"
  by (simp add: gives_def ret_def)

lemma gives_fail: "gives (fail_with m) P"
  by (simp add: gives_def fail_with_def)

lemma gives_True: "gives m (\<lambda>_. True)"
  by (simp add: gives_def)

lemma gives_bind: "gives m Q \<Longrightarrow> (\<And>x. Q x \<Longrightarrow> gives (f x) P) \<Longrightarrow> gives (pbind m f) P"
  unfolding gives_def by (auto simp: pbind_Inr_iff) blast

lemma gives_next: "(\<And>x. gives (f x) P) \<Longrightarrow> gives (pbind m f) P"
  by (rule gives_bind [OF gives_True])

lemma gives_if: "(b \<Longrightarrow> gives m P) \<Longrightarrow> (\<not> b \<Longrightarrow> gives m' P) \<Longrightarrow> gives (if b then m else m') P"
  by simp

text \<open>Loops: after a token the claim may be assumed.\<close>

lemma gives_below_bind:
  assumes "reader m" "\<And>x. gives_below n (f x) P"
  shows "gives_below n (pbind m f) P"
  using assms unfolding reader_def gives_below_def pbind_Inr_iff by (metis order_le_less_trans option.distinct(1))

lemma gives_below_consume:
  assumes "\<And>p p' x. m p = Inr (p', Some x) \<Longrightarrow> left_len p' < left_len p \<and> Q x" "\<And>x. Q x \<Longrightarrow> gives_below n (f x) P"
  shows "gives_below (Suc n) (pbind m f) P"
proof -
  have "P y" if "left_len p < Suc n" "m p = Inr (p', Some x)" "f x p' = Inr (q, Some y)" for p p' x q y
    using assms(1) [OF that(2)] gives_belowD [OF assms(2) that(3)] that(1) by auto
  then show ?thesis by (auto simp: gives_below_def pbind_Inr_iff)
qed

lemma gives_below_test:
  assumes "\<And>p p' b. m p = Inr (p', Some b) \<Longrightarrow> left_len p' + (if b then 1 else 0) \<le> left_len p"
    "gives_below (Suc n) (f False) P" "gives_below n (f True) P"
  shows "gives_below (Suc n) (pbind m f) P"
proof -
  have "P y" if p: "left_len p < Suc n" "m p = Inr (p', Some b)" "f b p' = Inr (q, Some y)" for p p' b q y
    using assms(1) [OF p(2)] gives_belowD [OF assms(2), of p' q y] gives_belowD [OF assms(3), of p' q y] p(1,3) by (cases b) auto
  then show ?thesis by (auto simp: gives_below_def pbind_Inr_iff)
qed

lemma gives_below_kw:
  "k \<noteq> [] \<Longrightarrow> gives_below (Suc n) (f False) P \<Longrightarrow> gives_below n (f True) P \<Longrightarrow> gives_below (Suc n) (pbind (kw k) f) P"
  by (rule gives_below_test) (auto dest!: kw_len split: if_splits simp: Suc_le_eq neq_Nil_conv)

lemma gives_below_if: "(b \<Longrightarrow> gives_below n m P) \<Longrightarrow> (\<not> b \<Longrightarrow> gives_below n m' P) \<Longrightarrow> gives_below n (\<lambda>p. if b then m p else m' p) P"
  by (cases b) simp_all

lemma gives_below_mono: "gives_below n m P \<Longrightarrow> k \<le> n \<Longrightarrow> gives_below k m P"
  unfolding gives_below_def by (meson order_less_le_trans)

lemmas gives_below_ends = gives_belowI [OF gives_ret] gives_belowI [OF gives_fail]

lemma gives_below_symbol:
  "s \<noteq> [] \<Longrightarrow> gives_below (Suc n) (f False) P \<Longrightarrow> gives_below n (f True) P \<Longrightarrow> gives_below (Suc n) (pbind (symbol s) f) P"
  by (rule gives_below_test) (auto dest!: symbol_len split: if_splits simp: Suc_le_eq neq_Nil_conv)

section \<open>Columns\<close>

definition spec_from :: "ColumnDef \<Rightarrow> bool \<Rightarrow> ColumnDef \<times> bool \<Rightarrow> bool" where
  "spec_from out hasPk r \<longleftrightarrow>
     cd_name (fst r) = cd_name out \<and> cd_type (fst r) = cd_type out
     \<and> (cd_primaryKey (fst r) = cd_primaryKey out \<and> snd r = hasPk \<or> \<not> hasPk \<and> snd r \<and> cd_primaryKey (fst r))"

lemma gives_constraints: "gives (column_constraints out hasPk) (spec_from out hasPk)"
proof (rule gives_below_all)
  show "gives_below n (column_constraints out hasPk) (spec_from out hasPk)" for n
  proof (induction n arbitrary: out hasPk)
    case (Suc n)
    have ih: "gives_below n (column_constraints (g out) b) (spec_from out hasPk)"
      if "cd_name (g out) = cd_name out" "cd_type (g out) = cd_type out"
        "cd_primaryKey (g out) = cd_primaryKey out \<and> b = hasPk \<or> \<not> hasPk \<and> b \<and> cd_primaryKey (g out)" for g b
      using Suc [of "g out" b] that by (auto simp: gives_below_def spec_from_def)
    show ?case
      by (subst ext [OF column_constraints.simps [of out hasPk]],
          intro gives_below_kw gives_below_bind gives_below_if ih gives_below_ends token_readers need_readers reader_need)
        (simp_all add: spec_from_def)
  qed (simp add: gives_below_def)
qed

lemma gives_column_spec:
  "gives (parseColumnSpec hasPk) (\<lambda>(col, pk). cd_primaryKey col \<and> \<not> hasPk \<and> pk \<or> \<not> cd_primaryKey col \<and> pk = hasPk)"
  unfolding parseColumnSpec_def
  by (intro gives_next, rule gives_mono [OF gives_constraints]) (auto simp: spec_from_def ColumnDef_init_def)

definition one_key :: "ColumnDef list \<Rightarrow> bool \<Rightarrow> bool" where
  "one_key cols hasPk \<longleftrightarrow> length (filter cd_primaryKey cols) = (if hasPk then 1 else 0)"

lemma gives_column_list: "one_key cols hasPk \<Longrightarrow> gives (column_list hasPk cols) (\<lambda>cs. length (filter cd_primaryKey cs) \<le> 1)"
proof (rule gives_below_all)
  show "one_key cols hasPk \<Longrightarrow> gives_below n (column_list hasPk cols) (\<lambda>cs. length (filter cd_primaryKey cs) \<le> 1)" for n
  proof (induction n arbitrary: cols hasPk)
    case (Suc n)
    have spec: "left_len p' < left_len p \<and> (case x of (col, pk) \<Rightarrow> one_key (cols @ [col]) pk)"
      if "parseColumnSpec hasPk p = Inr (p', Some x)" for p p' x
      using column_spec_len [OF that] gives_column_spec [of hasPk] that Suc.prems by (fastforce simp: gives_def one_key_def split: prod.splits)
    have step: "gives_below n (pbind (symbol '','') (\<lambda>b p. if b then column_list pk (cols @ [col]) p
        else pbind (symbol '')'') (\<lambda>b p. if b then ret (cols @ [col]) p else fail_with (comma_or_close ''column'') p) p))
          (\<lambda>cs. length (filter cd_primaryKey cs) \<le> 1)" if "one_key (cols @ [col]) pk" for col pk
      by (intro gives_below_bind gives_below_if gives_below_ends token_readers Suc.IH that) (use that in \<open>simp add: one_key_def\<close>)
    have "gives_below (Suc n) (pbind (parseColumnSpec hasPk) (\<lambda>x p. case x of (col, pk) \<Rightarrow>
        pbind (symbol '','') (\<lambda>b p. if b then column_list pk (cols @ [col]) p
        else pbind (symbol '')'') (\<lambda>b p. if b then ret (cols @ [col]) p else fail_with (comma_or_close ''column'') p) p) p))
          (\<lambda>cs. length (filter cd_primaryKey cs) \<le> 1)"
      by (rule gives_below_consume [OF spec]) (use step in \<open>auto split: prod.splits\<close>)
    then show ?case using Suc.prems
      by (subst ext [OF column_list.simps [of hasPk cols]], intro gives_below_bind [OF token_readers(2)], intro gives_below_if)
        (auto simp: one_key_def intro!: gives_below_ends)
  qed (simp add: gives_below_def)
qed

lemma gives_partition: "gives partition_clause (pred_option (\<lambda>pp. pp_kind pp = PHash \<and> 0 < pp_shardCount pp))"
proof -
  have at: "gives (\<lambda>p. rbind (atoi w) (\<lambda>n. ret n p)) (\<lambda>n. n < 2 ^ 31)" for w
    by (auto simp: gives_def atoi_def ret_def Let_def rbind_Inr_iff split: if_splits)
  have pos: "0 < (word_of_int n :: u32)" if "0 < n" "n < 2 ^ 31" for n :: int
  proof -
    have "\<not> 2 ^ 32 dvd n" using that zdvd_imp_le [of "2 ^ 32" n] by auto
    then show ?thesis by (simp add: word_gt_0 word_of_int_eq_0_iff)
  qed
  show ?thesis unfolding partition_clause_def
    by ((rule gives_bind [OF at] gives_next gives_if gives_ret gives_fail | (simp add: pos; fail))+)
qed

section \<open>Rows and projections\<close>

lemma gives_below_value:
  assumes "gives_below (Suc n) (f None) P" "\<And>v. gives_below n (f (Some v)) P"
  shows "gives_below (Suc n) (pbind opt_value f) P"
proof -
  have "P y" if p: "left_len p < Suc n" "opt_value p = Inr (p', Some r)" "f r p' = Inr (q, Some y)" for p p' r q y
    using opt_value_len [OF p(2)] gives_belowD [OF assms(1), of p' q y] gives_belowD [OF assms(2), of _ p' q y] p(1,3) by (cases r) auto
  then show ?thesis by (auto simp: gives_below_def pbind_Inr_iff)
qed

lemma gives_value_list: "tuple_wf t \<Longrightarrow> gives (value_list t) tuple_wf"
proof (rule gives_below_all)
  show "tuple_wf t \<Longrightarrow> gives_below n (value_list t) tuple_wf" for n
  proof (induction n arbitrary: t)
    case (Suc n)
    have at: "gives (\<lambda>p. ret u (g p)) tuple_wf" if "tuple_wf u" for u g using that by (simp add: gives_def ret_def)
    show ?case
      by (subst ext [OF value_list.simps [of t]], rule gives_below_value, unfold option.case)
        (intro gives_below_bind gives_below_if gives_below_ends token_readers gives_belowI [OF at] Suc tuple_wf_tset)+
  qed (simp add: gives_below_def)
qed

lemma gives_set_list: "tuple_wf t \<Longrightarrow> gives (set_list t) tuple_wf"
proof (rule gives_below_all)
  show "tuple_wf t \<Longrightarrow> gives_below n (set_list t) tuple_wf" for n
  proof (induction n arbitrary: t)
    case (Suc n)
    have none: "gives_below n (\<lambda>p. Inr (p, None)) P" for P :: "Tuple \<Rightarrow> bool" by (simp add: gives_below_def)
    have body: "gives_below n (pbind (need_symbol ''='' (''expected '' @ sq ''='' @ '' after column'')) (\<lambda>_.
        pbind opt_value (\<lambda>v p. case v of None \<Rightarrow> Inr (p, None) | Some w \<Rightarrow>
          pbind (symbol '','') (\<lambda>b p. if b then set_list (tset t col w) p else ret (tset t col w) p) p))) tuple_wf" for col
      by (intro gives_below_bind token_readers need_readers, rename_tac v, case_tac v)
        (auto intro!: none gives_below_bind gives_below_if gives_below_ends token_readers Suc.IH tuple_wf_tset Suc.prems)
    show ?case
      by (subst ext [OF set_list.simps [of t]]) (rule gives_below_consume [where Q = "\<lambda>_. True", OF _ body], simp add: need_ident_len)
  qed (simp add: gives_below_def)
qed

lemma gives_projections: "gives (projection_list cols) (\<lambda>ps. ps \<noteq> [])"
proof (rule gives_below_all)
  show "gives_below n (projection_list cols) (\<lambda>ps. ps \<noteq> [])" for n
  proof (induction n arbitrary: cols)
    case (Suc n)
    show ?case
      by (subst ext [OF projection_list.simps [of cols]], rule gives_below_consume [where Q = "\<lambda>_. True"])
        (auto dest: need_ident_len intro!: gives_below_bind gives_below_if gives_below_ends token_readers Suc)
  qed (simp add: gives_below_def)
qed

section \<open>Statements\<close>

fun statement_ok :: "SqlStatement \<Rightarrow> bool" where
  "statement_ok (SqlCommand c) \<longleftrightarrow>
     command_wf c \<and> cmd_txnId c = None \<and> cmd_where c \<noteq> Some None \<and> pred_option tuple_wf (cmd_values c)
     \<and> (cmd_type c = Select \<longrightarrow> cmd_values c = None \<and> cmd_projections c \<noteq> [])
     \<and> (cmd_type c \<noteq> Select \<longrightarrow> cmd_projections c = [] \<and> cmd_orderBy c = [] \<and> cmd_joins c = [] \<and> cmd_limit c = None \<and> cmd_offset c = None)"
| "statement_ok (DdlCreateTable sc) \<longleftrightarrow>
     length (filter cd_primaryKey (sc_columns sc)) \<le> 1
     \<and> pred_option (\<lambda>pp. pp_kind pp = PHash \<and> 0 < pp_shardCount pp) (sc_partition sc)"
| "statement_ok (DdlAlterTable name a) \<longleftrightarrow> (as_kind a = AddColumn \<longrightarrow> cd_name (as_columnDef a) = as_column a)"
| "statement_ok s = True"

lemma gives_where: "gives where_clause (\<lambda>w. w \<noteq> Some None)"
  unfolding where_clause_def by (intro gives_next gives_if) (auto simp: gives_def ret_def split: option.splits)

definition bare_command :: "CommandType \<Rightarrow> Predicate option \<Rightarrow> Tuple option \<Rightarrow> string list \<Rightarrow> Command \<Rightarrow> bool" where
  "bare_command ty wh vals proj c \<longleftrightarrow>
     command_wf c \<and> cmd_type c = ty \<and> cmd_where c = wh \<and> cmd_values c = vals \<and> cmd_projections c = proj \<and> cmd_txnId c = None
     \<and> cmd_orderBy c = [] \<and> cmd_joins c = [] \<and> cmd_limit c = None \<and> cmd_offset c = None"

lemma gives_make: "gives (make_command ty table wh vals proj) (bare_command ty wh vals proj)"
  using mkCommand_wf [of ty table wh vals proj None]
  by (auto simp: gives_def make_command_def rbind_Inr_iff ret_def bare_command_def mkCommand_def Let_def)

lemma command_wf_clauses [simp]:
  "command_wf (c\<lparr>cmd_orderBy := ob, cmd_limit := lim, cmd_offset := off, cmd_joins := js\<rparr>) = command_wf c"
  by (cases "cmd_type c") (simp_all add: command_wf_def)

lemma gives_statement_make:
  "wh \<noteq> Some None \<Longrightarrow> pred_option tuple_wf vals \<Longrightarrow> ty \<noteq> Select \<Longrightarrow> gives (make_command ty table wh vals []) (\<lambda>c. statement_ok (SqlCommand c))"
  by (rule gives_mono [OF gives_make]) (auto simp: bare_command_def)

lemma gives_rows:
  "gives parseInsert (\<lambda>c. statement_ok (SqlCommand c))" "gives parseDelete (\<lambda>c. statement_ok (SqlCommand c))"
  "gives parseUpdate (\<lambda>c. statement_ok (SqlCommand c))"
proof -
  have vals: "gives parseInsertValueList tuple_wf" unfolding parseInsertValueList_def
    by (intro gives_next) (auto simp: gives_def ret_def dest: gives_value_list [OF tuple_wf_empty, unfolded gives_def, rule_format])
  show "gives parseInsert (\<lambda>c. statement_ok (SqlCommand c))" unfolding parseInsert_def
    by ((rule gives_bind [OF vals] gives_next gives_if gives_fail gives_statement_make | (simp; fail))+)
  show "gives parseDelete (\<lambda>c. statement_ok (SqlCommand c))" unfolding parseDelete_def
    by ((rule gives_bind [OF gives_where] gives_next gives_statement_make | (simp; fail))+)
  show "gives parseUpdate (\<lambda>c. statement_ok (SqlCommand c))" unfolding parseUpdate_def
    by ((rule gives_bind [OF gives_set_list [OF tuple_wf_empty]] gives_bind [OF gives_where] gives_next gives_statement_make | (simp; fail))+)
qed

lemma gives_select: "gives parseSelect (\<lambda>c. statement_ok (SqlCommand c))"
proof -
  have proj: "gives select_projections (\<lambda>ps. ps \<noteq> [])" unfolding select_projections_def
    by (intro gives_next gives_if gives_ret gives_projections) simp
  have "gives (select_clauses ps table) (\<lambda>c. statement_ok (SqlCommand c))" if "ps \<noteq> []" for ps table
    unfolding select_clauses_def
    by ((rule gives_bind [OF gives_where] gives_bind [OF gives_make] gives_next gives_ret | (unfold split_beta))+)
      (use that in \<open>auto simp: bare_command_def\<close>)
  then show ?thesis unfolding parseSelect_def by (intro gives_bind [OF proj] gives_next)
qed

lemma gives_tables: "gives parseCreateTable statement_ok" "gives parseDropTable statement_ok" "gives parseAlterTable statement_ok"
proof -
  have cols: "gives (column_list False []) (\<lambda>cs. length (filter cd_primaryKey cs) \<le> 1)" by (rule gives_column_list) (simp add: one_key_def)
  show "gives parseCreateTable statement_ok" unfolding parseCreateTable_def
    by ((rule gives_bind [OF cols] gives_bind [OF gives_partition] gives_next gives_ret | (simp; fail))+)
  show "gives parseDropTable statement_ok" unfolding parseDropTable_def by (intro gives_next gives_ret) simp
  show "gives parseAlterTable statement_ok" unfolding parseAlterTable_def split_beta
    by ((rule gives_next gives_if gives_ret gives_fail | (simp; fail))+)
qed

lemma gives_parseStatement: "gives parseStatement statement_ok"
proof -
  have as: "gives (as_statement m) statement_ok" if "gives m (\<lambda>c. statement_ok (SqlCommand c))" for m
    unfolding as_statement_def by (rule gives_bind [OF that]) (rule gives_ret)
  have all: "\<forall>(k, m) \<in> set statements. gives m statement_ok"
    by (auto simp: statements_def table_keyword_def intro!: as gives_rows gives_select gives_tables gives_next gives_ret)
  have "gives (first_keyword ks) (\<lambda>m. case m of None \<Rightarrow> True | Some b \<Rightarrow> gives b P)" if "\<forall>(k, m) \<in> set ks. gives m P" for ks and P :: "SqlStatement \<Rightarrow> bool"
    using that by (induction ks rule: first_keyword.induct) (auto intro!: gives_ret gives_next)
  from this [OF all] have "gives (pbind (first_keyword statements) (\<lambda>m. case m of Some body \<Rightarrow> body | None \<Rightarrow> fail_with ''unknown statement type'')) statement_ok"
    by (rule gives_bind) (auto simp: gives_fail split: option.splits)
  then show ?thesis unfolding gives_def parseStatement_def by (auto simp: Let_def fail_with_def split: if_splits)
qed

text \<open>
  C17. For every text, a statement that the SQL parser returns is well formed: a command satisfies the
  invariants of its constructor, carries no transaction, no null condition and a consistent row, a SELECT has
  a projection and only a SELECT has clauses; a new table has at most one primary key and its partition
  policy has a positive number of shards.
\<close>

theorem sql_statements_well_formed: "sql_parse text p = Inr (p', Some s) \<Longrightarrow> statement_ok s"
  using gives_parseStatement by (auto simp: gives_def sql_parse_def)

theorem sql_statements_well_formed_witness:
  "\<exists>p' sc. sql_parse ''create table t (id int primary key) -- keys'' sql_init = Inr (p', Some (DdlCreateTable sc))
     \<and> map cd_primaryKey (sc_columns sc) = [True] \<and> statement_ok (DdlCreateTable sc)"
proof -
  let ?r = "sql_parse ''create table t (id int primary key) -- keys'' sql_init"
  have "case ?r of Inr (p', Some (DdlCreateTable sc)) \<Rightarrow> map cd_primaryKey (sc_columns sc) = [True] | _ \<Rightarrow> False"
    by code_simp
  then obtain p' sc where run: "?r = Inr (p', Some (DdlCreateTable sc))" "map cd_primaryKey (sc_columns sc) = [True]"
    by (auto split: sum.splits prod.splits option.splits SqlStatement.splits)
  show ?thesis by (intro exI conjI, rule run(1), rule run(2), rule sql_statements_well_formed [OF run(1)])
qed

section \<open>Texts that are cut off\<close>

text \<open>A text that goes on with other tokens than the method wants: it stops there.\<close>

lemma runs_values_cut:
  "vs \<noteq> [] \<Longrightarrow> \<forall>v \<in> set vs. plain_value v \<Longrightarrow> free ts \<Longrightarrow>
     runs (value_list (Tuple_of (numbered acc))) (sep_by '','' (map (\<lambda>v. [lit v]) vs) @ ts) (Tuple_of (numbered (acc @ vs))) ts"
proof (induction vs arbitrary: acc rule: list_nonempty_induct)
  case (single v)
  have "runs (\<lambda>p. ret x (set_error m p)) ts x ts" for x :: Tuple and m by (simp add: runs_def ret_def sees_def)
  with single show ?case
    by (subst ext [OF value_list.simps])
      (auto simp: size_numbered tset_numbered intro!: runs_bind [OF runs_value] symbol_free)
next
  case (cons v vs)
  then obtain w ws where "vs = w # ws" by (cases vs) auto
  with cons show ?case using cons.IH [of "acc @ [v]"]
    by (subst ext [OF value_list.simps])
      (auto simp: size_numbered tset_numbered intro!: runs_bind [OF runs_value] symbol_next)
qed

lemma runs_insert_cut:
  assumes "plain_ident table" "vs \<noteq> []" "\<forall>v \<in> set vs. plain_value v" "free ts"
  shows "runs parseInsert (''INTO'' # table # ''VALUES'' # ''('' # sep_by '','' (map (\<lambda>v. [lit v]) vs) @ ts)
    \<lparr>cmd_type = Insert, cmd_table = table, cmd_where = None, cmd_values = Some (Tuple_of (numbered vs)), cmd_projections = [],
     cmd_orderBy = [], cmd_joins = [], cmd_limit = None, cmd_offset = None, cmd_txnId = None\<rparr> ts"
proof -
  have "runs parseInsertValueList (''('' # sep_by '','' (map (\<lambda>v. [lit v]) vs) @ ts) (Tuple_of (numbered vs)) ts"
    using runs_values_cut [OF assms(2-4), of "[]"] unfolding parseInsertValueList_def
    by (intro symbol_next) (simp_all add: numbered_def Tuple_of_Nil)
  from runs_bind [OF this, of "\<lambda>t. make_command Insert table None (Some t) []", OF runs_make] show ?thesis
    unfolding parseInsert_def using assms(1)
    by (auto simp: mkCommand_def validate_def Let_def rbind_def
        intro!: kw_next runs_bind [OF runs_need_ident] symbol_free runs_bind [OF runs_ret])
qed

text \<open>
  A value list that is cut off, or goes on with anything but a comma or a bracket, is not rejected: the parser
  returns an INSERT of the values read so far and leaves the rest of the text unread.
\<close>

theorem sql_cut_off_insert:
  assumes "plain_ident table" "vs \<noteq> []" "\<forall>v \<in> set vs. plain_value v" "\<forall>t \<in> set junk. wordy t"
  shows "\<exists>p'. sql_parse (unwords (''INSERT'' # ''INTO'' # table # ''VALUES'' # ''('' # sep_by '','' (map (\<lambda>v. [lit v]) vs) @ junk)) p
    = Inr (p', Some (SqlCommand
        \<lparr>cmd_type = Insert, cmd_table = table, cmd_where = None, cmd_values = Some (Tuple_of (numbered vs)), cmd_projections = [],
         cmd_orderBy = [], cmd_joins = [], cmd_limit = None, cmd_offset = None, cmd_txnId = None\<rparr>))
      \<and> skip_blank (sp_rest p') = unwords junk"
proof -
  have "free junk" using assms(4) by (cases junk) simp_all
  have "\<forall>t \<in> set (sep_by '','' (map (\<lambda>v. [lit v]) vs)). tok_ok t"
    using assms(3) by (intro toks_ok_sep) (auto intro: lit_tok nonword_ok)
  then have "\<forall>t \<in> set (''INSERT'' # ''INTO'' # table # ''VALUES'' # ''('' # sep_by '','' (map (\<lambda>v. [lit v]) vs) @ junk). tok_ok t"
    using assms(1,4) by (auto intro: wordy_tok nonword_ok)
  from sql_parse_runs [OF runs_row_statement [OF runs_insert_cut [OF assms(1-3) \<open>free junk\<close>], of "''INSERT''"] this]
  show ?thesis by (fastforce simp: statements_def upper_simps sees_def)
qed

theorem sql_cut_off_insert_witness:
  "\<exists>p'. sql_parse ''INSERT INTO t VALUES ( 1 , NULL oops'' sql_init
    = Inr (p', Some (SqlCommand
        \<lparr>cmd_type = Insert, cmd_table = ''t'', cmd_where = None, cmd_values = Some (Tuple_of (numbered [VInt64 1, VNull])), cmd_projections = [],
         cmd_orderBy = [], cmd_joins = [], cmd_limit = None, cmd_offset = None, cmd_txnId = None\<rparr>))
      \<and> skip_blank (sp_rest p') = ''oops''"
proof -
  have "unwords (''INSERT'' # ''INTO'' # ''t'' # ''VALUES'' # ''('' # sep_by '','' (map (\<lambda>v. [lit v]) [VInt64 1, VNull]) @ [''oops''])
      = ''INSERT INTO t VALUES ( 1 , NULL oops''" by code_simp
  then show ?thesis using sql_cut_off_insert [of "''t''" "[VInt64 1, VNull]" "[''oops'']" sql_init]
    by (simp add: printable_simps)
qed

text \<open>The end of the text where an operand of \<open>AND\<close> should be.\<close>

lemma runs_no_operand: "runs parsePrimExpr [] None []"
proof -
  have "runs opt_ident [] None []" unfolding runs_def using sees_skip sees_stay
    by (fastforce simp: opt_ident_def consumeIdentifier_def Let_def)
  moreover have "runs (\<lambda>p. ret x (set_error m p)) ts x ts" for x :: "PredicateNode option" and m ts
    by (simp add: runs_def ret_def sees_def)
  ultimately show ?thesis unfolding parsePrimExpr_def by (auto intro!: runs_bind)
qed

lemma runs_half_and:
  assumes "plain_cmp c"
  shows "runs where_clause (''WHERE'' # cmp_toks c @ [''AND'']) (Some (Some (LogicalNode And [Some (cmp_node c), None]))) []"
proof -
  have stop: "runs (and_loop t) [] t []" "runs (or_loop t) [] t []" for t
    by (subst ext [OF and_loop.simps], auto intro!: kw_step_end runs_ret) (subst ext [OF or_loop.simps], auto intro!: kw_step_end runs_ret)
  have "runs (and_loop (Some (cmp_node c))) [''AND''] (Some (LogicalNode And [Some (cmp_node c), None])) []"
    by (subst ext [OF and_loop.simps]) (auto intro!: kw_next runs_bind [OF runs_no_operand] stop(1))
  from runs_bind [where f = and_loop, OF runs_cmp [OF assms] this] have "runs parseAndExpr (cmp_toks c @ [''AND'']) (Some (LogicalNode And [Some (cmp_node c), None])) []"
    by (simp add: parseAndExpr_def)
  from runs_bind [where f = or_loop, OF this stop(2)]
  have "runs parsePredicate (cmp_toks c @ [''AND'']) (Some (LogicalNode And [Some (cmp_node c), None])) []"
    by (simp add: parsePredicate_def parseOrExpr_def)
  then show ?thesis unfolding where_clause_def
    by (intro kw_next) (simp, simp, rule runs_bind, assumption, simp add: runs_ret)
qed

text \<open>
  C25. A condition that ends in \<open>AND\<close> is not rejected: the parser returns a command whose condition has a null
  operand. Evaluating it on a row for which the first comparison holds is undefined, and so is the copy that
  \<open>parseAll\<close> makes of the same text.
\<close>

theorem sql_missing_operand:
  assumes "plain_ident table" "plain_cmp (col, cmp, v)"
  defines "text \<equiv> unwords (''DELETE'' # ''FROM'' # table # ''WHERE'' # cmp_toks (col, cmp, v) @ [''AND''])"
  shows "(\<exists>p' c n. sql_parse text p = Inr (p', Some (SqlCommand c)) \<and> cmd_where c = Some (Some n)
      \<and> (\<forall>row. eval_comparison col cmp v row \<longrightarrow> evaluate (Some n) row = Inl Undefined)
      \<and> (CHR '';'' \<notin> set text \<and> CHR 0x27 \<notin> set text \<and> CHR 0x22 \<notin> set text \<longrightarrow> parseAll text p = Inl Undefined))"
proof -
  let ?n = "LogicalNode And [Some (cmp_node (col, cmp, v)), None]"
  let ?c = "\<lparr>cmd_type = Delete, cmd_table = table, cmd_where = Some (Some ?n), cmd_values = None, cmd_projections = [],
      cmd_orderBy = [], cmd_joins = [], cmd_limit = None, cmd_offset = None, cmd_txnId = None\<rparr>"
  have "runs (make_command Delete table (Some (Some ?n)) None []) [] ?c []"
    by (rule runs_make) (simp add: mkCommand_def validate_def Let_def rbind_def)
  then have "runs parseDelete (''FROM'' # table # ''WHERE'' # cmp_toks (col, cmp, v) @ [''AND'']) ?c []"
    unfolding parseDelete_def using assms(1) runs_half_and [OF assms(2)]
    by (intro kw_next runs_bind [OF runs_need_ident] runs_bind) simp_all
  then have "runs parseStatement (''DELETE'' # ''FROM'' # table # ''WHERE'' # cmp_toks (col, cmp, v) @ [''AND'']) (SqlCommand ?c) []"
    by (rule runs_row_statement) (simp_all add: statements_def upper_simps)
  moreover have "\<forall>t \<in> set (''DELETE'' # ''FROM'' # table # ''WHERE'' # cmp_toks (col, cmp, v) @ [''AND'']). tok_ok t"
    using assms(1) cmp_toks_ok [OF assms(2)] by (auto intro: wordy_tok)
  ultimately obtain p' where run: "sql_parse text p = Inr (p', Some (SqlCommand ?c))"
    using sql_parse_runs unfolding text_def by blast
  have "split_statements s False False acc = [acc @ s]" if "CHR '';'' \<notin> set s" "CHR 0x27 \<notin> set s" "CHR 0x22 \<notin> set s" for s acc
    using that by (induction s arbitrary: acc) auto
  then have "parseAll text p = Inl Undefined" if "CHR '';'' \<notin> set text" "CHR 0x27 \<notin> set text" "CHR 0x22 \<notin> set text"
    using that run by (simp add: parseAll_def copy_statement_def copy_command_def copy_predicate_def rbind_def)
  then show ?thesis using run by (intro exI [of _ p'] exI [of _ ?c] exI [of _ ?n]) (simp add: evaluate_def rbind_def)
qed

theorem sql_missing_operand_witness:
  "\<exists>c n. (\<exists>p'. sql_parse ''DELETE FROM t WHERE a = 1 AND'' sql_init = Inr (p', Some (SqlCommand c))) \<and> cmd_where c = Some (Some n)
     \<and> evaluate (Some n) (Tuple_of [(''a'', VInt64 1)]) = Inl Undefined \<and> parseAll ''DELETE FROM t WHERE a = 1 AND'' sql_init = Inl Undefined"
proof -
  have printed: "unwords (''DELETE'' # ''FROM'' # ''t'' # ''WHERE'' # cmp_toks (''a'', Equals, VInt64 1) @ [''AND'']) = ''DELETE FROM t WHERE a = 1 AND''"
    by code_simp
  have row: "eval_comparison ''a'' Equals (VInt64 1) (Tuple_of [(''a'', VInt64 1)])"
    by (simp add: eval_comparison_def maybeGet_map_of)
  have plain: "plain_ident ''t''" "plain_cmp (''a'', Equals, VInt64 1)" by (simp_all add: printable_simps)
  from sql_missing_operand [OF plain, of sql_init] obtain p' c n where
    run: "sql_parse ''DELETE FROM t WHERE a = 1 AND'' sql_init = Inr (p', Some (SqlCommand c))" "cmd_where c = Some (Some n)"
    and undef: "\<forall>row. eval_comparison ''a'' Equals (VInt64 1) row \<longrightarrow> evaluate (Some n) row = Inl Undefined"
      "CHR '';'' \<notin> set ''DELETE FROM t WHERE a = 1 AND'' \<and> CHR 0x27 \<notin> set ''DELETE FROM t WHERE a = 1 AND''
        \<and> CHR 0x22 \<notin> set ''DELETE FROM t WHERE a = 1 AND'' \<longrightarrow> parseAll ''DELETE FROM t WHERE a = 1 AND'' sql_init = Inl Undefined"
    unfolding printed by (elim exE conjE)
  have all: "parseAll ''DELETE FROM t WHERE a = 1 AND'' sql_init = Inl Undefined" by (rule undef(2) [THEN mp]) simp
  show ?thesis by (intro exI conjI, rule run(1), rule run(2), rule undef(1) [rule_format, OF row], rule all)
qed

end
