(* ===== verification/Json_Laws.thy ===== *)
theory Json_Laws
  imports Json_Request
begin

text \<open>
  The two halves of \<open>frontend/JsonEncoder.hpp\<close> fit together: what the encoder quotes, the request parser reads
  back; an encoded row is one JSON value for \<open>skipValue\<close>; and a request is read back from its text, whatever
  other members it has.
\<close>

section \<open>Quoted strings\<close>

lemma hex_value_digit: "d < 16 \<Longrightarrow> hex_value (hex_digit d) = Some d"
  by (auto simp: hex_value_def hex_digit_def less_eq_char_def)

lemma escape_char_read: "string_chars (escape_char c @ cs) = map_option (\<lambda>(u, r). (c # u, r)) (string_chars cs)"
proof (cases "c = CHR 0x22 \<or> c = CHR 0x5C \<or> c = CHR 0x08 \<or> c = CHR 0x0C \<or> c = CHR 0x0A \<or> c = CHR 0x0D \<or> c = CHR 0x09")
  case True
  then show ?thesis by (auto simp: escape_char_def simple_escape_def)
next
  case False
  show ?thesis
  proof (cases "(of_char c :: nat) < 32")
    case True
    have zero: "hex_value (CHR ''0'') = Some 0" by (simp add: hex_value_def less_eq_char_def)
    have "hex_code (take 4 (''00'' @ hex_digit (of_char c div 16) # hex_digit (of_char c mod 16) # cs)) 0 = Some (of_char c)"
      using True by (simp add: zero hex_value_digit)
    then have "escape_sequence (CHR ''u'' # ''00'' @ hex_digit (of_char c div 16) # hex_digit (of_char c mod 16) # cs) = Some ([c], cs)"
      using True by (simp add: simple_escape_def utf8_def del: take_Suc_Cons)
    then show ?thesis using False True by (simp add: escape_char_def del: escape_sequence.simps)
  next
    case ctl: False
    then show ?thesis using False by (simp add: escape_char_def)
  qed
qed

lemma escaped_read: "string_chars (escapeJson s @ CHR 0x22 # r) = Some (s, r)"
  by (induction s) (simp_all add: escapeJson_def escape_char_read)

lemma quoted_read [simp]: "parseString (json_quote (escapeJson s) @ r) = Some (s, r)"
  by (simp add: json_quote_def escaped_read)

text \<open>Texts without quotes and backslashes stand for themselves.\<close>

definition plain_chars :: "string \<Rightarrow> bool" where
  "plain_chars s \<longleftrightarrow> CHR 0x22 \<notin> set s \<and> CHR 0x5C \<notin> set s"

lemma plain_read: "plain_chars s \<Longrightarrow> parseString (json_quote s @ r) = Some (s, r)"
proof -
  have "plain_chars s \<Longrightarrow> string_chars (s @ CHR 0x22 # r) = Some (s, r)"
    by (induction s) (auto simp: plain_chars_def)
  then show "plain_chars s \<Longrightarrow> ?thesis" by (simp add: json_quote_def)
qed

lemma show_nat_plain: "plain_chars (show_nat n)"
  using show_nat_digits [of n] by (auto simp: plain_chars_def is_digit_def less_eq_char_def)

lemma plain_simps [simp]:
  "plain_chars []" "plain_chars (c # s) \<longleftrightarrow> c \<noteq> CHR 0x22 \<and> c \<noteq> CHR 0x5C \<and> plain_chars s"
  "plain_chars (s @ t) \<longleftrightarrow> plain_chars s \<and> plain_chars t"
  by (auto simp: plain_chars_def)

lemma fill_zero_plain: "plain_chars (fill_zero w i)"
  using show_nat_plain by (auto simp: fill_zero_def pad_left_def show_int_def plain_chars_def)

lemma date_plain: "plain_chars (encodeIsoDate days)"
  by (auto simp: encodeIsoDate_def fill_zero_plain split: prod.splits)

lemma timestamp_plain: "encodeIsoTimestamp ms = Inr s \<Longrightarrow> plain_chars s"
  by (auto simp: encodeIsoTimestamp_def Let_def fill_zero_plain date_plain split: if_splits)

lemma base64_plain: "plain_chars (base64Encode bs)"
proof -
  have "CHR 0x22 \<notin> insert (CHR ''='') (set kAlphabet)" "CHR 0x5C \<notin> insert (CHR ''='') (set kAlphabet)"
    by (simp_all add: kAlphabet_def)
  then show ?thesis using base64_chars [of bs] unfolding plain_chars_def by blast
qed

section \<open>Encoded values are JSON values\<close>

text \<open>What follows a value in an object or an array.\<close>

definition ends_value :: "string \<Rightarrow> bool" where
  "ends_value r \<longleftrightarrow> r = [] \<or> \<not> is_digit (hd r)"

lemma skipWhitespace_stay: "s \<noteq> [] \<Longrightarrow> hd s \<notin> {CHR '' '', CHR 0x09, CHR 0x0A, CHR 0x0D} \<Longrightarrow> skipWhitespace s = s"
  by (cases s) (auto simp: skipWhitespace_def)

lemma skip_quoted: "parseString (json_quote s @ r) = Some (t, r) \<Longrightarrow> skipValue (json_quote s @ r) = Some r"
  by (simp add: skipValue_def skip_json.simps json_quote_def skipWhitespace_stay)

lemma skip_word: "skipValue (''null'' @ r) = Some r" "skipValue (''true'' @ r) = Some r" "skipValue (''false'' @ r) = Some r"
  by (simp_all add: skipValue_def skip_json.simps skipWhitespace_stay skip_literal_def)

lemma dropWhile_digits: "\<forall>c \<in> set ds. is_digit c \<Longrightarrow> ends_value r \<Longrightarrow> dropWhile is_digit (ds @ r) = r"
  by (cases r) (auto simp: ends_value_def dropWhile_append2)

lemma digit_char: "is_digit c \<Longrightarrow> c \<notin> {CHR '' '', CHR 0x09, CHR 0x0A, CHR 0x0D, CHR 0x22, CHR ''{'', CHR ''['', CHR ''t'', CHR ''f'', CHR ''n'', CHR ''-'', CHR ''+''}"
  by (auto simp: is_digit_def less_eq_char_def)

lemma skip_int: "ends_value r \<Longrightarrow> skipValue (show_int i @ r) = Some r"
proof -
  assume r: "ends_value r"
  have ds: "dropWhile is_digit (show_nat n @ r) = r" for n by (rule dropWhile_digits [OF show_nat_digits r])
  show ?thesis
  proof (cases "i < 0")
    case True
    then show ?thesis using ds
      by (simp add: show_int_def skipValue_def skip_json.simps skipWhitespace_stay sign_char_def skip_number_def after_sign_def)
  next
    case False
    obtain c cs where c: "show_nat (nat \<bar>i\<bar>) = c # cs" "is_digit c"
      using show_nat_digits [of "nat \<bar>i\<bar>"] show_nat_nonempty [of "nat \<bar>i\<bar>"] by (cases "show_nat (nat \<bar>i\<bar>)") auto
    then show ?thesis using False ds [of "nat \<bar>i\<bar>"] digit_char [OF c(2)]
      by (simp add: show_int_def skipValue_def skip_json.simps skipWhitespace_stay sign_char_def skip_number_def after_sign_def)
  qed
qed

definition not_double :: "Value \<Rightarrow> bool" where
  "not_double v \<longleftrightarrow> (\<forall>d. v \<noteq> VDouble d)"

lemma skip_encoded:
  assumes "encode_value v = Inr s" "not_double v" "ends_value r"
  shows "skipValue (s @ r) = Some r"
proof (cases v)
  case (VTimestamp i)
  then obtain t where "encodeIsoTimestamp (sint i) = Inr t" "s = json_quote t" using assms(1) by (auto simp: rbind_Inr_iff)
  then show ?thesis using timestamp_plain plain_read skip_quoted by blast
next
  case (VText t)
  then show ?thesis using assms(1) skip_quoted [OF quoted_read] by auto
next
  case (VBlob b)
  then show ?thesis using assms(1) skip_quoted [OF plain_read [OF base64_plain]] by auto
next
  case (VDate i)
  then show ?thesis using assms(1) skip_quoted [OF plain_read [OF date_plain]] by auto
qed (use assms skip_word skip_int in \<open>auto simp: not_double_def split: if_splits\<close>)

section \<open>Rows and responses\<close>

text \<open>A piece of text that \<open>skipValue\<close> takes as one value, in any place where a value may end.\<close>

definition one_value :: "string \<Rightarrow> bool" where
  "one_value s \<longleftrightarrow> s \<noteq> [] \<and> hd s \<notin> {CHR '' '', CHR 0x09, CHR 0x0A, CHR 0x0D, CHR '']'', CHR ''}''}
     \<and> (\<forall>r. ends_value r \<longrightarrow> skipValue (s @ r) = Some r)"

lemma one_valueD: "one_value s \<Longrightarrow> ends_value r \<Longrightarrow> skip_json SkipValue (s @ r) = Some r"
  by (simp add: one_value_def skipValue_def)

lemma join_results_Cons:
  "join_results sep (x # xs) = Inr s \<longleftrightarrow>
     (\<exists>t. x = Inr t \<and> (if xs = [] then s = t else \<exists>u. join_results sep xs = Inr u \<and> s = t @ sep @ u))"
proof (cases xs)
  case (Cons y ys)
  then have "join_results sep (x # xs) = rbind x (\<lambda>s. rbind (join_results sep xs) (\<lambda>s'. Inr (s @ sep @ s')))"
    by (simp only: join_results.simps(2) list.case)
  then show ?thesis using Cons by (auto simp: rbind_Inr_iff simp del: join_results.simps)
qed (auto simp: rbind_Inr_iff)

lemma ends_punct [simp]: "ends_value ('','' @ r)" "ends_value (CHR '','' # r)" "ends_value (CHR ''}'' # r)" "ends_value (CHR '']'' # r)"
  by (simp_all add: ends_value_def is_digit_def less_eq_char_def)

lemma separator_simps [simp]:
  "separator close (CHR '','' # r) = Some (True, r)"
  "close \<in> {CHR ''}'', CHR '']''} \<Longrightarrow> separator close (close # r) = Some (False, r)"
  by (auto simp: separator_def skipWhitespace_stay)

lemma member_key_read: "member_key (json_quote (escapeJson k) @ CHR '':'' # r) = Some (k, r)"
proof -
  have "skipWhitespace (json_quote (escapeJson k) @ CHR '':'' # r) = json_quote (escapeJson k) @ CHR '':'' # r"
    by (rule skipWhitespace_stay) (simp_all add: json_quote_def)
  then show ?thesis by (simp add: member_key_def Let_def skipWhitespace_stay)
qed

text \<open>The pieces of a joined list, each one value.\<close>

definition all_values :: "string result list \<Rightarrow> bool" where
  "all_values xs \<longleftrightarrow> (\<forall>t. Inr t \<in> set xs \<longrightarrow> one_value t)"

lemma skip_elements:
  "xs \<noteq> [] \<Longrightarrow> join_results '','' xs = Inr s \<Longrightarrow> all_values xs \<Longrightarrow> skip_json SkipElements (s @ CHR '']'' # r) = Some r"
proof (induction xs arbitrary: s rule: list_nonempty_induct)
  case (single x)
  then have "one_value s" by (auto simp: rbind_Inr_iff all_values_def)
  then show ?case by (simp add: skip_json.simps(3) one_valueD)
next
  case (cons x xs)
  then obtain t u where tu: "x = Inr t" "join_results '','' xs = Inr u" "s = t @ CHR '','' # u"
    by (auto simp: join_results_Cons simp del: join_results.simps)
  have "one_value t" "all_values xs" using cons.prems(2) tu(1) by (auto simp: all_values_def)
  then show ?case using cons.IH [OF tu(2)] tu by (simp add: skip_json.simps(3) [of "t @ _"] one_valueD)
qed

lemma one_value_array:
  assumes "join_results '','' xs = Inr s" "all_values xs"
  shows "one_value (''['' @ s @ '']'')"
proof -
  have "skipValue ((''['' @ s @ '']'') @ r) = Some r" for r
  proof (cases xs)
    case Nil
    then show ?thesis using assms(1) by (simp add: skipValue_def skip_json.simps(1) skipWhitespace_stay Let_def)
  next
    case (Cons x ys)
    then obtain t u where t: "x = Inr t" "s = t @ u"
      using assms(1) by (auto simp: join_results_Cons simp del: join_results.simps split: if_splits)
    then have "s \<noteq> []" "hd s \<noteq> CHR '']''" "hd s \<notin> {CHR '' '', CHR 0x09, CHR 0x0A, CHR 0x0D}"
      using assms(2) Cons by (auto simp: all_values_def one_value_def hd_append)
    moreover have "skip_json SkipElements (s @ CHR '']'' # r) = Some r"
      using skip_elements [OF _ assms] Cons by simp
    ultimately show ?thesis by (simp add: skipValue_def skip_json.simps(1) skipWhitespace_stay Let_def)
  qed
  then show ?thesis by (simp add: one_value_def)
qed

text \<open>Members: a quoted name, a colon and a value.\<close>

definition one_member :: "string \<Rightarrow> bool" where
  "one_member s \<longleftrightarrow> (\<exists>k t. s = json_quote (escapeJson k) @ '':'' @ t \<and> one_value t)"

lemma skip_members:
  "xs \<noteq> [] \<Longrightarrow> join_results '','' xs = Inr s \<Longrightarrow> \<forall>t. Inr t \<in> set xs \<longrightarrow> one_member t \<Longrightarrow>
     skip_json SkipMembers (s @ CHR ''}'' # r) = Some r"
proof (induction xs arbitrary: s rule: list_nonempty_induct)
  case (single x)
  then have "one_member s" by (auto simp: rbind_Inr_iff)
  then show ?case by (auto simp: one_member_def skip_json.simps(2) member_key_read one_valueD)
next
  case (cons x xs)
  then obtain t u where tu: "x = Inr t" "join_results '','' xs = Inr u" "s = t @ CHR '','' # u"
    by (auto simp: join_results_Cons simp del: join_results.simps)
  then obtain k v where "t = json_quote (escapeJson k) @ '':'' @ v" "one_value v"
    using cons.prems(2) by (auto simp: one_member_def)
  then show ?case using cons.IH [OF tu(2)] cons.prems(2) tu
    by (simp add: skip_json.simps(2) [of "json_quote _ @ _"] member_key_read one_valueD)
qed

lemma one_value_object:
  assumes "join_results '','' xs = Inr s" "\<forall>t. Inr t \<in> set xs \<longrightarrow> one_member t"
  shows "one_value (''{'' @ s @ ''}'')"
proof -
  have "skipValue ((''{'' @ s @ ''}'') @ r) = Some r" for r
  proof (cases xs)
    case Nil
    then show ?thesis using assms(1) by (simp add: skipValue_def skip_json.simps(1) skipWhitespace_stay Let_def)
  next
    case (Cons x ys)
    then obtain t u where t: "x = Inr t" "s = t @ u"
      using assms(1) by (auto simp: join_results_Cons simp del: join_results.simps split: if_splits)
    then have "s \<noteq> []" "hd s = CHR 0x22"
      using assms(2) Cons by (auto simp: one_member_def json_quote_def)
    moreover have "skip_json SkipMembers (s @ CHR ''}'' # r) = Some r"
      using skip_members [OF _ assms] Cons by simp
    ultimately show ?thesis by (simp add: skipValue_def skip_json.simps(1) skipWhitespace_stay Let_def)
  qed
  then show ?thesis by (simp add: one_value_def)
qed

definition no_doubles :: "Tuple \<Rightarrow> bool" where
  "no_doubles t \<longleftrightarrow> (\<forall>(n, v) \<in> set (tcolumns t). not_double v)"

lemma encoded_value_one:
  assumes "encode_value v = Inr s" "not_double v"
  shows "one_value s"
proof -
  have int: "show_int i \<noteq> [] \<and> (is_digit (hd (show_int i)) \<or> hd (show_int i) = CHR ''-'')" for i
    using show_nat_digits [of "nat \<bar>i\<bar>"] show_nat_nonempty [of "nat \<bar>i\<bar>"] hd_in_set by (auto simp: show_int_def)
  have "s \<noteq> []" "hd s \<notin> {CHR '' '', CHR 0x09, CHR 0x0A, CHR 0x0D, CHR '']'', CHR ''}''}"
    using assms int [of "sint (case v of VInt32 i \<Rightarrow> i)"] int [of "sint (case v of VInt64 i \<Rightarrow> i)"]
    by (cases v; auto simp: json_quote_def not_double_def rbind_Inr_iff is_digit_def less_eq_char_def split: if_splits)+
  then show ?thesis using skip_encoded [OF assms] by (simp add: one_value_def)
qed

lemma encoded_row_one:
  assumes "encodeTuple t = Inr s" "no_doubles t"
  shows "one_value s"
proof -
  obtain u where u: "join_results '','' (map encode_member (tcolumns t)) = Inr u" "s = ''{'' @ u @ ''}''"
    using assms(1) by (auto simp: encodeTuple_def rbind_Inr_iff)
  have "one_member m" if nv: "(n, v) \<in> set (tcolumns t)" "encode_member (n, v) = Inr m" for n v m
  proof -
    obtain x where "encode_value v = Inr x" "m = json_quote (escapeJson n) @ '':'' @ x"
      using nv(2) by (auto simp: encode_member_def rbind_Inr_iff)
    moreover from this have "one_value x" using encoded_value_one [of v x] assms(2) nv(1) by (auto simp: no_doubles_def)
    ultimately show ?thesis unfolding one_member_def by blast
  qed
  then have "\<forall>m. Inr m \<in> set (map encode_member (tcolumns t)) \<longrightarrow> one_member m" by fastforce
  from one_value_object [OF u(1) this] show ?thesis by (simp add: u(2))
qed

lemma encoded_array_one:
  assumes "encodeArray t = Inr s" "no_doubles t"
  shows "one_value s"
proof -
  obtain u where u: "join_results '','' (map (\<lambda>cv. encode_value (snd cv)) (tcolumns t)) = Inr u" "s = ''['' @ u @ '']''"
    using assms(1) by (auto simp: encodeArray_def rbind_Inr_iff)
  have "all_values (map (\<lambda>cv. encode_value (snd cv)) (tcolumns t))"
    using assms(2) encoded_value_one by (fastforce simp: no_doubles_def all_values_def)
  from one_value_array [OF u(1) this] show ?thesis by (simp add: u(2))
qed

lemma json_names: "escapeJson ''success'' = ''success''" "escapeJson ''rows'' = ''rows''" "escapeJson ''error'' = ''error''"
    "escapeJson ''type'' = ''type''" "escapeJson ''sql'' = ''sql''" "escapeJson ''txnId'' = ''txnId''"
  by code_simp+

lemma encoded_rows_one:
  assumes "encode_rows enc rs = Inr s" "\<And>t u. t \<in> set (rs_rows rs) \<Longrightarrow> enc t = Inr u \<Longrightarrow> one_value u"
  shows "one_value s"
proof -
  obtain u where u: "join_results '','' (map enc (rs_rows rs)) = Inr u"
      "s = ''{'' @ json_quote ''success'' @ '':'' @ (if rs_success rs then ''true'' else ''false'') @ '','' @ json_quote ''rows'' @ '':['' @ u @ '']}''"
    using assms(1) by (auto simp: encode_rows_def rbind_Inr_iff)
  have "one_value (''['' @ u @ '']'')" by (rule one_value_array [OF u(1)]) (use assms(2) in \<open>auto simp: all_values_def\<close>)
  then have m: "one_member (json_quote ''rows'' @ '':'' @ ''['' @ u @ '']'')" unfolding one_member_def using json_names(2) by metis
  have "one_value (if rs_success rs then ''true'' else ''false'')" by (simp add: one_value_def skip_word [simplified])
  then have "one_member (json_quote ''success'' @ '':'' @ (if rs_success rs then ''true'' else ''false''))"
    unfolding one_member_def using json_names(1) by metis
  with m show ?thesis
    using one_value_object [of "[Inr (json_quote ''success'' @ '':'' @ (if rs_success rs then ''true'' else ''false'')), Inr (json_quote ''rows'' @ '':'' @ ''['' @ u @ '']'')]"]
    by (auto simp: u(2) rbind_def)
qed

lemma encoded_error_one: "one_value (encode_error e)"
proof -
  have "one_value (json_quote (escapeJson (error_toString e)))"
    using encoded_value_one [of "VText (error_toString e)"] by (simp add: not_double_def)
  then have m: "one_member (json_quote ''error'' @ '':'' @ json_quote (escapeJson (error_toString e)))"
    unfolding one_member_def using json_names(3) by metis
  have "one_value ''false''" by (simp add: one_value_def skip_word [simplified])
  then have "one_member (json_quote ''success'' @ '':'' @ ''false'')" unfolding one_member_def using json_names(1) by metis
  with m show ?thesis
    using one_value_object [of "[Inr (json_quote ''success'' @ '':'' @ ''false''), Inr (json_quote ''error'' @ '':'' @ json_quote (escapeJson (error_toString e)))]"]
    by (auto simp: encode_error_def rbind_def)
qed



section \<open>Requests\<close>

text \<open>A request as a text: other members first, then the three known keys.\<close>

definition member_text :: "ColumnValue \<Rightarrow> string" where
  "member_text cv = (case encode_member cv of Inl _ \<Rightarrow> [] | Inr s \<Rightarrow> s @ '','')"

definition request_text :: "ColumnValue list \<Rightarrow> JsonRequest \<Rightarrow> string" where
  "request_text others q =
     ''{'' @ concat (map member_text others) @
     json_quote ''type'' @ '':'' @ json_quote (escapeJson (jr_type q)) @ '','' @
     json_quote ''sql'' @ '':'' @ json_quote (escapeJson (jr_sql q)) @
     (case jr_txnId q of None \<Rightarrow> [] | Some n \<Rightarrow> '','' @ json_quote ''txnId'' @ '':'' @ show_nat (unat n)) @ ''}''"

definition other_member :: "ColumnValue \<Rightarrow> bool" where
  "other_member cv \<longleftrightarrow> fst cv \<notin> {''type'', ''sql'', ''txnId''} \<and> not_double (snd cv) \<and> (\<exists>s. encode_value (snd cv) = Inr s)"

lemma known_key: "member_key (json_quote ''type'' @ CHR '':'' # r) = Some (''type'', r)" "member_key (json_quote ''sql'' @ CHR '':'' # r) = Some (''sql'', r)"
    "member_key (json_quote ''txnId'' @ CHR '':'' # r) = Some (''txnId'', r)"
  using member_key_read [of "''type''" r] member_key_read [of "''sql''" r] member_key_read [of "''txnId''" r] by (simp_all add: json_names)

lemma quote_stays: "skipWhitespace (json_quote s @ r) = json_quote s @ r"
  by (rule skipWhitespace_stay) (simp_all add: json_quote_def)

lemma value_string:
  "member_value ''type'' out (json_quote (escapeJson s) @ r) = Some (out\<lparr>jr_type := s\<rparr>, r)"
  "member_value ''sql'' out (json_quote (escapeJson s) @ r) = Some (out\<lparr>jr_sql := s\<rparr>, r)"
  by (simp_all add: member_value_def quote_stays Let_def) (simp_all add: json_quote_def)

lemma value_number: "ends_value r \<Longrightarrow> member_value ''txnId'' out (show_nat (unat n) @ r) = Some (out\<lparr>jr_txnId := Some n\<rparr>, r)"
proof -
  assume r: "ends_value r"
  obtain c cs where c: "show_nat (unat n) = c # cs" "is_digit c"
    using show_nat_digits [of "unat n"] show_nat_nonempty [of "unat n"] by (cases "show_nat (unat n)") auto
  have s: "skipWhitespace (show_nat (unat n) @ r) = show_nat (unat n) @ r"
    using digit_char [OF c(2)] c(1) by (intro skipWhitespace_stay) auto
  have a: "after_sign (show_nat (unat n) @ r) = show_nat (unat n) @ r" "after_sign (show_nat (unat n)) = show_nat (unat n)"
      "hd (show_nat (unat n)) \<noteq> CHR ''-''"
    using digit_char [OF c(2)] c(1) by (auto simp: after_sign_def sign_char_def)
  have "parseNumberAsString (show_nat (unat n) @ r) = Some (show_nat (unat n), r)"
    using dropWhile_digits [OF show_nat_digits r] by (simp add: parseNumberAsString_def s a Let_def)
  moreover have "stoull (show_nat (unat n)) = Some n"
    using unsigned_less [where 'a = nat, of n] by (simp add: stoull_def a Let_def)
  ultimately show ?thesis by (simp add: member_value_def s Let_def)
qed

lemma value_other:
  assumes "other_member (k, v)" "encode_value v = Inr s" "ends_value r"
  shows "member_value k out (s @ r) = Some (out, r)"
proof -
  have one: "one_value s" using assms(1,2) encoded_value_one by (auto simp: other_member_def)
  then have "skipWhitespace (s @ r) = s @ r" by (intro skipWhitespace_stay) (auto simp: one_value_def)
  then show ?thesis using one assms(1,3) by (auto simp: member_value_def Let_def other_member_def one_value_def)
qed

lemma members_others:
  "\<forall>cv \<in> set others. other_member cv \<Longrightarrow> object_members out (concat (map member_text others) @ r) = object_members out r"
proof (induction others)
  case (Cons cv others)
  obtain k v s where cv: "cv = (k, v)" "encode_value v = Inr s" using Cons.prems by (cases cv) (auto simp: other_member_def)
  have "member_text cv = json_quote (escapeJson k) @ '':'' @ s @ '',''" by (simp add: member_text_def encode_member_def cv rbind_def)
  then show ?case using Cons value_other [of k v s "CHR '','' # _"] cv
    by (subst object_members.simps) (simp add: member_key_read)
qed simp

lemma members_known:
  "object_members out (json_quote ''type'' @ '':'' @ json_quote (escapeJson ty) @ '','' @ json_quote ''sql'' @ '':'' @ json_quote (escapeJson sql) @
     (case txn of None \<Rightarrow> [] | Some n \<Rightarrow> '','' @ json_quote ''txnId'' @ '':'' @ show_nat (unat n)) @ ''}'' @ r)
   = Some (out\<lparr>jr_type := ty, jr_sql := sql, jr_txnId := (case txn of None \<Rightarrow> jr_txnId out | Some n \<Rightarrow> Some n)\<rparr>, r)"
  by (cases txn) (simp_all add: object_members.simps known_key value_string value_number)

lemma request_read:
  assumes "jr_type q \<noteq> []" "\<forall>cv \<in> set others. other_member cv"
  shows "parseJsonRequest (request_text others q @ garbage) = Some q"
proof -
  let ?known = "json_quote ''type'' @ '':'' @ json_quote (escapeJson (jr_type q)) @ '','' @ json_quote ''sql'' @ '':'' @ json_quote (escapeJson (jr_sql q)) @
     (case jr_txnId q of None \<Rightarrow> [] | Some n \<Rightarrow> '','' @ json_quote ''txnId'' @ '':'' @ show_nat (unat n)) @ ''}'' @ garbage"
  let ?rest = "concat (map member_text others) @ ?known"
  have "hd ?rest = CHR 0x22 \<and> ?rest \<noteq> []"
  proof (cases others)
    case (Cons cv cvs)
    then obtain s where "encode_value (snd cv) = Inr s" using assms(2) by (auto simp: other_member_def)
    then show ?thesis using Cons by (simp add: member_text_def encode_member_def json_quote_def rbind_def)
  qed (simp add: json_quote_def)
  then have ws: "skipWhitespace ?rest = ?rest" "?rest \<noteq> []" "hd ?rest \<noteq> CHR ''}''" by (auto intro: skipWhitespace_stay)
  have "object_members JsonRequest_init ?rest = Some (q, garbage)"
    unfolding members_others [OF assms(2)] members_known by (cases q) (simp add: JsonRequest_init_def split: option.splits)
  moreover have "request_text others q @ garbage = CHR ''{'' # ?rest" by (simp add: request_text_def)
  ultimately show ?thesis using ws assms(1)
    by (simp add: parseJsonRequest_def parseValue_def parseObject_def skipWhitespace_stay Let_def)
qed



end
