(* ===== verification/Http_Laws.thy ===== *)
theory Http_Laws
  imports Http_Api Sql_Shapes Json_Laws
begin

text \<open>
  The front ends over the engine: a request text goes through the JSON parser and the SQL parser to the
  command it was written for; on the in-memory provider an INSERT request is answered and published; and
  the transaction statements and failing statements of the HTTP front ends, which do not do what they should.
\<close>

section \<open>From the text to the command\<close>

lemma split_one: "CHR '';'' \<notin> set s \<Longrightarrow> acc @ s \<noteq> [] \<Longrightarrow> split_statements s a b acc = [acc @ s]"
  by (induction s arbitrary: acc a b) auto

lemma copy_printable: "printable c w \<Longrightarrow> copy_command c = Inr c"
  using no_null_dnf by (auto simp: printable_def copy_command_def copy_predicate_iff split: option.splits)

lemma printed_nonempty: "unwords (cmd_toks c w) \<noteq> []"
  by (cases "cmd_type c") (simp_all add: cmd_toks_def unwords_Cons Let_def)

lemma parseAll_printed:
  assumes "printable c w" "CHR '';'' \<notin> set (unwords (cmd_toks c w))"
  shows "\<exists>p'. parseAll (unwords (cmd_toks c w)) p = Inr (p', [SqlCommand c])"
proof -
  obtain p' where "sql_parse (unwords (cmd_toks c w)) p = Inr (p', Some (SqlCommand c))"
    using sql_parse_runs [OF runs_printed [OF assms(1)] cmd_toks_ok [OF assms(1)]] by blast
  then show ?thesis using split_one [OF assms(2), of "[]"] printed_nonempty copy_printable [OF assms(1)]
    by (simp add: parseAll_def copy_statement_def rbind_def)
qed

lemma query_reaches_dml:
  assumes "printable c w" "CHR '';'' \<notin> set (unwords (cmd_toks c w))" "ha_opened st"
    "jr_type q = ''query''" "jr_sql q = unwords (cmd_toks c w)" "\<forall>cv \<in> set others. other_member cv"
  shows "\<exists>p'. handleRequest ord pv (request_text others q @ garbage) st = handleDml ord pv c (jr_txnId q) (st\<lparr>ha_parser := p'\<rparr>)"
proof -
  obtain p' where p': "parseAll (jr_sql q) (ha_parser st) = Inr (p', [SqlCommand c])"
    using parseAll_printed [OF assms(1,2), of "ha_parser st"] assms(5) by auto
  have "parseJsonRequest (request_text others q @ garbage) = Some q" by (rule request_read) (simp_all add: assms)
  then show ?thesis using assms(3,4) p' by (auto simp: handleRequest_def executeRequest_def txn_request_def)
qed

section \<open>An INSERT request on the in-memory provider\<close>

lemma numbered_no_id: "plain_values c \<Longrightarrow> cmd_type c = Insert \<Longrightarrow> cmd_values c = Some row \<Longrightarrow> insert_key row = VNull"
proof -
  assume "plain_values c" "cmd_type c = Insert" "cmd_values c = Some row"
  then have row: "tuple_wf row" "tcolumns row = numbered (map snd (tcolumns row))" by (auto simp: plain_values_def)
  have "show_nat i \<noteq> ''_id''" for i
  proof
    assume "show_nat i = ''_id''"
    then show False using show_nat_head [of i] by (simp add: is_digit_def less_eq_char_def)
  qed
  then have "''_id'' \<notin> fst ` set (numbered vs)" for vs by (fastforce simp: numbered_def set_zip)
  then have "map_of (tcolumns row) ''_id'' = None" using row(2) by (metis map_of_eq_None_iff)
  then show ?thesis using row(1) by (simp add: insert_key_def maybeGet_map_of)
qed

text \<open>A put under the null key is a put under the next automatic id.\<close>

lemma put_auto:
  "im_put e t tbl VNull row =
     im_put (e\<lparr>im_auto_id := AList.update tbl (next_auto_id e tbl) (im_auto_id e)\<rparr>) t tbl (VInt64 (next_auto_id e tbl))
       (tset row ''_id'' (VInt64 (next_auto_id e tbl)))"
  by (simp add: im_put_def isNull_def)

lemma auto_id_irrelevant [simp]:
  "im_inv (e\<lparr>im_auto_id := x\<rparr>) = im_inv e" "im_idle (e\<lparr>im_auto_id := x\<rparr>) t = im_idle e t" "im_get (e\<lparr>im_auto_id := x\<rparr>) t tbl k = im_get e t tbl k"
proof -
  have "isVisible (e\<lparr>im_auto_id := x\<rparr>) t = isVisible e t" by (rule ext) (simp add: isVisible_def)
  then show "im_get (e\<lparr>im_auto_id := x\<rparr>) t tbl k = im_get e t tbl k" by (simp add: im_get_def split: option.split)
qed (simp_all add: im_inv_def im_idle_def)

lemma put_commit_published:
  fixes tbl :: string and row :: Tuple
  assumes "im_inv e" "im_idle e t" "im_idle e u" "u \<noteq> t" "seq \<noteq> 0" "key_ok k"
  defines "n \<equiv> VInt64 (next_auto_id e tbl)" and "e' \<equiv> fst (im_put e t tbl VNull row)"
  shows "im_get (fst (im_commit e' t seq)) u tbl' k
      = (if tbl' = tbl \<and> compare n k = SEqual then Some (tset row ''_id'' n) else im_get e u tbl' k)"
    and "isSentinel (snd (im_commit e' t seq))"
proof -
  let ?e = "e\<lparr>im_auto_id := AList.update tbl (next_auto_id e tbl) (im_auto_id e)\<rparr>"
  have inv: "im_inv ?e" "im_idle ?e t" "im_idle ?e u" using assms(1-3) by simp_all
  have n: "key_ok n" by (simp add: n_def key_ok_def)
  have e': "e' = fst (eput InMemoryStorageEngine ?e t tbl n (tset row ''_id'' n))"
    by (simp add: e'_def n_def put_auto InMemoryStorageEngine_def)
  have "agree key_ok (view_of InMemoryStorageEngine (fst (ecommit InMemoryStorageEngine e' t seq)) u)
      (overlay vo.eqv (WPut tbl n (tset row ''_id'' n)) (view_of InMemoryStorageEngine ?e u))"
    unfolding e' by (rule im.insert_publishes [OF inv assms(4) n assms(5)])
  then show "im_get (fst (im_commit e' t seq)) u tbl' k
      = (if tbl' = tbl \<and> compare n k = SEqual then Some (tset row ''_id'' n) else im_get e u tbl' k)"
    using assms(6) n by (auto simp: agree_def view_of_def InMemoryStorageEngine_def value_eqv_iff key_ok_not_nan)
  have "im_inv e'" unfolding e' using im.write_inv [OF inv(1), of "WPut tbl n (tset row ''_id'' n)" t] n by simp
  then show "isSentinel (snd (im_commit e' t seq))" using im.commit_ok [of e' seq t] assms(5) by (simp add: InMemoryStorageEngine_def)
qed

definition ok_text :: string where
  "ok_text = ''{'' @ json_quote ''success'' @ '':true,'' @ json_quote ''rows'' @ '':[]}''"

lemma encode_ok: "encode_result ok_result = Inr ok_text"
  by (simp add: encode_result_def encode_rows_def ok_result_def ok_text_def rbind_def)

lemma try_is_acquire: "try_enter lm t k m = acquire_enter lm t k m"
  by (simp add: try_enter_def acquire_enter_def)

lemma provider_engine: "pv_engine in_memory_provider = ip_engine_ops"
  by (simp add: in_memory_provider_def)

lemma insert_dml:
  fixes st :: "IMProvider http_api"
  assumes "cmd_type c = Insert" "cmd_values c = Some row" "tcolumns row \<noteq> []" "insert_key row = VNull" "quiet (ha_lm st)"
  defines "t \<equiv> next_id (ha_tm st) + 1"
    and "e' \<equiv> fst (im_put (ip_engine (ha_storage st)) (next_id (ha_tm st) + 1) (cmd_table c) VNull row)"
  assumes "isSentinel (snd (im_commit e' t (commit_seq (ha_tm st) + 1)))"
  shows "\<exists>st'. handleDml ord in_memory_provider c None st = Done (st', ok_text) \<and> quiet (ha_lm st')
    \<and> ip_engine (ha_storage st') = fst (im_commit e' t (commit_seq (ha_tm st) + 1))"
proof -
  obtain tm where txn: "beginTxn (ha_tm st) = (tm, t)" using beginTxn_id [of "ha_tm st"] by (simp add: t_def)
  obtain lm where lm: "acquire_enter (ha_lm st) t (tableKey (cmd_table c)) (command_mode c) = (lm, Some Granted)" "quiet (fst (release lm t))"
    by (rule quiet_acquire [OF assms(5)])
  have put: "eput ip_engine_ops (ha_storage st) t (cmd_table c) VNull row = ((ha_storage st)\<lparr>ip_engine := e'\<rparr>, sentinel)"
    by (simp add: ip_engine_ops_def on_engine_def InMemoryStorageEngine_def e'_def t_def im_put_def split_beta)
  have com: "ecommit ip_engine_ops p t s = (p\<lparr>ip_engine := fst (im_commit (ip_engine p) t s)\<rparr>, snd (im_commit (ip_engine p) t s))" for p s
    by (simp add: ip_engine_ops_def on_engine_def InMemoryStorageEngine_def split_beta)
  have seq: "visibleSeq (fst (commitTxn tm t)) = commit_seq (ha_tm st) + 1"
    using visibleSeq_commit_begin [of "ha_tm st"] txn by (simp add: t_def)
  have handled: "api_handle in_memory_provider (ha_storage st) t c = Inr ((ha_storage st)\<lparr>ip_engine := e'\<rparr>, None, ok_result)"
    using assms(1-4) put by (simp add: api_handle_def api_insert_def in_memory_provider_def tuple_size_def Let_def)
  show ?thesis
    using txn lm handled com seq assms(8) quiet_detect [OF assms(5)]
    by (simp add: handleDml_def try_is_acquire dml_execute_def Let_def provider_engine reply_def encode_ok)
qed

section \<open>Properties\<close>

text \<open>
  C8. A query request reaches the engine as the command it was written for. For every printable command and every provider,
  the JSON text of a query with the command's SQL, with any other members and any text behind, is handled exactly as
  the command itself, in the transaction that the request names; only the parser's scratch state differs.
\<close>

theorem http_query_runs_command:
  assumes "printable c w" "CHR '';'' \<notin> set (unwords (cmd_toks c w))" "ha_opened st"
    "jr_type q = ''query''" "jr_sql q = unwords (cmd_toks c w)" "\<forall>cv \<in> set others. other_member cv"
  shows "\<exists>p'. handleRequest ord pv (request_text others q @ garbage) st = handleDml ord pv c (jr_txnId q) (st\<lparr>ha_parser := p'\<rparr>)"
  by (rule query_reaches_dml [OF assms])

text \<open>
  C9. An INSERT request on the in-memory provider, with no lock held, is answered with success, leaves no lock
  behind and is published: every other transaction without writes of its own finds the row, completed by the next automatic id,
  under that id, and everything else as it was.
\<close>

theorem http_insert_published:
  fixes st :: "IMProvider http_api"
  defines "e \<equiv> ip_engine (ha_storage st)" and "t \<equiv> next_id (ha_tm st) + 1"
  assumes "printable c w" "cmd_type c = Insert" "cmd_values c = Some row" "tcolumns row \<noteq> []"
    "CHR '';'' \<notin> set (unwords (cmd_toks c w))" "ha_opened st" "quiet (ha_lm st)"
    "im_inv e" "im_idle e t" "im_idle e u" "u \<noteq> t" "commit_seq (ha_tm st) + 1 \<noteq> 0" "key_ok k"
  shows "\<exists>st'. handleRequest ord in_memory_provider
      (request_text [] \<lparr>jr_type = ''query'', jr_sql = unwords (cmd_toks c w), jr_txnId = None\<rparr>) st = Done (st', ok_text)
    \<and> quiet (ha_lm st')
    \<and> im_get (ip_engine (ha_storage st')) u tbl k =
        (if tbl = cmd_table c \<and> compare (VInt64 (next_auto_id e (cmd_table c))) k = SEqual
         then Some (tset row ''_id'' (VInt64 (next_auto_id e (cmd_table c)))) else im_get e u tbl k)"
proof -
  let ?q = "\<lparr>jr_type = ''query'', jr_sql = unwords (cmd_toks c w), jr_txnId = None\<rparr>"
  obtain p' where req: "handleRequest ord in_memory_provider (request_text [] ?q) st = handleDml ord in_memory_provider c None (st\<lparr>ha_parser := p'\<rparr>)"
    using query_reaches_dml [OF assms(3,7,8), of ?q "[]" ord in_memory_provider "[]"] by auto
  let ?st = "st\<lparr>ha_parser := p'\<rparr>" and ?put = "fst (im_put e t (cmd_table c) VNull row)" and ?seq = "commit_seq (ha_tm st) + 1"
  note pub = put_commit_published [OF assms(10-15), of "cmd_table c" row]
  have "insert_key row = VNull" using assms(3-5) by (intro numbered_no_id) (auto simp: printable_def)
  then obtain st' where "handleDml ord in_memory_provider c None ?st = Done (st', ok_text)" "quiet (ha_lm st')"
      "ip_engine (ha_storage st') = fst (im_commit ?put t ?seq)"
    using insert_dml [of c row ?st ord] assms(4-6,9) pub(2) by (auto simp: e_def t_def)
  then show ?thesis using req pub(1) [of tbl] by (auto simp: e_def t_def)
qed

text \<open>
  C26. An UPDATE or DELETE of its own that matches no row leaves its transaction open: on every provider, the plugin begins a
  transaction, answers that nothing matched and releases the lock, but neither aborts nor commits, so the
  transaction stays active for ever.
\<close>

theorem http_unmatched_statement_stays_open:
  assumes "cmd_type cmd = Update \<or> cmd_type cmd = Delete" "command_wf cmd" "cmd_where cmd = Some p" "quiet (ha_lm st)"
    "matching_ids (pv_engine pv) (ha_storage st) (next_id (ha_tm st) + 1) (cmd_table cmd) p = Inr []"
  shows "\<exists>st' m. handleDml ord pv cmd None st = Done (st', encode_error (db_error NotFound m))
    \<and> getState (ha_tm st') (next_id (ha_tm st) + 1) = Active \<and> quiet (ha_lm st') \<and> ha_storage st' = ha_storage st"
proof -
  let ?t = "next_id (ha_tm st) + 1"
  obtain tm where tm: "beginTxn (ha_tm st) = (tm, ?t)" "getState tm ?t = Active"
    using beginTxn_id [of "ha_tm st"] by (simp add: beginTxn_def getState_def Let_def)
  obtain lm where lm: "acquire_enter (ha_lm st) ?t (tableKey (cmd_table cmd)) (command_mode cmd) = (lm, Some Granted)" "quiet (fst (release lm ?t))"
    by (rule quiet_acquire [OF assms(4)])
  obtain m where "api_handle pv (ha_storage st) ?t cmd = Inr (ha_storage st, Some (db_error NotFound m), ok_result)"
    using assms(1-3,5) by (cases "cmd_values cmd") (auto simp: api_handle_def Let_def disp_keys_def command_wf_def)
  then show ?thesis using tm lm quiet_detect [OF assms(4)]
    by (auto simp: handleDml_def try_is_acquire dml_execute_def Let_def reply_error_def)
qed

text \<open>
  Transactions cannot be ended through the SQL of a query, nor used at all through a session: COMMIT and ROLLBACK in a
  query are refused even when the request names a transaction, and the conversion of a begin, commit
  or rollback request to a command always throws, because it builds an INSERT without values.
\<close>

theorem http_transaction_statements_refused:
  "executeStatement ord pv SqlTxnCommit t st = reply_error st (db_error NotSupported ''commit requires txnId'')
   \<and> executeStatement ord pv SqlTxnRollback t st = reply_error st (db_error NotSupported ''rollback requires txnId'')
   \<and> (jr_type req \<in> {''begin'', ''commit'', ''rollback''} \<longrightarrow>
        convertRequestToCommand req p = Inl (InvalidArgument ''Insert requires values''))"
  by (auto simp: sql_txn_def txn_request_def bare_request_def JsonRequest_init_def convertRequestToCommand_def
      mkCommand_def validate_def Let_def rbind_def)

section \<open>Witnesses\<close>

definition fresh_api :: "IMProvider http_api" where
  "fresh_api = (ha_init ip_init tm_init lm_init)\<lparr>ha_opened := True\<rparr>"

definition one_row :: Command where
  "one_row = \<lparr>cmd_type = Insert, cmd_table = ''t'', cmd_where = None, cmd_values = Some (Tuple_of [(''0'', VInt64 5)]), cmd_projections = [],
     cmd_orderBy = [], cmd_joins = [], cmd_limit = None, cmd_offset = None, cmd_txnId = None\<rparr>"

lemma one_row_printable: "printable one_row None"
proof -
  have "numbered [VInt64 5] = [(''0'', VInt64 5)]" by code_simp
  then show ?thesis by (simp add: one_row_def printable_simps)
qed

lemma one_row_text: "unwords (cmd_toks one_row None) = ''INSERT INTO t VALUES ( 5 )''"
  by (simp add: one_row_def cmd_toks_def show_int_def) code_simp

lemma fresh_api_ok: "ha_opened fresh_api" "quiet (ha_lm fresh_api)" "im_inv (ip_engine (ha_storage fresh_api))" "im_idle (ip_engine (ha_storage fresh_api)) t"
  by (simp_all add: fresh_api_def ha_init_def quiet_def lm_init_def waiting_def ip_init_def im_init_def im_idle_def im_inv_def)

theorem http_query_runs_command_witness:
  "\<exists>p'. handleRequest (id, id) in_memory_provider
     (request_text [] \<lparr>jr_type = ''query'', jr_sql = ''INSERT INTO t VALUES ( 5 )'', jr_txnId = Some 4\<rparr> @ ''garbage'') fresh_api
   = handleDml (id, id) in_memory_provider one_row (Some 4) (fresh_api\<lparr>ha_parser := p'\<rparr>)"
  using http_query_runs_command [OF one_row_printable _ fresh_api_ok(1), of "\<lparr>jr_type = ''query'', jr_sql = ''INSERT INTO t VALUES ( 5 )'', jr_txnId = Some 4\<rparr>" "[]"]
  by (simp add: one_row_text)

theorem http_insert_published_witness:
  "\<exists>st'. handleRequest (id, id) in_memory_provider
     (request_text [] \<lparr>jr_type = ''query'', jr_sql = ''INSERT INTO t VALUES ( 5 )'', jr_txnId = None\<rparr>) fresh_api = Done (st', ok_text)
   \<and> im_get (ip_engine (ha_storage st')) 9 ''t'' (VInt64 1) = Some (tset (Tuple_of [(''0'', VInt64 5)]) ''_id'' (VInt64 1))"
proof -
  have row: "cmd_type one_row = Insert" "cmd_values one_row = Some (Tuple_of [(''0'', VInt64 5)])" "cmd_table one_row = ''t''"
    by (simp_all add: one_row_def)
  have "next_auto_id (ip_engine (ha_storage fresh_api)) ''t'' = 1" "next_id (ha_tm fresh_api) = 0" "commit_seq (ha_tm fresh_api) = 0"
    by (simp_all add: fresh_api_def ha_init_def ip_init_def im_init_def next_auto_id_def tm_init_def)
  then show ?thesis
    using http_insert_published [of one_row None "Tuple_of [(''0'', VInt64 5)]" fresh_api 9 "VInt64 1" "(id, id)" "''t''",
        OF one_row_printable row(1,2)] fresh_api_ok
    by (auto simp: one_row_text row key_ok_def)
qed

theorem http_unmatched_statement_stays_open_witness:
  "\<exists>st' m. handleDml (id, id) in_memory_provider update_cmd None fresh_api = Done (st', encode_error (db_error NotFound m))
     \<and> getState (ha_tm st') 1 = Active"
proof -
  have "matching_ids (pv_engine in_memory_provider) (ha_storage fresh_api) 1 (cmd_table update_cmd) (Some (ComparisonNode ''_id'' Equals (VInt64 7))) = Inr []"
    by (simp add: matching_ids_def provider_engine ip_engine_ops_def InMemoryStorageEngine_def im_scan_def fresh_api_def ha_init_def ip_init_def im_init_def rbind_def)
  moreover have "next_id (ha_tm fresh_api) = 0" by (simp add: fresh_api_def ha_init_def tm_init_def)
  ultimately show ?thesis
    using http_unmatched_statement_stays_open [of update_cmd "Some (ComparisonNode ''_id'' Equals (VInt64 7))" fresh_api in_memory_provider "(id, id)"] fresh_api_ok(2)
    by (auto simp: update_cmd_def insert_cmd_def command_wf_def)
qed

theorem http_transaction_statements_refused_witness:
  "convertRequestToCommand (bare_request ''begin'') sql_init = Inl (InvalidArgument ''Insert requires values'')"
  using http_transaction_statements_refused [of "(id, id)" in_memory_provider None fresh_api "bare_request ''begin''" sql_init]
  by (simp add: bare_request_def JsonRequest_init_def)

end
