(* ===== verification/Repl_Source.thy ===== *)
theory Repl_Source
  imports Engine_Loop Sql_Lexer
begin

text \<open>
  The line-based front end \<open>frontend/ReplSource.hpp\<close> and the table that it prints (\<open>ResultSet::toString\<close> of
  \<open>types/Result.hpp\<close>). The input stream is the list of its lines; \<open>>>\<close> on a line reads a word between blanks.
  The output and the error stream are the texts written so far.
\<close>

section \<open>Texts\<close>

definition trim :: "string \<Rightarrow> string" where
  "trim s = rev (dropWhile isspace (rev (dropWhile isspace s)))"

text \<open>\<open>iss >> word\<close>: the word, empty at the end of the text, and the text left.\<close>

definition read_word :: "string \<Rightarrow> string \<times> string" where
  "read_word s = (let r = dropWhile isspace s in (takeWhile (\<lambda>c. \<not> isspace c) r, dropWhile (\<lambda>c. \<not> isspace c) r))"

fun split_on :: "char \<Rightarrow> string \<Rightarrow> string list" where
  "split_on d [] = [[]]"
| "split_on d (c # cs) =
     (if c = d then [] # split_on d cs
      else case split_on d cs of [] \<Rightarrow> [[c]] | p # ps \<Rightarrow> (c # p) # ps)"

text \<open>\<open>find\<close> and two \<open>substr\<close>: the text before and after the first \<open>d\<close>.\<close>

definition split_first :: "char \<Rightarrow> string \<Rightarrow> (string \<times> string) option" where
  "split_first d s = (if d \<in> set s then Some (takeWhile (\<lambda>c. c \<noteq> d) s, tl (dropWhile (\<lambda>c. c \<noteq> d) s)) else None)"

section \<open>Literals\<close>

text \<open>\<open>std::stoll\<close> on a text without leading blanks: the value when all of the text is the number.\<close>

definition stoll_all :: "string \<Rightarrow> int option" where
  "stoll_all s =
     (let ds = skip_sign s; n = leading_int s
      in if ds \<noteq> [] \<and> (\<forall>c \<in> set ds. is_digit c) \<and> - (2 ^ 63) \<le> n \<and> n < 2 ^ 63 then Some n else None)"

definition quoted_by :: "char \<Rightarrow> string \<Rightarrow> bool" where
  "quoted_by q s \<longleftrightarrow> length s \<ge> 2 \<and> hd s = q \<and> last s = q"

definition parseValueLit :: "string \<Rightarrow> Value" where
  "parseValueLit vlit =
     (if vlit = ''null'' then VNull
      else if vlit = ''true'' then VBool True
      else if vlit = ''false'' then VBool False
      else if quoted_by (CHR 0x22) vlit \<or> quoted_by (CHR 0x27) vlit then VText (butlast (tl vlit))
      else case stoll_all vlit of Some n \<Rightarrow> VInt64 (word_of_int n) | None \<Rightarrow> VText vlit)"

text \<open>One entry \<open>name:value\<close>; \<open>None\<close> when the colon is missing.\<close>

definition tuple_entry :: "string \<Rightarrow> (string \<times> Value) option" where
  "tuple_entry entry = map_option (\<lambda>(n, v). (trim n, parseValueLit (trim v))) (split_first (CHR '':'') entry)"

fun tuple_entries :: "string list \<Rightarrow> Tuple \<Rightarrow> Tuple" where
  "tuple_entries [] t = t"
| "tuple_entries (e # es) t = (case tuple_entry e of None \<Rightarrow> Tuple_empty | Some (n, v) \<Rightarrow> tuple_entries es (tset t n v))"

definition braced :: "string \<Rightarrow> bool" where
  "braced s \<longleftrightarrow> s \<noteq> [] \<and> hd s = CHR ''{'' \<and> last s = CHR ''}''"

definition parseTupleLit :: "string \<Rightarrow> Tuple" where
  "parseTupleLit s =
     (if length s < 2 \<or> \<not> braced s then Tuple_empty
      else tuple_entries (split_on (CHR '','') (butlast (tl s))) Tuple_empty)"

definition parseEqualityPred :: "string \<Rightarrow> Predicate option" where
  "parseEqualityPred p =
     map_option (\<lambda>(col, v). Some (ComparisonNode (trim col) Equals (parseValueLit (trim v)))) (split_first (CHR ''='') (trim p))"

section \<open>Lines\<close>

text \<open>The first missing colon of a tuple, which is reported on the error stream.\<close>

fun entry_error :: "string list \<Rightarrow> string" where
  "entry_error [] = []"
| "entry_error (e # es) =
     (if tuple_entry e = None then ''[ERR] tuple entry '' @ [CHR 0x27] @ e @ [CHR 0x27] @ '' missing '' @ [CHR 0x27] @ '':'' @ [CHR 0x27, CHR 0x0A]
      else entry_error es)"

definition tuple_error :: "string \<Rightarrow> string" where
  "tuple_error s = (if length s < 2 \<or> \<not> braced s then [] else entry_error (split_on (CHR '','') (butlast (tl s))))"

definition insert_line :: "string \<Rightarrow> string \<Rightarrow> (string \<times> Command option) result" where
  "insert_line table lit0 =
     (let t = parseTupleLit lit0
      in if tuple_size t = 0 then Inr (tuple_error lit0, None)
         else rbind (mkCommand Insert table None (Some t) [] None) (\<lambda>c. Inr ([], Some c)))"

text \<open>\<open>parse\<close>: what is written to the error stream and the command.\<close>

definition repl_parse :: "string \<Rightarrow> (string \<times> Command option) result" where
  "repl_parse line =
     (let (verb, r) = read_word line; (table, r1) = read_word r; (next_word, r2) = read_word r1
      in if verb = [] then Inr ([], None)
         else if verb = ''INSERT'' then insert_line table (if braced next_word then next_word else trim (next_word @ r2))
         else if verb = ''SELECT'' then
           rbind (mkCommand Select table (if next_word = ''WHERE'' then parseEqualityPred r2 else None) None [] None)
             (\<lambda>c. Inr ([], Some c))
         else if verb = ''EXIT'' then Inr ([], None)
         else Inr (''[ERR] Unknown verb: '' @ verb @ [CHR 0x0A], None))"

record ReplSource =
  rp_in :: "string list"
  rp_out :: string
  rp_err :: string

definition repl_next :: "ReplSource \<Rightarrow> (ReplSource \<times> Command option) result" where
  "repl_next s =
     (case rp_in s of
        [] \<Rightarrow> Inr (s, None)
      | l # ls \<Rightarrow>
          (let s = s\<lparr>rp_in := ls\<rparr>; line = trim l
           in if line = [] then Inr (s, None)
              else rbind (repl_parse line) (\<lambda>(e, c). Inr (s\<lparr>rp_err := rp_err s @ e\<rparr>, c))))"

section \<open>Printed tables\<close>

text \<open>The cells and the widths of a row; a column that the first row does not have is not printed.\<close>

fun set_cells :: "string list \<Rightarrow> ColumnValue list \<Rightarrow> string list \<times> nat list \<Rightarrow> (string list \<times> nat list) result" where
  "set_cells headers [] cw = Inr cw"
| "set_cells headers ((n, v) # cs) (cells, widths) =
     (let i = length (takeWhile (\<lambda>h. h \<noteq> n) headers)
      in if i < length headers
         then rbind (toString v) (\<lambda>s.
                set_cells headers cs (cells[i := s], widths[i := (if length s > widths ! i then length s else widths ! i)]))
         else set_cells headers cs (cells, widths))"

fun render_rows :: "string list \<Rightarrow> Tuple list \<Rightarrow> nat list \<Rightarrow> (string list list \<times> nat list) result" where
  "render_rows headers [] widths = Inr ([], widths)"
| "render_rows headers (t # ts) widths =
     rbind (set_cells headers (tcolumns t) (replicate (length headers) ''NULL'', widths)) (\<lambda>(cells, widths).
     rbind (render_rows headers ts widths) (\<lambda>(rest, widths). Inr (cells # rest, widths)))"

fun sep_texts :: "string \<Rightarrow> string list \<Rightarrow> string" where
  "sep_texts s [] = []"
| "sep_texts s [x] = x"
| "sep_texts s (x # y # ys) = x @ s @ sep_texts s (y # ys)"

definition pad_right :: "nat \<Rightarrow> string \<Rightarrow> string" where
  "pad_right w s = s @ replicate (w - length s) (CHR '' '')"

definition table_line :: "nat list \<Rightarrow> string list \<Rightarrow> string" where
  "table_line widths cells = ''| '' @ sep_texts '' | '' (map2 pad_right widths cells) @ '' |'' @ [CHR 0x0A]"

definition result_toString :: "ResultSet \<Rightarrow> string result" where
  "result_toString rs =
     (case rs_rows rs of
        [] \<Rightarrow> Inr (''(no rows)'' @ [CHR 0x0A])
      | row # _ \<Rightarrow>
          (let headers = map fst (tcolumns row)
           in rbind (render_rows headers (rs_rows rs) (map length headers)) (\<lambda>(rendered, widths).
                Inr (table_line widths headers
                     @ ''|-'' @ sep_texts ''-+-'' (map (\<lambda>w. replicate w (CHR ''-'')) widths) @ ''-|'' @ [CHR 0x0A]
                     @ concat (map (table_line widths) rendered)))))"

definition repl_present :: "answer \<Rightarrow> ReplSource \<Rightarrow> ReplSource result" where
  "repl_present a s =
     (case a of
        Rows rs \<Rightarrow>
          (if rs_rows rs = [] then Inr (s\<lparr>rp_out := rp_out s @ (if rs_success rs then ''[OK]'' else ''[FAIL]'') @ [CHR 0x0A]\<rparr>)
           else rbind (result_toString rs) (\<lambda>t. Inr (s\<lparr>rp_out := rp_out s @ (if rs_success rs then ''[OK] '' else ''[FAIL] '') @ t\<rparr>)))
      | Failure e \<Rightarrow> Inr (s\<lparr>rp_out := rp_out s @ ''[ERR] '' @ error_toString e @ [CHR 0x0A]\<rparr>))"

lemma rbind_cong [fundef_cong]: "m = m' \<Longrightarrow> (\<And>x. m' = Inr x \<Longrightarrow> f x = f' x) \<Longrightarrow> rbind m f = rbind m' f'"
  by (cases m') (simp_all add: rbind_def)

text \<open>The commands that the engine loop pulls: up to the first \<open>nullopt\<close>.\<close>

function repl_session :: "ReplSource \<Rightarrow> (ReplSource \<times> Command list) result" where
  "repl_session s =
     rbind (repl_next s) (\<lambda>(s', c). case c of
         None \<Rightarrow> Inr (s', [])
       | Some cmd \<Rightarrow> rbind (repl_session s') (\<lambda>(s'', cmds). Inr (s'', cmd # cmds)))"
  by pat_completeness auto
termination
  by (relation "measure (\<lambda>s. length (rp_in s))")
    (auto simp: repl_next_def rbind_Inr_iff Let_def split: list.splits if_splits)

declare repl_session.simps [simp del]

section \<open>Words and literals are read back\<close>

definition solid :: "string \<Rightarrow> bool" where
  "solid s \<longleftrightarrow> s \<noteq> [] \<and> (\<forall>c \<in> set s. \<not> isspace c)"

lemma dropWhile_solid: "solid s \<Longrightarrow> dropWhile isspace (s @ r) = s @ r"
  by (cases s) (auto simp: solid_def)

lemma trim_solid: "solid s \<Longrightarrow> trim s = s"
proof -
  assume s: "solid s"
  then have "solid (rev s)" by (simp add: solid_def)
  then show ?thesis using dropWhile_solid [OF s, of "[]"] dropWhile_solid [of "rev s" "[]"] by (simp add: trim_def)
qed

lemma space: "isspace (CHR '' '')"
  by (simp add: isspace_def)

lemma read_word_space: "solid w \<Longrightarrow> read_word (w @ CHR '' '' # r) = (w, CHR '' '' # r)"
  by (simp add: read_word_def dropWhile_solid solid_def takeWhile_append2 dropWhile_append2 space Let_def)

lemma read_word_blank: "read_word (CHR '' '' # r) = read_word r"
  by (simp add: read_word_def space)

lemma read_word_end: "solid w \<Longrightarrow> read_word w = (w, [])"
  using dropWhile_solid [of w "[]"] by (simp add: read_word_def solid_def Let_def)

text \<open>A literal of a value; texts are quoted.\<close>

fun repl_lit :: "Value \<Rightarrow> string" where
  "repl_lit VNull = ''null''"
| "repl_lit (VBool b) = (if b then ''true'' else ''false'')"
| "repl_lit (VInt64 i) = show_int (sint i)"
| "repl_lit (VText s) = CHR 0x27 # s @ [CHR 0x27]"
| "repl_lit v = []"

fun repl_value :: "Value \<Rightarrow> bool" where
  "repl_value VNull = True"
| "repl_value (VBool b) = True"
| "repl_value (VInt64 i) = True"
| "repl_value (VText s) = (\<forall>c \<in> set s. \<not> isspace c \<and> c \<noteq> CHR '','')"
| "repl_value v = False"

lemma show_int_first: "show_int i \<noteq> [] \<and> (is_digit (hd (show_int i)) \<or> hd (show_int i) = CHR ''-'')"
  using show_nat_digits [of "nat \<bar>i\<bar>"] hd_in_set [OF show_nat_nonempty, of "nat \<bar>i\<bar>"] by (auto simp: show_int_def)

lemma show_int_chars: "c \<in> set (show_int i) \<Longrightarrow> is_digit c \<or> c = CHR ''-''"
  using show_nat_digits [of "nat \<bar>i\<bar>"] by (auto simp: show_int_def split: if_splits)

lemma stoll_show: "stoll_all (show_int (sint i)) = Some (sint i)" for i :: u64
proof -
  have "- (2 ^ 63) \<le> sint i" "sint i < 2 ^ 63" using sint_range_size [of i] by (auto simp: word_size)
  then show ?thesis using show_nat_digits [of "nat \<bar>sint i\<bar>"] by (simp add: stoll_all_def skip_sign_show leading_int_show Let_def)
qed

lemma parse_repl_lit: "repl_value v \<Longrightarrow> parseValueLit (repl_lit v) = v"
proof (cases v)
  case (VInt64 i)
  let ?s = "show_int (sint i)"
  have "hd ?s \<notin> {CHR ''n'', CHR ''t'', CHR ''f'', CHR 0x22, CHR 0x27}" "?s \<noteq> []"
    using show_int_first [of "sint i"] by (auto simp: is_digit_def less_eq_char_def)
  then have "?s \<noteq> ''null''" "?s \<noteq> ''true''" "?s \<noteq> ''false''" "\<not> quoted_by (CHR 0x22) ?s" "\<not> quoted_by (CHR 0x27) ?s"
    by (auto simp: quoted_by_def)
  then show ?thesis using VInt64 stoll_show [of i] by (simp add: parseValueLit_def)
qed (auto simp: parseValueLit_def quoted_by_def)

section \<open>Lines are read back\<close>

definition repl_name :: "string \<Rightarrow> bool" where
  "repl_name s \<longleftrightarrow> solid s \<and> CHR '','' \<notin> set s \<and> CHR '':'' \<notin> set s"

definition entry_text :: "ColumnValue \<Rightarrow> string" where
  "entry_text cv = fst cv @ '':'' @ repl_lit (snd cv)"

definition row_text :: "ColumnValue list \<Rightarrow> string" where
  "row_text cs = ''{'' @ sep_texts '','' (map entry_text cs) @ ''}''"

definition repl_row :: "ColumnValue list \<Rightarrow> bool" where
  "repl_row cs \<longleftrightarrow> cs \<noteq> [] \<and> distinct (map fst cs) \<and> (\<forall>(n, v) \<in> set cs. repl_name n \<and> repl_value v)"

lemma lit_chars: "repl_value v \<Longrightarrow> repl_lit v \<noteq> [] \<and> (\<forall>c \<in> set (repl_lit v). \<not> isspace c \<and> c \<noteq> CHR '','')"
proof (cases v)
  case (VInt64 i)
  have "\<not> isspace c \<and> c \<noteq> CHR '',''" if "c \<in> set (show_int (sint i))" for c
    using show_int_chars [OF that] by (auto simp: is_digit_def isspace_def less_eq_char_def)
  then show ?thesis using VInt64 show_int_first by simp
qed (auto simp: isspace_def less_eq_char_def)

lemma split_first_read: "d \<notin> set a \<Longrightarrow> split_first d (a @ d # b) = Some (a, b)"
  by (induction a) (auto simp: split_first_def split: if_splits)

lemma entry_read: "repl_name n \<Longrightarrow> repl_value v \<Longrightarrow> tuple_entry (entry_text (n, v)) = Some (n, v)"
proof -
  assume n: "repl_name n" and v: "repl_value v"
  have "solid n" "solid (repl_lit v)" "CHR '':'' \<notin> set n" using n v lit_chars by (auto simp: repl_name_def solid_def)
  then show ?thesis using v by (simp add: tuple_entry_def entry_text_def split_first_read trim_solid parse_repl_lit)
qed

lemma split_on_read: "d \<notin> set x \<Longrightarrow> split_on d x = [x]" "d \<notin> set x \<Longrightarrow> split_on d (x @ d # y) = x # split_on d y"
  by (induction x) auto

lemma split_entries: "es \<noteq> [] \<Longrightarrow> \<forall>e \<in> set es. CHR '','' \<notin> set e \<Longrightarrow> split_on (CHR '','') (sep_texts '','' es) = es"
proof (induction es rule: list_nonempty_induct)
  case (cons e es)
  then obtain f fs where "es = f # fs" by (cases es) auto
  with cons show ?case by (simp add: split_on_read(2))
qed (simp add: split_on_read(1))

lemma entries_read:
  "\<forall>(n, v) \<in> set cs. repl_name n \<and> repl_value v \<Longrightarrow> distinct (map fst (acc @ cs)) \<Longrightarrow>
     tuple_entries (map entry_text cs) (Tuple_of acc) = Tuple_of (acc @ cs)"
proof (induction cs arbitrary: acc)
  case (Cons c cs)
  obtain n v where c: "c = (n, v)" by (cases c)
  have "n \<notin> fst ` set acc" using Cons.prems(2) by (auto simp: c)
  then have "tset (Tuple_of acc) n v = Tuple_of (acc @ [(n, v)])" by (rule tset_fresh)
  then show ?case using Cons.IH [of "acc @ [c]"] Cons.prems by (simp add: c entry_read)
qed simp

lemma row_read: "repl_row cs \<Longrightarrow> parseTupleLit (row_text cs) = Tuple_of cs"
proof -
  assume cs: "repl_row cs"
  have "CHR '','' \<notin> set (entry_text cv)" if "cv \<in> set cs" for cv
    using cs that lit_chars by (fastforce simp: repl_row_def entry_text_def repl_name_def)
  then have "split_on (CHR '','') (sep_texts '','' (map entry_text cs)) = map entry_text cs"
    using cs by (intro split_entries) (auto simp: repl_row_def)
  moreover have "tuple_entries (map entry_text cs) Tuple_empty = Tuple_of cs"
    using entries_read [of cs "[]"] cs by (simp add: repl_row_def Tuple_of_Nil)
  ultimately show ?thesis by (simp add: parseTupleLit_def row_text_def braced_def)
qed

lemma row_solid: "repl_row cs \<Longrightarrow> solid (row_text cs) \<and> braced (row_text cs)"
proof -
  assume cs: "repl_row cs"
  have "\<not> isspace c" if "c \<in> set (entry_text cv)" "cv \<in> set cs" for c cv
    using cs that lit_chars by (fastforce simp: repl_row_def entry_text_def repl_name_def solid_def isspace_def)
  moreover have "set (sep_texts '','' es) \<subseteq> insert (CHR '','') (\<Union>(set ` set es))" for es
    by (induction "'',''" es rule: sep_texts.induct) auto
  moreover have "\<not> isspace (CHR '','')" "\<not> isspace (CHR ''{'')" "\<not> isspace (CHR ''}'')" by (simp_all add: isspace_def less_eq_char_def)
  ultimately have "\<forall>c \<in> set (row_text cs). \<not> isspace c" by (fastforce simp: row_text_def)
  then show ?thesis by (simp add: solid_def row_text_def braced_def)
qed



text \<open>
  What a user does not see: a blank line, or a line with an unknown verb, ends the whole session instead of
  being skipped, and a condition that is no equality is dropped, so that the query returns the whole table.
\<close>

theorem repl_silent_failures:
  "(trim l = [] \<or> fst (read_word (trim l)) \<notin> {''INSERT'', ''SELECT''} \<longrightarrow>
      (\<exists>s'. repl_session (s\<lparr>rp_in := l # ls\<rparr>) = Inr (s', []) \<and> rp_in s' = ls))
   \<and> (solid table \<and> CHR ''='' \<notin> set cond \<longrightarrow>
      repl_parse (''SELECT '' @ table @ '' WHERE '' @ cond) = repl_parse (''SELECT '' @ table @ '' ''))"
proof (intro conjI impI)
  assume "trim l = [] \<or> fst (read_word (trim l)) \<notin> {''INSERT'', ''SELECT''}"
  then have "\<exists>s'. repl_next (s\<lparr>rp_in := l # ls\<rparr>) = Inr (s', None) \<and> rp_in s' = ls"
    by (auto simp: repl_next_def repl_parse_def Let_def rbind_def split_beta)
  then show "\<exists>s'. repl_session (s\<lparr>rp_in := l # ls\<rparr>) = Inr (s', []) \<and> rp_in s' = ls"
    by (auto simp: repl_session.simps [of "s\<lparr>rp_in := l # ls\<rparr>"] rbind_def)
next
  assume a: "solid table \<and> CHR ''='' \<notin> set cond"
  have words: "solid ''SELECT''" "solid ''WHERE''" by (simp_all add: solid_def isspace_def less_eq_char_def)
  have r: "read_word (''SELECT '' @ x) = (''SELECT'', '' '' @ x)" "read_word (''WHERE '' @ x) = (''WHERE'', '' '' @ x)" for x
    using read_word_space [OF words(1), of x] read_word_space [OF words(2), of x] by simp_all
  have "set (trim ('' '' @ cond)) \<subseteq> set ('' '' @ cond)" unfolding trim_def by (auto dest!: set_dropWhileD)
  then have "parseEqualityPred ('' '' @ cond) = None" using a by (auto simp: parseEqualityPred_def split_first_def)
  then show "repl_parse (''SELECT '' @ table @ '' WHERE '' @ cond) = repl_parse (''SELECT '' @ table @ '' '')"
    using a r read_word_space [of table "''WHERE '' @ cond"] read_word_space [of table "[]"]
    by (simp add: repl_parse_def read_word_blank Let_def) (simp add: read_word_def)
qed

theorem repl_silent_failures_witness:
  "repl_parse ''SELECT users WHERE age > 30'' = repl_parse ''SELECT users ''
   \<and> (\<exists>s'. repl_session \<lparr>rp_in = ['' '', ''SELECT users''], rp_out = [], rp_err = []\<rparr> = Inr (s', []) \<and> rp_in s' = [''SELECT users''])"
  using repl_silent_failures [where l = "'' ''" and s = "\<lparr>rp_in = [], rp_out = [], rp_err = []\<rparr>" and ls = "[''SELECT users'']"
      and table = "''users''" and cond = "''age > 30''"]
  by (simp add: solid_def isspace_def less_eq_char_def trim_def)

end
