(* ===== verification/Http_Server.thy ===== *)
theory Http_Server
  imports Http_Laws Repl_Source
begin

text \<open>
  The HTTP server: \<open>src/HttpServer.cpp\<close> (rendering, routing, statistics) and the connection handling of
  \<open>src/HttpServerIoThread.cpp\<close>. Sockets are not modelled: what \<open>read\<close> and \<open>write\<close> return are arguments. A connection lives
  behind a \<open>unique_ptr\<close> in a map from descriptors; a moved-from pointer is \<open>None\<close> in that map, and following it is
  undefined. The clock only feeds latencies, which are arguments too.
\<close>

section \<open>Texts of responses\<close>

definition crlf :: string where
  "crlf = [CHR 0x0D, CHR 0x0A]"

definition response_head :: "nat \<Rightarrow> string \<Rightarrow> string \<Rightarrow> nat \<Rightarrow> string" where
  "response_head statusCode reason contentType len =
     ''HTTP/1.1 '' @ show_nat statusCode @ '' '' @ reason @ crlf @
     ''Content-Type: '' @ contentType @ crlf @
     ''Content-Length: '' @ show_nat len @ crlf @
     ''Connection: close'' @ crlf @ crlf"

definition renderHttpResponse :: "nat \<Rightarrow> string \<Rightarrow> string \<Rightarrow> string \<Rightarrow> string" where
  "renderHttpResponse statusCode reason body contentType =
     response_head statusCode reason contentType (length body) @ body"

definition error_body :: "string \<Rightarrow> string" where
  "error_body message = ''{'' @ json_quote ''error'' @ '':'' @ json_quote message @ ''}''"

definition renderHttpError :: "nat \<Rightarrow> string \<Rightarrow> string \<Rightarrow> string" where
  "renderHttpError statusCode reason message =
     response_head statusCode reason ''application/json'' (20 + length message) @ error_body message"

section \<open>Request lines\<close>

text \<open>\<open>s.find(pat)\<close>: the text before the first occurrence and the text from it on.\<close>

fun find_text :: "string \<Rightarrow> string \<Rightarrow> (string \<times> string) option" where
  "find_text pat [] = (if pat = [] then Some ([], []) else None)"
| "find_text pat (c # cs) =
     (if take (length pat) (c # cs) = pat then Some ([], c # cs)
      else map_option (\<lambda>(a, b). (c # a, b)) (find_text pat cs))"

definition parseHttpHead :: "string \<Rightarrow> (string \<times> string \<times> string) option" where
  "parseHttpHead headLine =
     (case split_first (CHR '' '') headLine of None \<Rightarrow> None
      | Some (meth, r) \<Rightarrow> map_option (\<lambda>(path, version). (meth, path, version)) (split_first (CHR '' '') r))"

definition splitMethodPath :: "string \<Rightarrow> (string \<times> string) option" where
  "splitMethodPath requestLine =
     map_option (\<lambda>(meth, path, _). (meth, takeWhile (\<lambda>c. c \<noteq> CHR ''?'') path)) (parseHttpHead requestLine)"

section \<open>Connections\<close>

record Connection =
  cn_read :: string
  cn_write :: string
  cn_offset :: nat
  cn_closed :: bool

definition Connection_init :: Connection where
  "Connection_init = \<lparr>cn_read = [], cn_write = [], cn_offset = 0, cn_closed = False\<rparr>"

text \<open>The map of one I/O thread: \<open>Some None\<close> is an entry whose pointer has been moved away.\<close>

type_synonym conns = "int \<Rightarrow> Connection option option"

definition adopt :: "int \<Rightarrow> conns \<Rightarrow> conns" where
  "adopt fd m = m(fd \<mapsto> Some Connection_init)"

definition writeTo :: "int \<Rightarrow> string \<Rightarrow> conns \<Rightarrow> conns result" where
  "writeTo fd data m =
     (case m fd of
        None \<Rightarrow> Inr m
      | Some None \<Rightarrow> Inl Undefined
      | Some (Some c) \<Rightarrow> Inr (m(fd \<mapsto> Some (c\<lparr>cn_write := data, cn_offset := 0\<rparr>))))"

datatype read_result = ReadBytes string | ReadEof | ReadAgain | ReadInterrupted | ReadError

text \<open>The loop over \<open>read\<close>: the connection, and whether the buffer is looked at.\<close>

fun read_loop :: "read_result list \<Rightarrow> Connection \<Rightarrow> Connection \<times> bool" where
  "read_loop [] c = (c, True)"
| "read_loop (ReadBytes b # rs) c = read_loop rs (c\<lparr>cn_read := cn_read c @ b\<rparr>)"
| "read_loop (ReadEof # rs) c = (c\<lparr>cn_closed := True\<rparr>, False)"
| "read_loop (ReadAgain # rs) c = (c, True)"
| "read_loop (ReadInterrupted # rs) c = read_loop rs c"
| "read_loop (ReadError # rs) c = (c\<lparr>cn_closed := True\<rparr>, False)"

text \<open>\<open>std::stoull\<close>: blanks, a sign and digits at the front; what follows is ignored.\<close>

definition stoull_front :: "string \<Rightarrow> nat option" where
  "stoull_front s =
     (let t = dropWhile isspace s; ds = takeWhile is_digit (after_sign t); n = read_nat ds
      in if ds = [] \<or> 2 ^ 64 \<le> n then None
         else Some (if hd t = CHR ''-'' then (2 ^ 64 - n) mod 2 ^ 64 else n))"

definition before_crlf :: "string \<Rightarrow> string" where
  "before_crlf s = (case find_text crlf s of None \<Rightarrow> s | Some (a, _) \<Rightarrow> a)"

text \<open>\<open>find_first_not_of(" \t", clPos + 14)\<close> and the text up to the end of the line.\<close>

definition content_length :: "string \<Rightarrow> nat" where
  "content_length headerSection =
     (case find_text ''Content-Length:'' headerSection of
        None \<Rightarrow> 0
      | Some (_, r) \<Rightarrow>
          (let cl = before_crlf (dropWhile (\<lambda>c. c = CHR '' '' \<or> c = CHR 0x09) (drop 14 r))
           in case stoull_front cl of None \<Rightarrow> 0 | Some n \<Rightarrow> n))"

text \<open>\<open>handleRead\<close>: the connection and the request that is handed on.\<close>

definition handleRead :: "read_result list \<Rightarrow> Connection \<Rightarrow> Connection \<times> string option" where
  "handleRead rs c0 =
     (case read_loop rs c0 of
        (c, False) \<Rightarrow> (c, None)
      | (c, True) \<Rightarrow>
          (case find_text (crlf @ crlf) (cn_read c) of
             None \<Rightarrow> (if length (cn_read c) > 64 * 1024 then c\<lparr>cn_closed := True\<rparr> else c, None)
           | Some (head_part, _) \<Rightarrow>
               (let totalExpected = (length head_part + 4 + content_length head_part) mod 2 ^ 64
                in if length (cn_read c) < totalExpected then (c, None)
                   else (c\<lparr>cn_read := drop totalExpected (cn_read c)\<rparr>, Some (take totalExpected (cn_read c))))))"

datatype write_result = Wrote nat | WriteAgain | WriteInterrupted | WriteError

fun handleWrite :: "write_result list \<Rightarrow> Connection \<Rightarrow> Connection" where
  "handleWrite [] c = (if cn_offset c < length (cn_write c) then c else c\<lparr>cn_closed := True\<rparr>)"
| "handleWrite (w # ws) c =
     (if cn_offset c < length (cn_write c) then
        (case w of
           Wrote n \<Rightarrow> if n > 0 then handleWrite ws (c\<lparr>cn_offset := cn_offset c + n\<rparr>) else c\<lparr>cn_closed := True\<rparr>
         | WriteAgain \<Rightarrow> c
         | WriteInterrupted \<Rightarrow> handleWrite ws c
         | WriteError \<Rightarrow> c\<lparr>cn_closed := True\<rparr>)
      else c\<lparr>cn_closed := True\<rparr>)"

section \<open>The server\<close>

record Stats =
  connectionsAccepted :: u64
  connectionsActive :: u64
  requestsServed :: u64
  requestsConflicted :: u64
  requestsRejected :: u64
  st_totalLatency :: u64
  st_maxLatency :: u64

definition Stats_init :: Stats where
  "Stats_init = \<lparr>connectionsAccepted = 0, connectionsActive = 0, requestsServed = 0, requestsConflicted = 0, requestsRejected = 0,
     st_totalLatency = 0, st_maxLatency = 0\<rparr>"

record Config =
  cf_ioThreadCount :: nat
  cf_maxConnections :: nat
  cf_maxBodySize :: nat

text \<open>\<open>sv_engine\<close>: the text of the dispatcher's metrics, when there is a dispatcher.\<close>

record 's http_server =
  sv_storage :: 's
  sv_tm :: TransactionManager
  sv_lm :: LockManager
  sv_stats :: Stats
  sv_cfg :: Config
  sv_running :: bool
  sv_active :: nat
  sv_engine :: "string option"
  sv_io :: "conns list"
  sv_next :: nat

definition Config_init :: Config where
  "Config_init = \<lparr>cf_ioThreadCount = 0, cf_maxConnections = 1024, cf_maxBodySize = 10 * 1024 * 1024\<rparr>"

definition sv_init :: "'s \<Rightarrow> string option \<Rightarrow> TransactionManager \<Rightarrow> LockManager \<Rightarrow> 's http_server" where
  "sv_init s engine tm lm =
     \<lparr>sv_storage = s, sv_tm = tm, sv_lm = lm, sv_stats = Stats_init, sv_cfg = Config_init, sv_running = False, sv_active = 0,
      sv_engine = engine, sv_io = [], sv_next = 0\<rparr>"

text \<open>
  \<open>listen\<close>: \<open>hw\<close> is \<open>hardware_concurrency()\<close>, \<open>bound\<close> whether the socket could be bound. The I/O threads of an earlier
  \<open>listen\<close> stay in the vector, and \<open>stop\<close> keeps their connections.
\<close>

definition server_listen :: "nat \<Rightarrow> bool \<Rightarrow> Config \<Rightarrow> 's http_server \<Rightarrow> 's http_server \<times> bool" where
  "server_listen hw bound cfg sv =
     (if sv_running sv then (sv, True)
      else let n = (if cf_ioThreadCount cfg = 0 then hw else cf_ioThreadCount cfg);
               n = (if n = 0 then 1 else n);
               sv = sv\<lparr>sv_cfg := cfg\<lparr>cf_ioThreadCount := n\<rparr>, sv_active := 0\<rparr>
           in if \<not> bound then (sv, False)
              else (sv\<lparr>sv_io := sv_io sv @ replicate n Map.empty, sv_running := True\<rparr>, True))"

definition server_stop :: "'s http_server \<Rightarrow> 's http_server" where
  "server_stop sv = sv\<lparr>sv_running := False\<rparr>"

definition tryAcquireConnection :: "'s http_server \<Rightarrow> 's http_server \<times> bool" where
  "tryAcquireConnection sv =
     (if sv_active sv < cf_maxConnections (sv_cfg sv) then (sv\<lparr>sv_active := sv_active sv + 1\<rparr>, True) else (sv, False))"

definition releaseConnection :: "'s http_server \<Rightarrow> 's http_server" where
  "releaseConnection sv = sv\<lparr>sv_active := (sv_active sv + (2 ^ 64 - 1)) mod 2 ^ 64\<rparr>"

definition onAccept :: "'s http_server \<Rightarrow> 's http_server \<times> bool" where
  "onAccept sv =
     (case tryAcquireConnection sv of
        (sv, True) \<Rightarrow> (sv\<lparr>sv_stats := (sv_stats sv)\<lparr>connectionsAccepted := connectionsAccepted (sv_stats sv) + 1\<rparr>\<rparr>, True)
      | (sv, False) \<Rightarrow> (sv, False))"

definition reject :: "'s http_server \<Rightarrow> 's http_server" where
  "reject sv = sv\<lparr>sv_stats := (sv_stats sv)\<lparr>requestsRejected := requestsRejected (sv_stats sv) + 1\<rparr>\<rparr>"

definition record_request :: "u64 \<Rightarrow> nat \<Rightarrow> 's http_server \<Rightarrow> 's http_server" where
  "record_request us sc sv =
     (let s = sv_stats sv;
          s = s\<lparr>st_totalLatency := st_totalLatency s + us, st_maxLatency := (if st_maxLatency s < us then us else st_maxLatency s)\<rparr>
      in sv\<lparr>sv_stats :=
           (if 200 \<le> sc \<and> sc < 300 then s\<lparr>requestsServed := requestsServed s + 1\<rparr>
            else if sc = 409 then s\<lparr>requestsConflicted := requestsConflicted s + 1\<rparr>
            else s\<lparr>requestsRejected := requestsRejected s + 1\<rparr>)\<rparr>)"

definition renderStatsSnapshot :: "Stats \<Rightarrow> string" where
  "renderStatsSnapshot s =
     ''{'' @ json_field ''connections_accepted'' (show_u64 (connectionsAccepted s)) @
     '','' @ json_field ''connections_active'' (show_u64 (connectionsActive s)) @
     '','' @ json_field ''requests_served'' (show_u64 (requestsServed s)) @
     '','' @ json_field ''requests_conflicted'' (show_u64 (requestsConflicted s)) @
     '','' @ json_field ''requests_rejected'' (show_u64 (requestsRejected s)) @
     '','' @ json_field ''total_latency_us'' (show_u64 (st_totalLatency s)) @
     '','' @ json_field ''max_latency_us'' (show_u64 (st_maxLatency s)) @ ''}''"

text \<open>The engine's metrics are spliced in after the last closing brace has been taken off.\<close>

definition metrics_body :: "Stats \<Rightarrow> string option \<Rightarrow> string" where
  "metrics_body s engine =
     (case engine of
        None \<Rightarrow> renderStatsSnapshot s
      | Some m \<Rightarrow> butlast (renderStatsSnapshot s) @ '','' @ json_quote ''engine'' @ '':'' @ m)"

definition status_body :: "Stats \<Rightarrow> string" where
  "status_body s =
     ''{'' @ json_field ''connections'' (show_u64 (connectionsActive s)) @ '','' @ json_field ''requests'' (show_u64 (requestsServed s)) @ ''}''"

text \<open>Every I/O thread is asked to write.\<close>

fun write_all :: "int \<Rightarrow> string \<Rightarrow> conns list \<Rightarrow> conns list result" where
  "write_all fd data [] = Inr []"
| "write_all fd data (m # ms) = rbind (writeTo fd data m) (\<lambda>m'. rbind (write_all fd data ms) (\<lambda>ms'. Inr (m' # ms')))"

definition send_text :: "int \<Rightarrow> string \<Rightarrow> 's http_server \<Rightarrow> 's http_server outcome" where
  "send_text fd data sv = (case write_all fd data (sv_io sv) of Inl e \<Rightarrow> Crash e | Inr io \<Rightarrow> Done (sv\<lparr>sv_io := io\<rparr>))"

definition sendResponse :: "int \<Rightarrow> nat \<Rightarrow> string \<Rightarrow> string \<Rightarrow> 's http_server \<Rightarrow> 's http_server outcome" where
  "sendResponse fd sc reason body = send_text fd (renderHttpResponse sc reason body ''application/json'')"

definition sendError :: "int \<Rightarrow> nat \<Rightarrow> string \<Rightarrow> string \<Rightarrow> 's http_server \<Rightarrow> 's http_server outcome" where
  "sendError fd sc reason message = send_text fd (renderHttpError sc reason message)"

text \<open>A fresh plugin on the shared components answers the body; a waiting request keeps its thread.\<close>

definition handle_api :: "hash_orders \<Rightarrow> 's provider_ops \<Rightarrow> int \<Rightarrow> string \<Rightarrow> 's http_server \<Rightarrow> 's http_server outcome" where
  "handle_api ord pv fd body sv =
     (case ha_open True (sv_engine sv \<noteq> None) (ha_init (sv_storage sv) (sv_tm sv) (sv_lm sv)) of
        (api, err) \<Rightarrow>
          if \<not> isSentinel err then sendResponse fd 500 ''Internal Error'' (encode_error err) sv
          else case handleRequest ord pv body api of
                 Crash e \<Rightarrow> Crash e
               | Blocked (api, _) \<Rightarrow> Blocked (sv\<lparr>sv_storage := ha_storage api, sv_tm := ha_tm api, sv_lm := ha_lm api\<rparr>)
               | Done (api, response) \<Rightarrow>
                   sendResponse fd 200 ''OK'' response (sv\<lparr>sv_storage := ha_storage api, sv_tm := ha_tm api, sv_lm := ha_lm api\<rparr>))"

definition begin_text :: string where
  "begin_text = ''{'' @ json_quote ''type'' @ '':'' @ json_quote ''begin'' @ ''}''"

definition route :: "hash_orders \<Rightarrow> 's provider_ops \<Rightarrow> int \<Rightarrow> string \<Rightarrow> string \<Rightarrow> string \<Rightarrow> 's http_server \<Rightarrow> 's http_server outcome option" where
  "route ord pv fd meth path body sv =
     (if meth = ''POST'' \<and> path = ''/query'' then Some (handle_api ord pv fd body sv)
      else if meth = ''POST'' \<and> path = ''/begin'' then Some (handle_api ord pv fd begin_text sv)
      else if meth = ''POST'' \<and> path = ''/commit'' then Some (handle_api ord pv fd body sv)
      else if meth = ''POST'' \<and> path = ''/rollback'' then Some (handle_api ord pv fd body sv)
      else if meth = ''GET'' \<and> (path = ''/health'' \<or> path = ''/healthz'')
      then Some (sendResponse fd 200 ''OK'' (''{'' @ json_quote ''status'' @ '':'' @ json_quote ''ok'' @ ''}'') sv)
      else if meth = ''GET'' \<and> path = ''/metrics'' then Some (sendResponse fd 200 ''OK'' (metrics_body (sv_stats sv) (sv_engine sv)) sv)
      else if meth = ''GET'' \<and> path = ''/status'' then Some (sendResponse fd 200 ''OK'' (status_body (sv_stats sv)) sv)
      else None)"

definition request_body :: "string \<Rightarrow> string" where
  "request_body req_text = (case find_text (crlf @ crlf) req_text of None \<Rightarrow> [] | Some (_, r) \<Rightarrow> drop 4 r)"

definition onClientRequest ::
  "hash_orders \<Rightarrow> 's provider_ops \<Rightarrow> u64 \<Rightarrow> int \<Rightarrow> string \<Rightarrow> 's http_server \<Rightarrow> 's http_server outcome" where
  "onClientRequest ord pv us fd req_text sv =
     (case (case find_text crlf req_text of None \<Rightarrow> None | Some (line, _) \<Rightarrow> splitMethodPath line) of
        None \<Rightarrow> sendError fd 400 ''Bad Request'' ''invalid req_text line'' sv
      | Some (meth, path) \<Rightarrow>
          (let body = request_body req_text
           in if length body > cf_maxBodySize (sv_cfg sv)
              then sendError fd 413 ''Payload Too Large'' (''req_text body exceeds '' @ show_nat (cf_maxBodySize (sv_cfg sv)) @ '' bytes'') (reject sv)
              else case route ord pv fd meth path body sv of
                     None \<Rightarrow> sendError fd 404 ''Not Found'' (''endpoint not found: '' @ meth @ '' '' @ path) (record_request us 404 sv)
                   | Some (Done sv) \<Rightarrow> Done (record_request us 200 sv)
                   | Some r \<Rightarrow> r))"

section \<open>Events of an I/O thread\<close>

text \<open>
  \<open>run\<close> handles the sockets that \<open>select\<close> reports one after the other; each event below is the body of one of its loops. A new client
  goes to the next thread in turn, or is told that the server is full.
\<close>

definition capacity_text :: string where
  "capacity_text = response_head 503 ''Service Unavailable'' ''application/json'' 30 @ error_body ''server at capacity''"

definition accept_client :: "int \<Rightarrow> 's http_server \<Rightarrow> 's http_server \<times> string option" where
  "accept_client fd sv =
     (case onAccept sv of
        (sv, False) \<Rightarrow> (sv, Some capacity_text)
      | (sv, True) \<Rightarrow>
          (let i = sv_next sv mod length (sv_io sv)
           in (sv\<lparr>sv_next := (sv_next sv + 1) mod 2 ^ 64, sv_io := (sv_io sv)[i := adopt fd (sv_io sv ! i)]\<rparr>, None)))"

text \<open>The connection is moved out of the map while it is worked on, and put back unless it is closed.\<close>

definition put_back :: "nat \<Rightarrow> int \<Rightarrow> Connection \<Rightarrow> 's http_server \<Rightarrow> 's http_server" where
  "put_back i fd c sv =
     (if \<not> cn_closed c then sv\<lparr>sv_io := (sv_io sv)[i := (sv_io sv ! i)(fd \<mapsto> Some c)]\<rparr>
      else releaseConnection (sv\<lparr>sv_io := (sv_io sv)[i := (sv_io sv ! i)(fd := None)]\<rparr>))"

definition process_read ::
  "hash_orders \<Rightarrow> 's provider_ops \<Rightarrow> u64 \<Rightarrow> nat \<Rightarrow> int \<Rightarrow> read_result list \<Rightarrow> 's http_server \<Rightarrow> 's http_server outcome" where
  "process_read ord pv us i fd rs sv =
     (case (sv_io sv ! i) fd of
        None \<Rightarrow> Done sv
      | Some None \<Rightarrow> Crash Undefined
      | Some (Some c) \<Rightarrow>
          (let sv = sv\<lparr>sv_io := (sv_io sv)[i := (sv_io sv ! i)(fd \<mapsto> None)]\<rparr>;
               (c, req) = handleRead rs c
           in case (case req of None \<Rightarrow> Done sv | Some req_text \<Rightarrow> onClientRequest ord pv us fd req_text sv) of
                Done sv \<Rightarrow> Done (put_back i fd c sv)
              | r \<Rightarrow> r))"

text \<open>The connections that \<open>select\<close> watches for writing; \<open>ready\<close> is its answer.\<close>

definition wants_write :: "Connection \<Rightarrow> bool" where
  "wants_write c \<longleftrightarrow> \<not> cn_closed c \<and> cn_write c \<noteq> [] \<and> cn_offset c < length (cn_write c)"

definition process_write :: "bool \<Rightarrow> nat \<Rightarrow> int \<Rightarrow> write_result list \<Rightarrow> 's http_server \<Rightarrow> 's http_server outcome" where
  "process_write ready i fd ws sv =
     (case (sv_io sv ! i) fd of
        None \<Rightarrow> Done sv
      | Some None \<Rightarrow> Crash Undefined
      | Some (Some c) \<Rightarrow>
          Done (put_back i fd (if ready then handleWrite ws c else c) (sv\<lparr>sv_io := (sv_io sv)[i := (sv_io sv ! i)(fd \<mapsto> None)]\<rparr>)))"

definition close_idle :: "nat \<Rightarrow> int \<Rightarrow> 's http_server \<Rightarrow> 's http_server outcome" where
  "close_idle i fd sv =
     (case (sv_io sv ! i) fd of
        None \<Rightarrow> Done sv
      | Some None \<Rightarrow> Crash Undefined
      | Some (Some c) \<Rightarrow> Done (releaseConnection (sv\<lparr>sv_io := (sv_io sv)[i := (sv_io sv ! i)(fd := None)]\<rparr>)))"

end
