(* ===== verification/Http_Server_Laws.thy ===== *)
theory Http_Server_Laws
  imports Http_Server
begin

text \<open>
  Laws of the HTTP server: how responses are framed, what of a request is read, what happens to a complete request, and
  the count of open connections over the events of its I/O threads.
\<close>

section \<open>Searching a text\<close>

lemma find_text_append: "find_text pat s = Some (a, b) \<Longrightarrow> s = a @ b \<and> take (length pat) b = pat"
  by (induction pat s arbitrary: a rule: find_text.induct) (auto split: if_splits)

lemma find_textE:
  assumes "find_text pat s = Some (a, b)"
  obtains r where "b = pat @ r" "s = a @ pat @ r"
  using find_text_append [OF assms] append_take_drop_id [of "length pat" b] by metis

text \<open>The first occurrence does not depend on what follows it.\<close>

lemma find_text_front: "find_text pat s = Some (a, b) \<Longrightarrow> find_text pat (a @ pat) = Some (a, pat)"
proof (induction pat s arbitrary: a rule: find_text.induct)
  case (1 pat)
  then show ?case by (auto split: if_splits)
next
  case (2 pat c cs)
  show ?case
  proof (cases "take (length pat) (c # cs) = pat")
    case True
    then show ?thesis using 2(2) by (cases pat) auto
  next
    case False
    then obtain a' where a': "find_text pat cs = Some (a', b)" "a = c # a'" using 2(2) by auto
    then have "cs = a' @ pat @ drop (length pat) b" using find_text_append [OF a'(1)] by (metis append_take_drop_id)
    then have "take (length pat) ((c # a' @ pat) @ drop (length pat) b) = take (length pat) (c # cs)" by simp
    then have "take (length pat) (c # a' @ pat) = take (length pat) (c # cs)" by (simp only: take_append) simp
    then show ?thesis using False a' 2(1) by simp
  qed
qed

lemma find_text_skip:
  "pat \<noteq> [] \<Longrightarrow> hd pat \<notin> set l \<Longrightarrow> find_text pat (l @ s) = map_option (\<lambda>(a, b). (l @ a, b)) (find_text pat s)"
proof (induction l)
  case (Cons c l)
  have "take (length pat) ((c # l) @ s) \<noteq> pat" using Cons.prems by (cases pat) auto
  then show ?case using Cons by (simp add: option.map_comp comp_def case_prod_beta)
qed (simp add: case_prod_beta option.map_id)

text \<open>A pattern that needs the character \<open>x\<close> is not found in a line without it.\<close>

lemma find_text_line:
  assumes "x \<in> set pat" "x \<notin> set l" "y \<notin> set pat"
  shows "find_text pat (l @ y # s) = map_option (\<lambda>(a, b). (l @ y # a, b)) (find_text pat s)"
  using assms(2)
proof (induction l)
  case Nil
  have "take (length pat) (y # s) \<noteq> pat" using assms(1,3) by (cases pat) auto
  then show ?case by simp
next
  case (Cons c l)
  have "take (length pat) (c # l @ y # s) \<noteq> pat"
  proof
    assume h: "take (length pat) (c # l @ y # s) = pat"
    show False
    proof (cases "length pat \<le> length (c # l)")
      case True
      then have "set pat \<subseteq> set (c # l)" using h by (metis append_Cons append_Nil2 append_take_drop_id diff_is_0_eq' set_append sup.cobounded1 take0 take_append)
      then show False using assms(1) Cons.prems by auto
    next
      case False
      then have "y \<in> set (take (length pat) (c # l @ y # s))" by (cases "length pat") (auto simp: take_Cons')
      then show False using h assms(3) by simp
    qed
  qed
  then show ?case using Cons by (simp add: option.map_comp comp_def case_prod_beta)
qed

section \<open>Framing\<close>

text \<open>What a client makes of a response: the length that the head declares and the bytes after the head.\<close>

definition client_view :: "string \<Rightarrow> (nat \<times> string) option" where
  "client_view resp =
     (case find_text (crlf @ crlf) resp of None \<Rightarrow> None
      | Some (h, r) \<Rightarrow>
          (case find_text ''Content-Length: '' h of None \<Rightarrow> None
           | Some (_, l) \<Rightarrow> Some (read_nat (takeWhile is_digit (drop 16 l)), drop 4 r)))"

definition one_line :: "string \<Rightarrow> bool" where
  "one_line s \<longleftrightarrow> CHR 0x0D \<notin> set s"

lemma show_nat_line: "one_line (show_nat n)" "CHR ''-'' \<notin> set (show_nat n)"
  using show_nat_digits [of n] by (auto simp: one_line_def is_digit_def less_eq_char_def)

text \<open>A line of the head, for the search of the empty line.\<close>

lemma find_blank_line:
  assumes "one_line l" "s \<noteq> []" "hd s \<noteq> CHR 0x0D"
  shows "find_text (crlf @ crlf) (l @ crlf @ s) = map_option (\<lambda>(a, b). (l @ crlf @ a, b)) (find_text (crlf @ crlf) s)"
  using assms find_text_skip [of "crlf @ crlf" l "crlf @ s"]
  by (cases s) (auto simp: crlf_def one_line_def option.map_comp comp_def case_prod_beta)

lemma find_blank_end: "one_line l \<Longrightarrow> find_text (crlf @ crlf) (l @ crlf @ crlf @ s) = Some (l, crlf @ crlf @ s)"
  using find_text_skip [of "crlf @ crlf" l "crlf @ crlf @ s"] by (simp add: crlf_def one_line_def)

lemma head_viewed:
  assumes "one_line reason" "CHR ''-'' \<notin> set reason" "one_line ct" "CHR ''L'' \<notin> set ct"
  shows "client_view (response_head sc reason ct n @ body) = Some (n, body)"
proof -
  let ?l1 = "''HTTP/1.1 '' @ show_nat sc @ '' '' @ reason"
  let ?l2 = "''Content-Type: '' @ ct"
  let ?l3 = "''Content-Length: '' @ show_nat n"
  let ?h = "?l1 @ crlf @ ?l2 @ crlf @ ?l3 @ crlf @ ''Connection: close''"
  have lines: "one_line ?l1" "one_line ?l2" "one_line ?l3" "one_line ''Connection: close''"
    using assms show_nat_line by (auto simp: one_line_def)
  have "find_text (crlf @ crlf) (?h @ crlf @ crlf @ body) = Some (?h, crlf @ crlf @ body)"
    using find_blank_line [OF lines(1)] find_blank_line [OF lines(2)] find_blank_line [OF lines(3)] find_blank_end [OF lines(4)]
    by simp
  moreover have "find_text ''Content-Length: '' ?h = Some (?l1 @ crlf @ ?l2 @ crlf, ?l3 @ crlf @ ''Connection: close'')"
    using find_text_line [of "CHR ''-''" "''Content-Length: ''" "?l1 @ [CHR 0x0D]" "CHR 0x0A" "?l2 @ crlf @ ?l3 @ crlf @ ''Connection: close''"]
      find_text_line [of "CHR ''L''" "''Content-Length: ''" "?l2 @ [CHR 0x0D]" "CHR 0x0A" "?l3 @ crlf @ ''Connection: close''"]
      assms(2,4) show_nat_line(2) by (simp add: crlf_def)
  moreover have "takeWhile is_digit (show_nat n @ crlf @ ''Connection: close'') = show_nat n"
    using show_nat_digits by (simp add: takeWhile_append crlf_def is_digit_def less_eq_char_def)
  ultimately show ?thesis by (simp add: client_view_def response_head_def crlf_def)
qed

text \<open>
  C22. Framing: a client that reads the head of an ordinary response learns exactly the length of the body that follows. In an error response
  the head announces eight bytes more than are sent, so the client waits for bytes that never come.
\<close>

theorem http_framing:
  assumes "one_line reason" "CHR ''-'' \<notin> set reason"
  shows "client_view (renderHttpResponse sc reason body ''application/json'') = Some (length body, body)
    \<and> client_view (renderHttpError sc reason message) = Some (length (error_body message) + 8, error_body message)
    \<and> client_view capacity_text = Some (length (error_body ''server at capacity''), error_body ''server at capacity'')"
  using head_viewed [OF assms, of "''application/json''" sc "length body" body]
    head_viewed [OF assms, of "''application/json''" sc "20 + length message" "error_body message"]
    head_viewed [of "''Service Unavailable''" "''application/json''" 503 30 "error_body ''server at capacity''"]
  by (simp add: renderHttpResponse_def renderHttpError_def capacity_text_def one_line_def error_body_def json_quote_def)

theorem http_framing_witness:
  "client_view (renderHttpError 404 ''Not Found'' ''no'') = Some (22, ''{'' @ json_quote ''error'' @ '':'' @ json_quote ''no'' @ ''}'')
     \<and> length (''{'' @ json_quote ''error'' @ '':'' @ json_quote ''no'' @ ''}'') = 14"
  using http_framing [of "''Not Found''" 404 "[]" "''no''"] by (simp add: one_line_def error_body_def json_quote_def)

section \<open>Bodies of requests\<close>

text \<open>The number is read from the colon of the header on, which is not a number.\<close>

lemma content_length_zero: "content_length h = 0"
proof (cases "find_text ''Content-Length:'' h")
  case (Some p)
  then obtain a b where ab: "find_text ''Content-Length:'' h = Some (a, b)" by (cases p) auto
  then obtain r where "b = ''Content-Length:'' @ r" by (rule find_textE)
  then obtain d where "drop 14 b = CHR '':'' # d" by simp
  moreover have "stoull_front (before_crlf (CHR '':'' # d)) = None"
    by (auto simp: before_crlf_def crlf_def stoull_front_def isspace_def less_eq_char_def after_sign_def sign_char_def is_digit_def split: option.splits)
  ultimately show ?thesis using ab by (simp add: content_length_def)
qed (simp add: content_length_def)

lemma handleRead_head:
  assumes "handleRead rs c0 = (c, Some req_text)" "length (cn_read (fst (read_loop rs c0))) < 2 ^ 64"
  shows "\<exists>h rest. cn_read (fst (read_loop rs c0)) = h @ crlf @ crlf @ rest \<and> req_text = h @ crlf @ crlf
    \<and> find_text (crlf @ crlf) req_text = Some (h, crlf @ crlf) \<and> c = (fst (read_loop rs c0))\<lparr>cn_read := rest\<rparr>"
proof -
  obtain c1 where c1: "read_loop rs c0 = (c1, True)"
    using assms(1) by (auto simp: handleRead_def split: prod.splits bool.splits)
  obtain h r where hr: "find_text (crlf @ crlf) (cn_read c1) = Some (h, r)"
    using assms(1) c1 by (auto simp: handleRead_def split: option.splits)
  obtain rest where r: "r = (crlf @ crlf) @ rest" "cn_read c1 = h @ (crlf @ crlf) @ rest" using hr by (rule find_textE)
  then have "length h + 4 \<le> length (cn_read c1)" by (simp add: crlf_def)
  then have len: "(length h + 4) mod 2 ^ 64 = length h + 4" using assms(2) c1 by simp
  have "take (length h + 4) (cn_read c1) = h @ crlf @ crlf" "drop (length h + 4) (cn_read c1) = rest"
    by (simp_all add: r crlf_def)
  then have "req_text = h @ crlf @ crlf" "c = c1\<lparr>cn_read := rest\<rparr>"
    using assms(1) c1 hr len by (auto simp: handleRead_def content_length_zero Let_def split: if_splits)
  then show ?thesis using c1 r find_text_front [OF hr] by (intro exI [of _ h] exI [of _ rest]) auto
qed

lemma handleRead_complete:
  assumes "read_loop rs c0 = (c, True)" "find_text (crlf @ crlf) (cn_read c) = Some (h, crlf @ crlf @ rest)" "length (cn_read c) < 2 ^ 64"
  shows "handleRead rs c0 = (c\<lparr>cn_read := rest\<rparr>, Some (h @ crlf @ crlf))"
proof -
  have r: "cn_read c = h @ crlf @ crlf @ rest" using find_text_append [OF assms(2)] by simp
  then have "(length h + 4) mod 2 ^ 64 = length h + 4" using assms(3) by (simp add: crlf_def)
  then show ?thesis using assms(1,2) r by (simp add: handleRead_def content_length_zero) (simp add: crlf_def)
qed

text \<open>
  C23. Bodies are lost: whatever \<open>Content-Length\<close> a client announces, the request that is handed on ends with the empty line, so its body is
  empty, and a statement posted to \<open>/query\<close> is answered as malformed JSON; the body stays in the buffer as the start of the next request.
\<close>

theorem http_body_never_read:
  assumes "handleRead rs c0 = (c, Some req_text)" "length (cn_read (fst (read_loop rs c0))) < 2 ^ 64"
  shows "request_body req_text = [] \<and> cn_read (fst (read_loop rs c0)) = req_text @ cn_read c
    \<and> handleRequest ord pv (request_body req_text) (fst (ha_open True True (ha_init st tm lm)))
        = Done (fst (ha_open True True (ha_init st tm lm)), encode_error (db_error ParseError ''invalid request JSON''))"
proof -
  have b: "request_body req_text = []" using handleRead_head [OF assms] by (auto simp: request_body_def crlf_def)
  moreover have "cn_read (fst (read_loop rs c0)) = req_text @ cn_read c" using handleRead_head [OF assms] by auto
  ultimately show ?thesis
    by (simp add: handleRequest_def ha_open_def ha_init_def parseJsonRequest_def parseValue_def skipWhitespace_def reply_error_def)
qed

definition posted_query :: string where
  "posted_query = ''POST /query HTTP/1.1'' @ crlf @ ''Content-Length: 2'' @ crlf @ crlf @ ''{}''"

theorem http_body_never_read_witness:
  "\<exists>c req_text. handleRead [ReadBytes posted_query, ReadAgain] Connection_init = (c, Some req_text)
     \<and> request_body req_text = [] \<and> posted_query = req_text @ cn_read c \<and> cn_read c = ''{}''"
proof -
  let ?h = "''POST /query HTTP/1.1'' @ crlf @ ''Content-Length: 2'' @ crlf @ crlf"
  have r: "handleRead [ReadBytes posted_query, ReadAgain] Connection_init = (Connection_init\<lparr>cn_read := ''{}''\<rparr>, Some ?h)"
    using handleRead_complete [of "[ReadBytes posted_query, ReadAgain]" Connection_init "Connection_init\<lparr>cn_read := posted_query\<rparr>"
        "''POST /query HTTP/1.1'' @ crlf @ ''Content-Length: 2''" "''{}''"]
      find_blank_line [of "''POST /query HTTP/1.1''" "''Content-Length: 2'' @ crlf @ crlf @ ''{}''"] find_blank_end [of "''Content-Length: 2''" "''{}''"]
    by (simp add: Connection_init_def posted_query_def one_line_def) (simp add: crlf_def)
  have l: "length (cn_read (fst (read_loop [ReadBytes posted_query, ReadAgain] Connection_init))) < 2 ^ 64"
    by (simp add: Connection_init_def posted_query_def crlf_def)
  have "request_body ?h = []" by (rule http_body_never_read [OF r l, THEN conjunct1])
  moreover have "posted_query = ?h @ cn_read (Connection_init\<lparr>cn_read := ''{}''\<rparr>)"
    using http_body_never_read [OF r l, THEN conjunct2, THEN conjunct1] by (simp add: Connection_init_def)
  ultimately show ?thesis using r by (intro exI [of _ "Connection_init\<lparr>cn_read := ''{}''\<rparr>"] exI [of _ ?h]) simp
qed

section \<open>Complete requests\<close>

text \<open>The entry of a connection whose pointer is moved away stops every write to it.\<close>

definition moved_away :: "int \<Rightarrow> 's http_server \<Rightarrow> bool" where
  "moved_away fd sv \<longleftrightarrow> (\<exists>m \<in> set (sv_io sv). m fd = Some None)"

lemma write_all_null: "m \<in> set ms \<Longrightarrow> m fd = Some None \<Longrightarrow> write_all fd data ms = Inl Undefined"
  by (induction ms) (auto simp: writeTo_def rbind_def split: option.splits sum.splits)

lemma send_text_null: "moved_away fd sv \<Longrightarrow> send_text fd data sv = Crash Undefined"
  by (auto simp: moved_away_def send_text_def write_all_null)

lemma moved_away_simps [simp]:
  "moved_away fd (reject sv) = moved_away fd sv"
  "moved_away fd (record_request us sc sv) = moved_away fd sv"
  "moved_away fd (sv\<lparr>sv_storage := s, sv_tm := tm, sv_lm := lm\<rparr>) = moved_away fd sv"
  by (simp_all add: moved_away_def reject_def record_request_def Let_def)

lemma handle_api_null: "moved_away fd sv \<Longrightarrow> handle_api ord pv fd body sv \<noteq> Done sv'"
  by (auto simp: handle_api_def sendResponse_def send_text_null split: prod.splits outcome.splits)

lemma route_null: "moved_away fd sv \<Longrightarrow> route ord pv fd meth path body sv \<noteq> Some (Done sv')"
  by (simp add: route_def handle_api_null sendResponse_def send_text_null)

lemma request_null: "moved_away fd sv \<Longrightarrow> onClientRequest ord pv us fd req_text sv \<noteq> Done sv'"
  by (auto simp: onClientRequest_def sendError_def send_text_null Let_def route_null split: option.splits outcome.splits)

lemma moved_awayI: "i < length io \<Longrightarrow> moved_away fd (sv\<lparr>sv_io := io[i := (io ! i)(fd \<mapsto> None)]\<rparr>)"
  by (auto simp: moved_away_def intro!: bexI [OF _ set_update_memI])

lemma complete_request_stops:
  assumes "i < length (sv_io sv)" "(sv_io sv ! i) fd = Some (Some c)" "handleRead rs c = (c', Some req_text)"
  shows "process_read ord pv us i fd rs sv \<noteq> Done sv'"
  using assms request_null [OF moved_awayI [OF assms(1), of fd sv], of ord pv us req_text]
  by (auto simp: process_read_def split: outcome.splits)

text \<open>
  C24. No complete request is answered: the connection is moved out of the map of its I/O thread while it is read, so the handler, which runs
  inside that read, follows a null pointer when it writes the response. The event never ends normally, whatever the request says.
\<close>

theorem http_request_never_answered:
  assumes "i < length (sv_io sv)" "(sv_io sv ! i) fd = Some (Some c)" "handleRead rs c = (c', Some req_text)"
  shows "process_read ord pv us i fd rs sv \<noteq> Done sv'"
  using assms by (rule complete_request_stops)

definition health_text :: string where
  "health_text = ''GET /health HTTP/1.1'' @ crlf @ crlf"

definition one_client :: "IMProvider http_server" where
  "one_client = (fst (server_listen 1 True Config_init (sv_init ip_init (Some ''{}'') tm_init lm_init)))\<lparr>sv_io := [Map.empty(7 \<mapsto> Some Connection_init)]\<rparr>"

theorem http_request_never_answered_witness:
  "handleRead [ReadBytes health_text, ReadAgain] Connection_init = (Connection_init, Some health_text)
     \<and> (\<forall>ord pv us sv'. process_read ord pv us 0 7 [ReadBytes health_text, ReadAgain] one_client \<noteq> Done sv')"
proof -
  have r: "handleRead [ReadBytes health_text, ReadAgain] Connection_init = (Connection_init, Some health_text)"
    using handleRead_complete [of "[ReadBytes health_text, ReadAgain]" Connection_init "Connection_init\<lparr>cn_read := health_text\<rparr>" "''GET /health HTTP/1.1''" "[]"]
      find_blank_end [of "''GET /health HTTP/1.1''" "[]"] by (simp add: Connection_init_def health_text_def one_line_def) (simp add: crlf_def)
  show ?thesis using r http_request_never_answered [OF _ _ r, of 0 one_client 7] by (simp add: one_client_def)
qed

section \<open>Delivery\<close>

text \<open>On threads that hold the connection itself, the response replaces the write buffer of the connection and no other.\<close>

definition delivered :: "int \<Rightarrow> string \<Rightarrow> conns \<Rightarrow> conns" where
  "delivered fd data m = (case m fd of Some (Some c) \<Rightarrow> m(fd \<mapsto> Some (c\<lparr>cn_write := data, cn_offset := 0\<rparr>)) | _ \<Rightarrow> m)"

lemma write_all_live: "\<forall>m \<in> set ms. m fd \<noteq> Some None \<Longrightarrow> write_all fd data ms = Inr (map (delivered fd data) ms)"
  by (induction ms) (auto simp: writeTo_def delivered_def rbind_def split: option.splits)

lemma send_text_live: "\<not> moved_away fd sv \<Longrightarrow> send_text fd data sv = Done (sv\<lparr>sv_io := map (delivered fd data) (sv_io sv)\<rparr>)"
  by (auto simp: send_text_def moved_away_def write_all_live)

lemma handle_api_live:
  assumes "\<not> moved_away fd sv" "sv_engine sv \<noteq> None"
    "handleRequest ord pv body (fst (ha_open True True (ha_init (sv_storage sv) (sv_tm sv) (sv_lm sv)))) = Done (api, response)"
  shows "handle_api ord pv fd body sv = Done (sv\<lparr>sv_storage := ha_storage api, sv_tm := ha_tm api, sv_lm := ha_lm api,
           sv_io := map (delivered fd (renderHttpResponse 200 ''OK'' response ''application/json'')) (sv_io sv)\<rparr>)"
  using assms by (simp add: handle_api_def ha_open_def ha_init_def sendResponse_def send_text_live)


definition begin_request :: string where
  "begin_request = ''POST /query HTTP/1.1'' @ crlf @ crlf @ begin_text"

lemma begin_request_parts:
  "find_text crlf begin_request = Some (''POST /query HTTP/1.1'', crlf @ crlf @ begin_text)" "request_body begin_request = begin_text"
  using find_text_skip [of crlf "''POST /query HTTP/1.1''" "crlf @ crlf @ begin_text"] find_blank_end [of "''POST /query HTTP/1.1''" begin_text]
  by (simp_all add: begin_request_def request_body_def one_line_def crlf_def)

lemma begin_text_read: "parseJsonRequest begin_text = Some (bare_request ''begin'')"
  by code_simp


section \<open>The count of connections\<close>

text \<open>
  The events of the I/O threads. \<open>accept\<close> hands out a descriptor that no open connection has; only connections with bytes to send are
  watched for writing.
\<close>

inductive server_step :: "hash_orders \<Rightarrow> 's provider_ops \<Rightarrow> 's http_server \<Rightarrow> 's http_server \<Rightarrow> bool" for ord pv where
  accept_event: "\<forall>m \<in> set (sv_io sv). m fd = None \<Longrightarrow> accept_client fd sv = (sv', t) \<Longrightarrow> server_step ord pv sv sv'"
| read_event: "i < length (sv_io sv) \<Longrightarrow> process_read ord pv us i fd rs sv = Done sv' \<Longrightarrow> server_step ord pv sv sv'"
| write_event: "i < length (sv_io sv) \<Longrightarrow> (sv_io sv ! i) fd = Some (Some c) \<Longrightarrow> wants_write c \<Longrightarrow>
    process_write ready i fd ws sv = Done sv' \<Longrightarrow> server_step ord pv sv sv'"
| idle_event: "i < length (sv_io sv) \<Longrightarrow> close_idle i fd sv = Done sv' \<Longrightarrow> server_step ord pv sv sv'"

inductive server_run :: "hash_orders \<Rightarrow> 's provider_ops \<Rightarrow> 's http_server \<Rightarrow> 's http_server \<Rightarrow> bool" for ord pv sv0 where
  start: "server_run ord pv sv0 sv0"
| next_event: "server_run ord pv sv0 sv \<Longrightarrow> server_step ord pv sv sv' \<Longrightarrow> server_run ord pv sv0 sv'"

definition open_count :: "conns list \<Rightarrow> nat" where
  "open_count io = sum_list (map (\<lambda>m. card (dom m)) io)"

definition silent :: "conns \<Rightarrow> bool" where
  "silent m \<longleftrightarrow> finite (dom m) \<and> (\<forall>fd e. m fd = Some e \<longrightarrow> (\<exists>c. e = Some c \<and> \<not> cn_closed c \<and> cn_write c = []))"

definition counted :: "'s http_server \<Rightarrow> bool" where
  "counted sv \<longleftrightarrow> sv_io sv \<noteq> [] \<and> (\<forall>m \<in> set (sv_io sv). silent m) \<and> sv_active sv = open_count (sv_io sv)
     \<and> sv_active sv \<le> cf_maxConnections (sv_cfg sv) \<and> connectionsActive (sv_stats sv) = 0"

lemma open_count_update: "i < length io \<Longrightarrow> open_count (io[i := m]) + card (dom (io ! i)) = open_count io + card (dom m)"
proof (induction io arbitrary: i)
  case (Cons a io)
  then show ?case by (cases i) (auto simp: open_count_def)
qed simp

lemma silent_update: "silent m \<Longrightarrow> \<not> cn_closed c \<Longrightarrow> cn_write c = [] \<Longrightarrow> silent (m(fd \<mapsto> Some c))"
  by (auto simp: silent_def)

lemma silent_remove: "silent m \<Longrightarrow> silent (m(fd := None))"
  by (auto simp: silent_def)

lemma counted_put:
  assumes "counted sv" "i < length (sv_io sv)" "(sv_io sv ! i) fd \<noteq> None" "\<not> cn_closed c" "cn_write c = []"
  shows "counted (sv\<lparr>sv_io := (sv_io sv)[i := (sv_io sv ! i)(fd \<mapsto> Some c)]\<rparr>)"
proof -
  have "dom ((sv_io sv ! i)(fd \<mapsto> Some c)) = dom (sv_io sv ! i)" using assms(3) by auto
  then show ?thesis using assms open_count_update [OF assms(2), of "(sv_io sv ! i)(fd \<mapsto> Some c)"]
    by (auto simp: counted_def silent_update dest!: set_update_subset_insert [THEN subsetD])
qed

lemma counted_erase:
  assumes "counted sv" "cf_maxConnections (sv_cfg sv) < 2 ^ 64" "i < length (sv_io sv)" "(sv_io sv ! i) fd \<noteq> None"
  shows "counted (releaseConnection (sv\<lparr>sv_io := (sv_io sv)[i := (sv_io sv ! i)(fd := None)]\<rparr>))"
proof -
  let ?m = "sv_io sv ! i"
  have "silent ?m" using assms(1,3) by (simp add: counted_def)
  then have "card (dom (?m(fd := None))) + 1 = card (dom ?m)"
    using assms(4) card_Suc_Diff1 [of "dom ?m" fd] by (simp add: silent_def domIff)
  then have n: "open_count ((sv_io sv)[i := ?m(fd := None)]) + 1 = open_count (sv_io sv)"
    using open_count_update [OF assms(3), of "?m(fd := None)"] by linarith
  moreover have "sv_active sv < 2 ^ 64" using assms(1,2) by (auto simp: counted_def)
  then have "0 < sv_active sv \<Longrightarrow> (sv_active sv + (2 ^ 64 - 1)) mod 2 ^ 64 = sv_active sv - 1" by (simp add: mod_if)
  ultimately show ?thesis using assms(1,3)
    by (auto simp: counted_def releaseConnection_def silent_remove dest!: set_update_subset_insert [THEN subsetD])
qed

lemma read_loop_write: "read_loop rs c = (c', b) \<Longrightarrow> cn_write c' = cn_write c"
  by (induction rs c arbitrary: c' b rule: read_loop.induct) auto

lemma handleRead_write: "handleRead rs c = (c', r) \<Longrightarrow> cn_write c' = cn_write c"
  by (auto simp: handleRead_def Let_def dest!: read_loop_write split: prod.splits bool.splits option.splits if_splits)

lemma put_back_counted:
  assumes "counted sv" "cf_maxConnections (sv_cfg sv) < 2 ^ 64" "i < length (sv_io sv)" "(sv_io sv ! i) fd \<noteq> None" "cn_write c = []"
  shows "counted (put_back i fd c (sv\<lparr>sv_io := (sv_io sv)[i := (sv_io sv ! i)(fd \<mapsto> None)]\<rparr>))"
  using counted_put [OF assms(1,3,4)] counted_erase [OF assms(1-4)] assms(3,5) by (simp add: put_back_def)

lemma accept_counted:
  assumes "counted sv" "\<forall>m \<in> set (sv_io sv). m fd = None"
  shows "counted (fst (accept_client fd sv))"
proof (cases "sv_active sv < cf_maxConnections (sv_cfg sv)")
  case True
  let ?i = "sv_next sv mod length (sv_io sv)"
  have i: "?i < length (sv_io sv)" using assms(1) by (simp add: counted_def)
  then have m: "silent (sv_io sv ! ?i)" "(sv_io sv ! ?i) fd = None" using assms by (simp_all add: counted_def)
  then have "silent (adopt fd (sv_io sv ! ?i))" "card (dom (adopt fd (sv_io sv ! ?i))) = card (dom (sv_io sv ! ?i)) + 1"
    using silent_update [of "sv_io sv ! ?i" Connection_init fd] by (simp_all add: adopt_def Connection_init_def silent_def domIff)
  then show ?thesis using assms(1) True open_count_update [OF i, of "adopt fd (sv_io sv ! ?i)"]
    by (auto simp: accept_client_def onAccept_def tryAcquireConnection_def counted_def Let_def dest!: set_update_subset_insert [THEN subsetD])
qed (use assms in \<open>simp add: accept_client_def onAccept_def tryAcquireConnection_def\<close>)

lemma silent_entry: "counted sv \<Longrightarrow> i < length (sv_io sv) \<Longrightarrow> (sv_io sv ! i) fd = Some (Some c) \<Longrightarrow> cn_write c = []"
  unfolding counted_def silent_def using nth_mem by fastforce

lemma read_counted:
  assumes "counted sv" "cf_maxConnections (sv_cfg sv) < 2 ^ 64" "i < length (sv_io sv)" "process_read ord pv us i fd rs sv = Done sv'"
  shows "counted sv' \<and> sv_cfg sv' = sv_cfg sv"
proof (cases "(sv_io sv ! i) fd")
  case None
  then show ?thesis using assms by (simp add: process_read_def)
next
  case (Some e)
  then obtain c where c: "(sv_io sv ! i) fd = Some (Some c)" using assms(4) by (cases e) (simp_all add: process_read_def)
  obtain c' r where r: "handleRead rs c = (c', r)" by force
  then have "r = None" using complete_request_stops [OF assms(3) c] assms(4) by (cases r) auto
  then have "sv' = put_back i fd c' (sv\<lparr>sv_io := (sv_io sv)[i := (sv_io sv ! i)(fd \<mapsto> None)]\<rparr>)"
    using assms(4) c r by (simp add: process_read_def)
  then show ?thesis using put_back_counted [OF assms(1-3), of fd c'] c handleRead_write [OF r] silent_entry [OF assms(1,3) c]
    by (simp add: put_back_def releaseConnection_def)
qed

lemma step_counted:
  assumes "server_step ord pv sv sv'" "counted sv" "cf_maxConnections (sv_cfg sv) < 2 ^ 64"
  shows "counted sv' \<and> sv_cfg sv' = sv_cfg sv"
  using assms
proof cases
  case (accept_event fd t)
  then show ?thesis using accept_counted [OF assms(2), of fd]
    by (auto simp: accept_client_def onAccept_def tryAcquireConnection_def Let_def split: if_splits)
next
  case (read_event i us fd rs)
  then show ?thesis using read_counted [OF assms(2,3)] by blast
next
  case (write_event i fd c ready ws)
  then show ?thesis using silent_entry [OF assms(2)] by (simp add: wants_write_def)
next
  case (idle_event i fd)
  show ?thesis
  proof (cases "(sv_io sv ! i) fd")
    case None
    then show ?thesis using idle_event assms(2) by (simp add: close_idle_def)
  next
    case (Some e)
    then show ?thesis using idle_event counted_erase [OF assms(2,3), of i fd] by (cases e) (auto simp: close_idle_def releaseConnection_def)
  qed
qed

text \<open>
  C20. Connections are counted: over any events of the I/O threads, the number of slots in use equals the number of connections held by the
  threads and never exceeds the configured limit. No connection ever has a response to send, and the statistics show none as active.
\<close>

theorem http_connections_counted:
  assumes "server_run ord pv (fst (server_listen hw True cfg (sv_init s engine tm lm))) sv" "cf_maxConnections cfg < 2 ^ 64"
  shows "sv_active sv = open_count (sv_io sv) \<and> sv_active sv \<le> cf_maxConnections cfg \<and> connectionsActive (sv_stats sv) = 0
    \<and> (\<forall>m \<in> set (sv_io sv). \<forall>fd e. m fd = Some e \<longrightarrow> (\<exists>c. e = Some c \<and> \<not> wants_write c))"
proof -
  let ?p = "fst (server_listen hw True cfg (sv_init s engine tm lm))"
  have "counted ?p \<and> cf_maxConnections (sv_cfg ?p) = cf_maxConnections cfg"
    by (simp add: counted_def server_listen_def sv_init_def open_count_def silent_def Stats_init_def Let_def sum_list_replicate)
  with assms(1) have "counted sv \<and> cf_maxConnections (sv_cfg sv) = cf_maxConnections cfg"
    by (induction rule: server_run.induct) (use step_counted assms(2) in metis)+
  then show ?thesis by (fastforce simp: counted_def silent_def wants_write_def)
qed

theorem http_connections_counted_witness:
  "\<exists>sv. server_run (id, id) in_memory_provider (fst (server_listen 1 True Config_init (sv_init ip_init None tm_init lm_init))) sv
     \<and> sv_active sv = 1 \<and> open_count (sv_io sv) = 1"
proof -
  let ?p = "fst (server_listen 1 True Config_init (sv_init ip_init None tm_init lm_init))"
  let ?q = "fst (accept_client 7 ?p)"
  have "server_step (id, id) in_memory_provider ?p ?q"
    by (rule accept_event [where fd = 7 and t = "snd (accept_client 7 ?p)"]) (simp_all add: server_listen_def sv_init_def Config_init_def)
  then have "server_run (id, id) in_memory_provider ?p ?q" by (rule next_event [OF start])
  moreover have "sv_active ?q = 1"
    by (simp add: accept_client_def onAccept_def tryAcquireConnection_def server_listen_def sv_init_def Config_init_def Let_def)
  ultimately show ?thesis using http_connections_counted [of "(id, id)" in_memory_provider 1 Config_init] by (force simp: Config_init_def)
qed

section \<open>Metrics\<close>

lemma field_member: "escapeJson k = k \<Longrightarrow> one_value v \<Longrightarrow> ends_value r \<Longrightarrow>
    skip_json SkipMembers (json_field k v @ r) =
      (case separator (CHR ''}'') r of None \<Rightarrow> None | Some (more_members, r') \<Rightarrow> if more_members then skip_json SkipMembers r' else Some r')"
  using member_key_read [of k "v @ r"] by (simp add: json_field_def json_quote_def skip_json.simps(2) one_valueD)

lemma nat_value: "one_value (show_nat n)"
proof -
  have "hd (show_nat n) \<notin> {CHR '' '', CHR 0x09, CHR 0x0A, CHR 0x0D, CHR '']'', CHR ''}''}"
    using show_nat_head [of n] by (auto simp: is_digit_def less_eq_char_def)
  moreover have "ends_value r \<Longrightarrow> skipValue (show_nat n @ r) = Some r" for r using skip_int [of r "int n"] by (simp add: show_int_def)
  ultimately show ?thesis by (simp add: one_value_def)
qed

text \<open>An object whose fields are given one by one, up to and without its closing brace.\<close>

lemma skip_object: "skipValue (CHR ''{'' # json_field k v @ r) = skip_json SkipMembers (json_field k v @ r)"
  by (simp add: skipValue_def skip_json.simps(1) skipWhitespace_stay json_field_def Let_def)

lemma stats_names:
  "escapeJson ''connections_accepted'' = ''connections_accepted''" "escapeJson ''connections_active'' = ''connections_active''"
  "escapeJson ''requests_served'' = ''requests_served''" "escapeJson ''requests_conflicted'' = ''requests_conflicted''"
  "escapeJson ''requests_rejected'' = ''requests_rejected''" "escapeJson ''total_latency_us'' = ''total_latency_us''"
  "escapeJson ''max_latency_us'' = ''max_latency_us''" "escapeJson ''engine'' = ''engine''"
  "escapeJson ''connections'' = ''connections''" "escapeJson ''requests'' = ''requests''"
  by code_simp+

lemma snapshot_open: "renderStatsSnapshot st = butlast (renderStatsSnapshot st) @ ''}''"
  by (simp add: renderStatsSnapshot_def butlast_append)

lemma snapshot_skipped:
  assumes "ends_value r"
  shows "skipValue (butlast (renderStatsSnapshot st) @ r) =
    (case separator (CHR ''}'') r of None \<Rightarrow> None | Some (more_members, r') \<Rightarrow> if more_members then skip_json SkipMembers r' else Some r')"
  using assms by (simp add: renderStatsSnapshot_def butlast_append skip_object field_member stats_names show_u64_def nat_value)

text \<open>
  Metrics: the server's own statistics and its status are well-formed JSON. With a dispatcher behind the server, the closing brace that is
  cut off for the engine's metrics is never written again, so \<open>/metrics\<close> is never well-formed, whatever value the engine reports.
\<close>

theorem http_metrics_unclosed:
  "skipValue (metrics_body st None) = Some [] \<and> skipValue (status_body st) = Some []
    \<and> (one_value m \<longrightarrow> skipValue (metrics_body st (Some m)) = None)"
proof (intro conjI impI)
  show "skipValue (metrics_body st None) = Some []"
    using snapshot_skipped [of "''}''" st] snapshot_open [of st] by (simp add: metrics_body_def)
  show "skipValue (status_body st) = Some []"
    by (simp add: status_body_def skip_object field_member stats_names show_u64_def nat_value)
  assume "one_value m"
  then have "skip_json SkipMembers (json_field ''engine'' m) = None"
    using field_member [OF stats_names(8), of m "[]"] by (simp add: ends_value_def separator_def skipWhitespace_def)
  then show "skipValue (metrics_body st (Some m)) = None"
    using snapshot_skipped [of "CHR '','' # json_field ''engine'' m" st] by (simp add: metrics_body_def json_field_def json_quote_def)
qed

theorem http_metrics_unclosed_witness: "skipValue (metrics_body Stats_init (Some ''null'')) = None"
proof -
  have "one_value ''null''" using skip_word(1) by (simp add: one_value_def)
  then show ?thesis using http_metrics_unclosed by blast
qed

end
