(* ===== verification/Buddy.thy ===== *)
theory Buddy
  imports Std_Containers
begin

text \<open>
  The page allocator: \<open>BuddyPageAllocator\<close> (\<open>src/src/BuddyPageAllocator.cpp\<close>,
  \<open>storage/BuddyPageAllocator.hpp\<close>) behind the contract \<open>contracts/IPageAllocator.hpp\<close>.
  Free runs of \<open>2 ^ k\<close> pages are parked in one vector per class \<open>k\<close>. Page numbers are 32-bit in
  the code and \<open>nat\<close> here: every sum the allocator forms is bounded by the page count of the
  file plus one run. The mutex makes each method one step. A failed \<open>assert\<close> and an index past
  the end of the bitmap are \<open>Undefined\<close>.

  The abstraction is the multiset \<open>pool\<close> of the pages inside parked runs: splitting and
  coalescing keep it, an allocation removes a block, a free adds one.
\<close>

section \<open>State\<close>

type_synonym PageId = nat

definition MAX_CLASS :: nat where
  "MAX_CLASS = 8"

definition INVALID_PAGE :: nat where
  "INVALID_PAGE = 0xFFFFFFFF"

record FreeRun =
  run_start :: PageId
  slabClass :: nat

record Buddy =
  freeBuddy :: "PageId list list"
  allocated :: "bool list"
  bpageCount :: PageId

definition buddy_init :: Buddy where
  "buddy_init = \<lparr>freeBuddy = replicate (MAX_CLASS + 1) [], allocated = [], bpageCount = 0\<rparr>"

section \<open>Operations\<close>

text \<open>\<open>while ((1 << k) < n) ++k\<close>.\<close>

function class_from :: "nat \<Rightarrow> nat \<Rightarrow> nat" where
  "class_from k n = (if 2 ^ k < n then class_from (k + 1) n else k)"
  by auto
termination by (relation "measure (\<lambda>(k, n). n - 2 ^ k)") (auto intro: diff_less_mono2)

declare class_from.simps [simp del]

definition classFor :: "nat \<Rightarrow> nat" where
  "classFor n = class_from 0 n"

definition buddyOf :: "PageId \<Rightarrow> nat \<Rightarrow> PageId" where
  "buddyOf page k = page XOR push_bit k 1"

definition isPowerOfTwo :: "nat \<Rightarrow> bool" where
  "isPowerOfTwo n \<longleftrightarrow> n > 0 \<and> n AND (n - 1) = 0"

definition ensureBitmapSize :: "PageId \<Rightarrow> Buddy \<Rightarrow> Buddy" where
  "ensureBitmapSize pageCount b =
     (if bpageCount b \<ge> pageCount then b
      else b\<lparr>allocated := take pageCount (allocated b) @ replicate (pageCount - length (allocated b)) True,
             bpageCount := pageCount\<rparr>)"

text \<open>\<open>for (i = 0; i < n; ++i) allocated_[start + i] = v\<close>.\<close>

definition mark_pages :: "PageId \<Rightarrow> nat \<Rightarrow> bool \<Rightarrow> bool list \<Rightarrow> bool list result" where
  "mark_pages start n v al =
     (if n = 0 then Inr al
      else if start + n \<le> length al then Inr (take start al @ replicate n v @ drop (start + n) al)
      else Inl Undefined)"

definition park :: "nat \<Rightarrow> PageId \<Rightarrow> PageId list list \<Rightarrow> PageId list list" where
  "park k start fb = fb[k := fb ! k @ [start]]"

text \<open>The split loop parks the lower half and descends into the upper one.\<close>

fun split_down :: "nat \<Rightarrow> nat \<Rightarrow> PageId \<Rightarrow> PageId list list \<Rightarrow> PageId list list \<times> PageId" where
  "split_down target k start fb =
     (if k > target then split_down target (k - 1) (start + 2 ^ (k - 1)) (park (k - 1) start fb)
      else (fb, start))"

declare split_down.simps [simp del]

text \<open>
  \<open>allocatePages\<close> up to the call of \<open>extendFile\<close>: \<open>Some start\<close> is a run of the pool, \<open>None\<close>
  means that the caller's \<open>extendFile(n)\<close> supplies the pages.
\<close>

definition allocate_from_pool :: "nat \<Rightarrow> Buddy \<Rightarrow> (Buddy \<times> PageId option) result" where
  "allocate_from_pool n b =
     (if n = 0 then Inl Undefined
      else case find (\<lambda>k. freeBuddy b ! k \<noteq> []) [classFor n..<MAX_CLASS + 1] of
             None \<Rightarrow> Inr (b, None)
           | Some k \<Rightarrow>
               (let ss = freeBuddy b ! k;
                    (fb, start) = split_down (classFor n) k (last ss) ((freeBuddy b)[k := butlast ss])
                in rbind (mark_pages start n True (allocated b))
                     (\<lambda>al. Inr (b\<lparr>freeBuddy := fb, allocated := al\<rparr>, Some start))))"

function coalesce :: "nat \<Rightarrow> PageId \<Rightarrow> PageId list list \<Rightarrow> PageId list list" where
  "coalesce k cur fb =
     (if k < MAX_CLASS \<and> buddyOf cur k \<in> set (fb ! k)
      then let bud = buddyOf cur k; ss = remove1 bud (fb ! k)
           in if cur \<notin> set ss then fb[k := ss]
              else let low = (if bud < cur then bud else cur)
                   in coalesce (k + 1) low (park (k + 1) low (fb[k := remove1 cur ss]))
      else fb)"
  by auto
termination by (relation "measure (\<lambda>(k, cur, fb). MAX_CLASS - k)") auto

declare coalesce.simps [simp del]

definition buddy_freePages :: "PageId \<Rightarrow> nat \<Rightarrow> Buddy \<Rightarrow> Buddy result" where
  "buddy_freePages start n b =
     (if n = 0 \<or> start \<ge> bpageCount b \<or> start + n > bpageCount b \<or> classFor n > MAX_CLASS then Inl Undefined
      else rbind (mark_pages start n False (allocated b))
             (\<lambda>al. Inr (b\<lparr>allocated := al, freeBuddy := coalesce (classFor n) start (park (classFor n) start (freeBuddy b))\<rparr>)))"

definition freePageCount :: "Buddy \<Rightarrow> nat" where
  "freePageCount b = sum_list (map (\<lambda>k. length (freeBuddy b ! k) * 2 ^ k) [0..<MAX_CLASS + 1])"

definition buddy_freeRunCount :: "Buddy \<Rightarrow> nat" where
  "buddy_freeRunCount b = sum_list (map (\<lambda>k. length (freeBuddy b ! k)) [0..<MAX_CLASS + 1])"

definition onFileExtended :: "PageId \<Rightarrow> nat \<Rightarrow> Buddy \<Rightarrow> Buddy result" where
  "onFileExtended startPageId n b =
     (let b = ensureBitmapSize (startPageId + n) b
      in rbind (mark_pages startPageId n True (allocated b)) (\<lambda>al. Inr (b\<lparr>allocated := al\<rparr>)))"

definition saveFreeRuns :: "Buddy \<Rightarrow> FreeRun list" where
  "saveFreeRuns b =
     concat (map (\<lambda>k. map (\<lambda>s. \<lparr>run_start = s, slabClass = k\<rparr>) (freeBuddy b ! k)) [0..<MAX_CLASS + 1])"

text \<open>One run of a snapshot: bounds check, clamp to the file, overlap guard.\<close>

definition load_run :: "PageId \<Rightarrow> FreeRun \<Rightarrow> Buddy \<Rightarrow> Buddy result" where
  "load_run pageCount r b =
     (let start = run_start r; k = slabClass r;
          len = (if start + 2 ^ k > pageCount then pageCount - start else 2 ^ k)
      in if k > MAX_CLASS \<or> start = 0 \<or> start \<ge> pageCount then Inr b
         else if start + len > length (allocated b) then Inl Undefined
         else if \<exists>j \<in> set [0..<len]. \<not> allocated b ! (start + j) then Inr b
         else rbind (mark_pages start len False (allocated b))
                (\<lambda>al. Inr (b\<lparr>allocated := al, freeBuddy := park k start (freeBuddy b)\<rparr>)))"

fun load_runs :: "PageId \<Rightarrow> FreeRun list \<Rightarrow> Buddy \<Rightarrow> Buddy result" where
  "load_runs pageCount [] b = Inr b"
| "load_runs pageCount (r # rs) b = rbind (load_run pageCount r b) (load_runs pageCount rs)"

definition loadFreeRuns :: "FreeRun list \<Rightarrow> PageId \<Rightarrow> Buddy \<Rightarrow> Buddy result" where
  "loadFreeRuns rs pageCount b =
     load_runs pageCount rs (ensureBitmapSize pageCount (b\<lparr>freeBuddy := replicate (MAX_CLASS + 1) []\<rparr>))"

definition maxObservedClass :: "Buddy \<Rightarrow> nat" where
  "maxObservedClass b =
     (case find (\<lambda>k. freeBuddy b ! k \<noteq> []) (rev [1..<MAX_CLASS + 1]) of Some k \<Rightarrow> k | None \<Rightarrow> 0)"

definition serializeHeader :: "Buddy \<Rightarrow> bytes" where
  "serializeHeader b =
     replicate 8 0 @ le_bytes 2 (of_nat (maxObservedClass b) :: u16)
       @ le_bytes 2 (of_nat (min (buddy_freeRunCount b) 65535) :: u16) @ replicate 4 0"

definition buddy_loadHeader :: "bytes \<Rightarrow> PageId \<Rightarrow> Buddy \<Rightarrow> Buddy" where
  "buddy_loadHeader hdr pageCount b = ensureBitmapSize pageCount b"

section \<open>The pool of free pages\<close>

definition run_pages :: "nat \<Rightarrow> PageId \<Rightarrow> PageId multiset" where
  "run_pages k s = mset [s..<s + 2 ^ k]"

definition class_pages :: "nat \<Rightarrow> PageId list \<Rightarrow> PageId multiset" where
  "class_pages k ss = sum_mset (image_mset (run_pages k) (mset ss))"

definition pool :: "PageId list list \<Rightarrow> PageId multiset" where
  "pool fb = (\<Sum>k<length fb. class_pages k (fb ! k))"

lemma class_pages_simps [simp]:
  "class_pages k [] = {#}"
  "class_pages k (s # ss) = run_pages k s + class_pages k ss"
  "class_pages k (ss @ ts) = class_pages k ss + class_pages k ts"
  by (simp_all add: class_pages_def)

lemma class_pages_remove1: "s \<in> set ss \<Longrightarrow> class_pages k ss = run_pages k s + class_pages k (remove1 s ss)"
  by (induction ss) (auto simp: ac_simps)

lemma size_class_pages: "size (class_pages k ss) = length ss * 2 ^ k"
  by (induction ss) (auto simp: run_pages_def)

lemma pool_update:
  assumes "k < length fb"
  shows "pool (fb[k := ss]) + class_pages k (fb ! k) = pool fb + class_pages k ss"
proof -
  have "pool gb = class_pages k (gb ! k) + (\<Sum>j\<in>{..<length gb} - {k}. class_pages j (gb ! j))"
    if "k < length gb" for gb
    using that unfolding pool_def by (subst sum.remove [of _ k]) auto
  note split = this [of fb] this [of "fb[k := ss]"]
  have "(\<Sum>j\<in>{..<length fb} - {k}. class_pages j (fb[k := ss] ! j)) = (\<Sum>j\<in>{..<length fb} - {k}. class_pages j (fb ! j))"
    by (rule sum.cong) auto
  with split assms show ?thesis by (simp add: ac_simps)
qed

lemma pool_park: "k < length fb \<Longrightarrow> pool (park k s fb) = pool fb + run_pages k s"
  using pool_update [of k fb "fb ! k @ [s]"] by (simp add: park_def)

lemma pool_remove:
  "k < length fb \<Longrightarrow> s \<in> set (fb ! k) \<Longrightarrow> pool fb = pool (fb[k := remove1 s (fb ! k)]) + run_pages k s"
  using pool_update [of k fb "remove1 s (fb ! k)"] class_pages_remove1 [of s "fb ! k" k]
  by (simp add: add.assoc [symmetric] del: union_assoc)

lemma length_park [simp]: "length (park k s fb) = length fb"
  by (simp add: park_def)

lemma run_pages_halves: "run_pages (Suc k) s = run_pages k s + run_pages k (s + 2 ^ k)"
proof -
  have "[s..<s + 2 ^ Suc k] = [s..<s + 2 ^ k] @ [s + 2 ^ k..<s + 2 ^ k + 2 ^ k]"
    using upt_add_eq_append [of s "s + 2 ^ k" "2 ^ k"] by (simp add: mult_2 add.assoc)
  then show ?thesis by (simp only: run_pages_def mset_append)
qed

text \<open>The buddy of a run is the adjacent run on the side that the bit decides.\<close>

lemma buddyOf_adjacent: "buddyOf s k = s + 2 ^ k \<or> buddyOf s k + 2 ^ k = s"
proof -
  have eq: "buddyOf s k = flip_bit k s" by (simp add: buddyOf_def flip_bit_eq_xor)
  show ?thesis
  proof (cases "bit s k")
    case True
    then have "set_bit k (unset_bit k s) = s" by (auto intro!: bit_eqI simp: bit_simps)
    then have "unset_bit k s + 2 ^ k = s" by (simp add: set_bit_eq bit_simps)
    with True show ?thesis by (simp add: eq flip_bit_eq_if)
  next
    case False
    then show ?thesis by (simp add: eq flip_bit_eq_if set_bit_eq)
  qed
qed


lemma pool_coalesce:
  "length fb = MAX_CLASS + 1 \<Longrightarrow> k \<le> MAX_CLASS \<Longrightarrow> cur \<in> set (fb ! k) \<Longrightarrow>
    pool (coalesce k cur fb) = pool fb \<and> length (coalesce k cur fb) = length fb"
proof (induction k cur fb rule: coalesce.induct)
  case (1 k cur fb)
  let ?bud = "buddyOf cur k" and ?ss = "remove1 (buddyOf cur k) (fb ! k)"
  show ?case
  proof (cases "k < MAX_CLASS \<and> ?bud \<in> set (fb ! k)")
    case False
    then show ?thesis by (subst (1 2) coalesce.simps) auto
  next
    case True
    let ?low = "if ?bud < cur then ?bud else cur"
    let ?rest = "fb[k := remove1 cur ?ss]"
    have ne: "?bud \<noteq> cur" using buddyOf_adjacent [of cur k] by auto
    then have cur: "cur \<in> set ?ss" using 1(4) by (simp add: in_set_remove1)
    have "pool fb = pool (fb[k := ?ss]) + run_pages k ?bud"
      using pool_remove [of k fb ?bud] True 1(2) by simp
    also have "pool (fb[k := ?ss]) = pool ?rest + run_pages k cur"
      using pool_remove [of k "fb[k := ?ss]" cur] True 1(2) cur by simp
    also have "pool ?rest + run_pages k cur + run_pages k ?bud = pool ?rest + run_pages (Suc k) ?low"
      using buddyOf_adjacent [of cur k]
    proof
      assume "?bud = cur + 2 ^ k"
      then show ?thesis by (simp add: run_pages_halves ac_simps)
    next
      assume bud: "?bud + 2 ^ k = cur"
      then have "?low = ?bud" by (metis less_add_same_cancel1 zero_less_numeral zero_less_power)
      then show ?thesis using bud by (simp add: run_pages_halves ac_simps)
    qed
    also have "\<dots> = pool (park (k + 1) ?low ?rest)"
      using pool_park [of "k + 1" ?rest ?low] True 1(2) by simp
    finally have pool: "pool fb = pool (park (k + 1) ?low ?rest)" .
    have "coalesce k cur fb = coalesce (k + 1) ?low (park (k + 1) ?low ?rest)"
      using True cur by (subst coalesce.simps) (simp add: Let_def)
    moreover have "?low \<in> set (park (k + 1) ?low ?rest ! (k + 1))"
      using True 1(2) by (simp add: park_def)
    ultimately show ?thesis using 1(1) [OF True refl refl _ refl] True 1(2) cur pool by simp
  qed
qed

lemma pool_split_down:
  "target \<le> k \<Longrightarrow> k \<le> length fb \<Longrightarrow> split_down target k start fb = (fb', s) \<Longrightarrow>
    pool fb' + run_pages target s = pool fb + run_pages k start \<and> length fb' = length fb
      \<and> start \<le> s \<and> s + 2 ^ target = start + 2 ^ k"
proof (induction target k start fb rule: split_down.induct)
  case (1 target k start fb)
  show ?case
  proof (cases "k > target")
    case True
    then obtain j where k: "k = Suc j" by (cases k) auto
    have step: "split_down target j (start + 2 ^ j) (park j start fb) = (fb', s)"
      using 1(4) True k by (simp add: split_down.simps [of target "Suc j"])
    have "pool (park j start fb) = pool fb + run_pages j start"
      using pool_park [of j fb start] 1(3) k by simp
    with 1(1) [OF True] step k True 1(3) show ?thesis
      by (auto simp: run_pages_halves ac_simps)
  next
    case False
    then show ?thesis using 1(2-4) by (simp add: split_down.simps [of k k])
  qed
qed

section \<open>Classes\<close>

lemma class_from_bounds:
  "n \<le> 2 ^ class_from k n \<and> k \<le> class_from k n \<and> (class_from k n = k \<or> 2 ^ class_from k n < 2 * n)"
proof (induction k n rule: class_from.induct)
  case (1 k n)
  show ?case
  proof (cases "2 ^ k < n")
    case True
    then have "class_from k n = class_from (k + 1) n" by (subst class_from.simps) simp
    with 1 True show ?thesis by auto
  next
    case False
    then show ?thesis by (subst (1 2 3 4) class_from.simps) simp
  qed
qed

lemma classFor_bounds: "n > 0 \<Longrightarrow> n \<le> 2 ^ classFor n" "n > 0 \<Longrightarrow> 2 ^ classFor n < 2 * n"
  using class_from_bounds [of n 0] by (auto simp: classFor_def)

lemma classFor_pow2: "classFor (2 ^ k) = k"
proof -
  let ?c = "classFor (2 ^ k)"
  have "2 ^ k \<le> (2::nat) ^ ?c" "(2::nat) ^ ?c < 2 ^ Suc k" using classFor_bounds [of "2 ^ k"] by auto
  then have "k \<le> ?c" "?c < Suc k" by (meson one_less_numeral_iff power_le_imp_le_exp power_less_imp_less_exp semiring_norm(76))+
  then show ?thesis by simp
qed

section \<open>Invariant\<close>

text \<open>
  No page is in two parked runs; pages of the pool exist, are not page 0 and are not marked allocated.
\<close>

definition buddy_ok :: "Buddy \<Rightarrow> bool" where
  "buddy_ok b \<longleftrightarrow> length (freeBuddy b) = MAX_CLASS + 1 \<and> length (allocated b) = bpageCount b
     \<and> (\<forall>p. count (pool (freeBuddy b)) p \<le> 1)
     \<and> (\<forall>p \<in># pool (freeBuddy b). 1 \<le> p \<and> p < bpageCount b \<and> \<not> allocated b ! p)"

lemma pool_empty [simp]: "pool (replicate n []) = {#}"
  by (simp add: pool_def)

lemma buddy_ok_init: "buddy_ok buddy_init"
  by (simp add: buddy_ok_def buddy_init_def del: replicate_Suc)

lemma mark_pages_Inr:
  "start + n \<le> length al \<Longrightarrow> n > 0 \<Longrightarrow>
     mark_pages start n v al = Inr (take start al @ replicate n v @ drop (start + n) al)"
  by (simp add: mark_pages_def)

lemma nth_marked:
  "start + n \<le> length al \<Longrightarrow> p < length al \<Longrightarrow>
     (take start al @ replicate n v @ drop (start + n) al) ! p = (if start \<le> p \<and> p < start + n then v else al ! p)"
  by (auto simp: nth_append)

lemma count_run_pages: "count (run_pages k s) p = (if s \<le> p \<and> p < s + 2 ^ k then 1 else 0)"
  by (simp add: run_pages_def count_mset count_list_eq_length_filter distinct_length_filter flip: count_mset_0_iff)


lemma freePageCount_pool: "length (freeBuddy b) = MAX_CLASS + 1 \<Longrightarrow> freePageCount b = size (pool (freeBuddy b))"
  by (simp add: freePageCount_def pool_def size_class_pages atLeast0LessThan interv_sum_list_conv_sum_set_nat)

lemma in_run_pages [simp]: "p \<in># run_pages k s \<longleftrightarrow> s \<le> p \<and> p < s + 2 ^ k"
  by (simp add: run_pages_def)

lemma find_upt_None: "find P [i..<j] = None \<longleftrightarrow> (\<forall>k. i \<le> k \<and> k < j \<longrightarrow> \<not> P k)"
  by (auto simp: find_None_iff)

lemma find_upt_SomeD: "find P [i..<j] = Some k \<Longrightarrow> i \<le> k \<and> k < j \<and> P k"
  by (auto simp: find_Some_iff)

text \<open>Removing the marked block from the pool, and adding one, keep the invariant.\<close>

lemma buddy_ok_take:
  assumes "buddy_ok b" "pool (freeBuddy b) = pool fb + run_pages k s" "length fb = MAX_CLASS + 1" "0 < n" "n \<le> 2 ^ k"
  defines "al \<equiv> take s (allocated b) @ replicate n True @ drop (s + n) (allocated b)"
  shows "s + n \<le> length (allocated b)" "buddy_ok (b\<lparr>freeBuddy := fb, allocated := al\<rparr>)"
    "\<forall>p. s \<le> p \<and> p < s + n \<longrightarrow> 1 \<le> p \<and> \<not> allocated b ! p \<and> p \<notin># pool fb"
proof -
  have blk: "1 \<le> p \<and> p < bpageCount b \<and> \<not> allocated b ! p \<and> count (pool fb) p = 0" if "s \<le> p" "p < s + 2 ^ k" for p
  proof -
    have "count (pool fb) p + 1 \<le> 1" using assms(1,2) that unfolding buddy_ok_def by (metis count_run_pages count_union)
    moreover have "p \<in># pool (freeBuddy b)" using assms(2) that by simp
    ultimately show ?thesis using assms(1) by (auto simp: buddy_ok_def)
  qed
  have len: "length (allocated b) = bpageCount b" using assms(1) by (simp add: buddy_ok_def)
  have "s \<le> s + n - 1" "s + n - 1 < s + 2 ^ k" using assms(4,5) by auto
  from blk [OF this] len show fits: "s + n \<le> length (allocated b)" by linarith
  show "\<forall>p. s \<le> p \<and> p < s + n \<longrightarrow> 1 \<le> p \<and> \<not> allocated b ! p \<and> p \<notin># pool fb"
    using blk assms(5) by (auto simp: not_in_iff)
  have "\<not> al ! p" if "p \<in># pool fb" for p
  proof -
    have "p \<in># pool (freeBuddy b)" "\<not> (s \<le> p \<and> p < s + n)"
      using that blk [of p] assms(2,5) by (auto simp: not_in_iff [symmetric])
    then show ?thesis using assms(1) fits unfolding al_def by (subst nth_marked) (auto simp: buddy_ok_def)
  qed
  moreover have "count (pool fb) p \<le> 1" for p
    using assms(1,2) unfolding buddy_ok_def by (metis count_union le_add1 le_trans)
  moreover have "length al = bpageCount b" using fits len by (simp add: al_def)
  ultimately show "buddy_ok (b\<lparr>freeBuddy := fb, allocated := al\<rparr>)"
    using assms(1,2,3) by (auto simp: buddy_ok_def)
qed

lemma buddy_ok_give:
  assumes "buddy_ok b" "pool fb = pool (freeBuddy b) + run_pages k s" "length fb = MAX_CLASS + 1"
    "1 \<le> s" "s + 2 ^ k \<le> bpageCount b" "\<forall>p. s \<le> p \<and> p < s + 2 ^ k \<longrightarrow> p \<notin># pool (freeBuddy b)"
  defines "al \<equiv> take s (allocated b) @ replicate (2 ^ k) False @ drop (s + 2 ^ k) (allocated b)"
  shows "buddy_ok (b\<lparr>allocated := al, freeBuddy := fb\<rparr>)"
proof -
  have len: "length (allocated b) = bpageCount b" using assms(1) by (simp add: buddy_ok_def)
  have "count (pool fb) p \<le> 1" for p
    using assms(1,2,6) by (auto simp: buddy_ok_def count_run_pages not_in_iff)
  moreover have "1 \<le> p \<and> p < bpageCount b \<and> \<not> al ! p" if "p \<in># pool fb" for p
  proof (cases "s \<le> p \<and> p < s + 2 ^ k")
    case True
    then show ?thesis using assms(4,5) len unfolding al_def by (subst nth_marked) auto
  next
    case False
    then have "p \<in># pool (freeBuddy b)" using that assms(2) by auto
    with False show ?thesis using assms(1,5) len unfolding al_def by (subst nth_marked) (auto simp: buddy_ok_def)
  qed
  moreover have "length al = bpageCount b" using assms(5) len by (simp add: al_def)
  ultimately show ?thesis using assms(3) by (simp add: buddy_ok_def)
qed

lemma buddy_allocation_pool:
  assumes "buddy_ok b" "0 < n"
  shows "case allocate_from_pool n b of
      Inl e \<Rightarrow> False
    | Inr (b', None) \<Rightarrow> b' = b \<and> (\<forall>k. classFor n \<le> k \<and> k \<le> MAX_CLASS \<longrightarrow> freeBuddy b ! k = [])
    | Inr (b', Some s) \<Rightarrow> buddy_ok b' \<and> bpageCount b' = bpageCount b \<and> pool (freeBuddy b) = pool (freeBuddy b') + run_pages (classFor n) s
        \<and> (\<forall>p. s \<le> p \<and> p < s + n \<longrightarrow> 1 \<le> p \<and> \<not> allocated b ! p \<and> p \<notin># pool (freeBuddy b'))
        \<and> (\<forall>p < bpageCount b. allocated b' ! p \<longleftrightarrow> allocated b ! p \<or> (s \<le> p \<and> p < s + n))"
proof (cases "find (\<lambda>k. freeBuddy b ! k \<noteq> []) [classFor n..<MAX_CLASS + 1]")
  case None
  then have "allocate_from_pool n b = Inr (b, None)" using assms by (simp add: allocate_from_pool_def del: upt_Suc)
  with None show ?thesis by (auto simp: find_upt_None simp del: upt_Suc)
next
  case (Some k)
  let ?ss = "freeBuddy b ! k"
  obtain fb s where split: "split_down (classFor n) k (last ?ss) ((freeBuddy b)[k := butlast ?ss]) = (fb, s)"
    by fastforce
  have k: "classFor n \<le> k" "k < MAX_CLASS + 1" "?ss \<noteq> []" using find_upt_SomeD [OF Some] by auto
  have len: "length (freeBuddy b) = MAX_CLASS + 1" "length (allocated b) = bpageCount b"
    using assms(1) by (auto simp: buddy_ok_def)
  have "class_pages k ?ss = class_pages k (butlast ?ss) + run_pages k (last ?ss)"
    using k(3) by (metis append_butlast_last_id class_pages_simps add.right_neutral)
  then have "pool (freeBuddy b) = pool ((freeBuddy b)[k := butlast ?ss]) + run_pages k (last ?ss)"
    using pool_update [of k "freeBuddy b" "butlast ?ss"] k len by (simp add: add.assoc [symmetric] del: union_assoc)
  with pool_split_down [OF k(1) _ split] k(2) len
  have pool: "pool (freeBuddy b) = pool fb + run_pages (classFor n) s" "length fb = MAX_CLASS + 1" by auto
  note taken = buddy_ok_take [OF assms(1) pool assms(2) classFor_bounds(1) [OF assms(2)]]
  have "allocate_from_pool n b = Inr (b\<lparr>freeBuddy := fb, allocated :=
      take s (allocated b) @ replicate n True @ drop (s + n) (allocated b)\<rparr>, Some s)"
    using Some split assms(2) taken(1) by (simp add: allocate_from_pool_def Let_def mark_pages_Inr del: upt_Suc)
  with taken pool show ?thesis using nth_marked [OF taken(1)] len by auto
qed

section \<open>Properties\<close>

text \<open>
  C34. Allocation from the pool: a request for \<open>n\<close> pages never fails in the allocator; the block it
  returns was free, exists, excludes page 0 and is marked allocated; exactly a run of the size class
  leaves the pool, so no page of the block can be handed out again before it is freed; the marks of
  all other pages stay. The file is extended only when no run of the class or above is parked.
\<close>
theorem buddy_allocation:
  assumes "buddy_ok b" "0 < n"
  shows "case allocate_from_pool n b of
      Inl e \<Rightarrow> False
    | Inr (b', None) \<Rightarrow> b' = b \<and> (\<forall>k. classFor n \<le> k \<and> k \<le> MAX_CLASS \<longrightarrow> freeBuddy b ! k = [])
    | Inr (b', Some s) \<Rightarrow> buddy_ok b' \<and> pool (freeBuddy b) = pool (freeBuddy b') + run_pages (classFor n) s
        \<and> (\<forall>p. s \<le> p \<and> p < s + n \<longrightarrow> 1 \<le> p \<and> \<not> allocated b ! p \<and> p \<notin># pool (freeBuddy b'))
        \<and> (\<forall>p < bpageCount b. allocated b' ! p \<longleftrightarrow> allocated b ! p \<or> (s \<le> p \<and> p < s + n))"
  using buddy_allocation_pool [OF assms] by (auto split: sum.splits prod.splits option.splits)

text \<open>
  C35. Freeing a run of a power of two of pages that are not in the pool succeeds, keeps the
  invariant and adds exactly those pages to the pool, whatever was coalesced; the page count of the
  pool grows by the length of the run.
\<close>
theorem buddy_free:
  assumes "buddy_ok b" "k \<le> MAX_CLASS" "1 \<le> s" "s + 2 ^ k \<le> bpageCount b"
    and "\<forall>p. s \<le> p \<and> p < s + 2 ^ k \<longrightarrow> p \<notin># pool (freeBuddy b)"
  shows "\<exists>b'. buddy_freePages s (2 ^ k) b = Inr b' \<and> buddy_ok b'
    \<and> pool (freeBuddy b') = pool (freeBuddy b) + run_pages k s
    \<and> freePageCount b' = freePageCount b + 2 ^ k
    \<and> (\<forall>p < bpageCount b. allocated b' ! p \<longleftrightarrow> allocated b ! p \<and> \<not> (s \<le> p \<and> p < s + 2 ^ k))"
proof -
  let ?fb = "coalesce k s (park k s (freeBuddy b))"
  let ?al = "take s (allocated b) @ replicate (2 ^ k) False @ drop (s + 2 ^ k) (allocated b)"
  let ?b = "b\<lparr>allocated := ?al, freeBuddy := ?fb\<rparr>"
  have len: "length (freeBuddy b) = MAX_CLASS + 1" "length (allocated b) = bpageCount b"
    using assms(1) by (auto simp: buddy_ok_def)
  have "s \<in> set (park k s (freeBuddy b) ! k)" using assms(2) len by (simp add: park_def)
  with pool_coalesce [of "park k s (freeBuddy b)" k s] pool_park [of k "freeBuddy b" s] assms(2) len
  have pool: "pool ?fb = pool (freeBuddy b) + run_pages k s" "length ?fb = MAX_CLASS + 1" by auto
  have ok: "buddy_ok ?b" by (rule buddy_ok_give [OF assms(1) pool assms(3-5)])
  have "s < bpageCount b" using assms(4) by (metis less_add_same_cancel1 less_le_trans zero_less_numeral zero_less_power)
  then have "buddy_freePages s (2 ^ k) b = Inr ?b"
    using assms len by (simp add: buddy_freePages_def classFor_pow2 mark_pages_Inr)
  moreover have "freePageCount ?b = freePageCount b + 2 ^ k"
    using pool len by (simp add: freePageCount_pool run_pages_def)
  moreover have "\<forall>p < bpageCount b. ?al ! p \<longleftrightarrow> allocated b ! p \<and> \<not> (s \<le> p \<and> p < s + 2 ^ k)"
    using nth_marked [of s "2 ^ k" "allocated b" _ False] len assms(4) by simp
  ultimately show ?thesis using ok pool(1) by auto
qed


section \<open>Snapshots\<close>

text \<open>What \<open>loadFreeRuns\<close> keeps of its state while it restores runs into a file of \<open>pc\<close> pages.\<close>

definition loading :: "PageId \<Rightarrow> Buddy \<Rightarrow> bool" where
  "loading pc b \<longleftrightarrow> length (freeBuddy b) = MAX_CLASS + 1 \<and> length (allocated b) = pc \<and> bpageCount b = pc
     \<and> 0 \<notin># pool (freeBuddy b)
     \<and> (\<forall>p < pc. count (pool (freeBuddy b)) p = of_bool (\<not> allocated b ! p))"

lemma loading_start: "loading pc (ensureBitmapSize pc (buddy_init\<lparr>freeBuddy := replicate (MAX_CLASS + 1) []\<rparr>))"
  by (cases "pc = 0") (simp_all add: loading_def ensureBitmapSize_def buddy_init_def del: replicate_Suc)

definition fits :: "PageId \<Rightarrow> FreeRun \<Rightarrow> bool" where
  "fits pc r \<longleftrightarrow> slabClass r \<le> MAX_CLASS \<and> 0 < run_start r \<and> run_start r + 2 ^ slabClass r \<le> pc"

lemma fits_start: "fits pc r \<Longrightarrow> run_start r < pc"
  unfolding fits_def by (metis less_add_same_cancel1 less_le_trans zero_less_numeral zero_less_power)

lemma load_run_loading:
  assumes "loading pc b"
  shows "\<exists>b'. load_run pc r b = Inr b' \<and> loading pc b'
    \<and> (fits pc r \<and> (\<forall>p. run_start r \<le> p \<and> p < run_start r + 2 ^ slabClass r \<longrightarrow> p \<notin># pool (freeBuddy b))
         \<longrightarrow> freeBuddy b' = park (slabClass r) (run_start r) (freeBuddy b))"
proof -
  define s k where "s = run_start r" and "k = slabClass r"
  define len where "len = (if s + 2 ^ k > pc then pc - s else 2 ^ k)"
  let ?al = "take s (allocated b) @ replicate len False @ drop (s + len) (allocated b)"
  let ?b = "b\<lparr>allocated := ?al, freeBuddy := park k s (freeBuddy b)\<rparr>"
  note loading = assms [unfolded loading_def]
  show ?thesis
  proof (cases "k > MAX_CLASS \<or> s = 0 \<or> s \<ge> pc \<or> (\<exists>j < len. \<not> allocated b ! (s + j))")
    case True
    have "load_run pc r b = Inr b"
      using True loading by (auto simp: load_run_def Let_def s_def k_def len_def)
    moreover have "\<not> (fits pc r \<and> (\<forall>p. s \<le> p \<and> p < s + 2 ^ k \<longrightarrow> p \<notin># pool (freeBuddy b)))"
    proof
      assume as: "fits pc r \<and> (\<forall>p. s \<le> p \<and> p < s + 2 ^ k \<longrightarrow> p \<notin># pool (freeBuddy b))"
      then obtain j where "j < len" "\<not> allocated b ! (s + j)" using True fits_start [of pc r] by (fastforce simp: fits_def s_def k_def)
      moreover have "s + j < pc" using calculation(1) as by (auto simp: fits_def s_def k_def len_def split: if_splits)
      ultimately have "s + j \<in># pool (freeBuddy b)" using loading by (simp flip: count_greater_zero_iff)
      moreover have "j < 2 ^ k" using \<open>j < len\<close> by (auto simp: len_def split: if_splits)
      ultimately show False using as by auto
    qed
    ultimately show ?thesis using assms by (auto simp: s_def k_def)
  next
    case False
    then have in_file: "0 < s" "s < pc" "s + len \<le> pc" "0 < len" "k < length (freeBuddy b)" "len \<le> 2 ^ k"
      using loading by (auto simp: len_def)
    have free: "allocated b ! (s + j)" if "j < len" for j using that False by auto
    have "load_run pc r b = Inr ?b"
      using False in_file loading by (auto simp: load_run_def Let_def s_def k_def len_def mark_pages_Inr)
    moreover have "loading pc ?b"
    proof -
      have "count (pool (park k s (freeBuddy b))) p = of_bool (\<not> ?al ! p)" if "p < pc" for p
      proof (cases "s \<le> p \<and> p < s + len")
        case True
        then have "allocated b ! p" using free [of "p - s"] by (metis le_add_diff_inverse less_diff_conv2 add.commute)
        then show ?thesis using True that loading in_file
          by (subst nth_marked) (auto simp: pool_park count_run_pages)
      next
        case False
        then have "\<not> (s \<le> p \<and> p < s + 2 ^ k)" using that by (auto simp: len_def split: if_splits)
        with False show ?thesis using that loading in_file
          by (subst nth_marked) (auto simp: pool_park count_run_pages)
      qed
      then show ?thesis using loading in_file by (simp add: loading_def pool_park)
    qed
    ultimately show ?thesis by (auto simp: s_def k_def)
  qed
qed

lemma load_runs_loading: "loading pc b \<Longrightarrow> \<exists>b'. load_runs pc rs b = Inr b' \<and> loading pc b'"
proof (induction rs arbitrary: b)
  case (Cons r rs)
  from load_run_loading [OF Cons.prems, of r] Cons.IH show ?case by fastforce
qed simp

definition park_all :: "FreeRun list \<Rightarrow> PageId list list \<Rightarrow> PageId list list" where
  "park_all rs fb = fold (\<lambda>r. park (slabClass r) (run_start r)) rs fb"

lemma park_all_simps [simp]:
  "park_all [] fb = fb"
  "park_all (r # rs) fb = park_all rs (park (slabClass r) (run_start r) fb)"
  "park_all (rs @ qs) fb = park_all qs (park_all rs fb)"
  by (simp_all add: park_all_def)

lemma length_park_all [simp]: "length (park_all rs fb) = length fb"
  by (induction rs arbitrary: fb) auto

lemma pool_park_all_mono: "\<forall>r \<in> set rs. slabClass r < length fb \<Longrightarrow> pool fb \<subseteq># pool (park_all rs fb)"
proof (induction rs arbitrary: fb)
  case (Cons r rs)
  have "pool fb \<subseteq># pool (park (slabClass r) (run_start r) fb)" using Cons.prems by (simp add: pool_park)
  also have "\<dots> \<subseteq># pool (park_all rs (park (slabClass r) (run_start r) fb))"
    using Cons.IH [of "park (slabClass r) (run_start r) fb"] Cons.prems by simp
  finally show ?case by simp
qed simp

lemma load_runs_exact:
  assumes "loading pc b" "\<forall>r \<in> set rs. fits pc r" "\<forall>p. count (pool (park_all rs (freeBuddy b))) p \<le> 1"
  shows "\<exists>b'. load_runs pc rs b = Inr b' \<and> loading pc b' \<and> freeBuddy b' = park_all rs (freeBuddy b)"
  using assms
proof (induction rs arbitrary: b)
  case (Cons r rs)
  let ?fb = "park (slabClass r) (run_start r) (freeBuddy b)"
  have k: "slabClass r < length (freeBuddy b)" "\<forall>q \<in> set rs. slabClass q < length ?fb"
    using Cons.prems(1,2) by (auto simp: fits_def loading_def)
  have once: "\<forall>p. count (pool ?fb) p \<le> 1"
  proof
    fix p
    show "count (pool ?fb) p \<le> 1"
      using mset_subset_eq_count [OF pool_park_all_mono [OF k(2)], of p] Cons.prems(3)
      by (metis le_trans park_all_simps(2))
  qed
  have "p \<notin># pool (freeBuddy b)" if "run_start r \<le> p" "p < run_start r + 2 ^ slabClass r" for p
    using that k(1) once [THEN spec, of p] by (simp add: pool_park count_run_pages not_in_iff)
  with load_run_loading [OF Cons.prems(1), of r] Cons.prems(2)
  obtain b' where "load_run pc r b = Inr b'" "loading pc b'" "freeBuddy b' = ?fb" by auto
  with Cons.IH [of b'] Cons.prems show ?case by auto
qed simp


lemma park_all_class: "k < length fb \<Longrightarrow>
    park_all (map (\<lambda>s. \<lparr>run_start = s, slabClass = k\<rparr>) ss) fb = fb[k := fb ! k @ ss]"
  by (induction ss arbitrary: fb) (simp_all add: park_def)

text \<open>Parking the runs of a snapshot in order rebuilds the vectors, LIFO order included.\<close>

lemma park_all_classes: "m \<le> length fb \<Longrightarrow>
    park_all (concat (map (\<lambda>k. map (\<lambda>s. \<lparr>run_start = s, slabClass = k\<rparr>) (fb ! k)) [0..<m])) (replicate (length fb) [])
      = take m fb @ replicate (length fb - m) []"
proof (induction m)
  case (Suc m)
  have "(take m fb @ replicate (length fb - m) [])[m := fb ! m] = take (Suc m) fb @ replicate (length fb - Suc m) []"
    using Suc.prems
    by (simp add: list_update_append take_Suc_conv_app_nth Suc_diff_le [symmetric] list_update_code(2)
        replicate_Suc [symmetric] del: replicate_Suc)
      (metis Suc_diff_Suc Suc_le_lessD list_update_code(2) replicate_Suc)
  with Suc show ?case by (simp add: park_all_class nth_append)
qed simp

lemma park_all_save: "length (freeBuddy b) = MAX_CLASS + 1 \<Longrightarrow>
    park_all (saveFreeRuns b) (replicate (MAX_CLASS + 1) []) = freeBuddy b"
  using park_all_classes [of "MAX_CLASS + 1" "freeBuddy b"] by (simp add: saveFreeRuns_def del: upt_Suc replicate_Suc)

lemma run_in_pool: "k < length fb \<Longrightarrow> s \<in> set (fb ! k) \<Longrightarrow> run_pages k s \<subseteq># pool fb"
  using pool_remove [of k fb s] by (metis mset_subset_eq_add_right)

lemma saved_fits: "buddy_ok b \<Longrightarrow> r \<in> set (saveFreeRuns b) \<Longrightarrow> fits (bpageCount b) r"
proof -
  assume ok: "buddy_ok b" and "r \<in> set (saveFreeRuns b)"
  then obtain k s where r: "r = \<lparr>run_start = s, slabClass = k\<rparr>" "k < MAX_CLASS + 1" "s \<in> set (freeBuddy b ! k)"
    by (auto simp: saveFreeRuns_def)
  then have sub: "run_pages k s \<subseteq># pool (freeBuddy b)" using ok by (simp add: buddy_ok_def run_in_pool)
  have "s \<in># pool (freeBuddy b)" "s + 2 ^ k - 1 \<in># pool (freeBuddy b)"
    using mset_subset_eqD [OF sub, of s] mset_subset_eqD [OF sub, of "s + 2 ^ k - 1"]
    by (simp_all add: Suc_le_eq trans_le_add1 flip: add_diff_assoc)
  then have "1 \<le> s" "s + 2 ^ k - 1 < bpageCount b" using ok by (auto simp: buddy_ok_def)
  then show ?thesis using r(1,2) by (simp add: fits_def)
qed

lemma loading_ok: "loading pc b \<Longrightarrow> \<forall>p \<in># pool (freeBuddy b). p < pc \<Longrightarrow> buddy_ok b"
proof -
  assume load: "loading pc b" and inside: "\<forall>p \<in># pool (freeBuddy b). p < pc"
  have "count (pool (freeBuddy b)) p \<le> 1" for p
    using load inside by (cases "p \<in># pool (freeBuddy b)") (auto simp: loading_def not_in_iff)
  moreover have "1 \<le> p \<and> p < pc \<and> \<not> allocated b ! p" if "p \<in># pool (freeBuddy b)" for p
  proof -
    have "p < pc" using that inside by blast
    moreover have "p \<noteq> 0" using that load by (metis loading_def)
    moreover have "\<not> allocated b ! p"
      using that load calculation(1) by (auto simp: loading_def simp flip: count_greater_zero_iff)
    ultimately show ?thesis by simp
  qed
  ultimately show ?thesis using load by (simp add: loading_def buddy_ok_def)
qed

lemma restore_pool:
  assumes "buddy_ok b" "bpageCount b \<le> pc"
  shows "\<exists>b'. loadFreeRuns (saveFreeRuns b) pc buddy_init = Inr b' \<and> buddy_ok b' \<and> freeBuddy b' = freeBuddy b \<and> loading pc b'"
proof -
  let ?b0 = "ensureBitmapSize pc (buddy_init\<lparr>freeBuddy := replicate (MAX_CLASS + 1) []\<rparr>)"
  have fb0: "freeBuddy ?b0 = replicate (MAX_CLASS + 1) []" by (simp add: ensureBitmapSize_def del: replicate_Suc)
  have saved: "park_all (saveFreeRuns b) (freeBuddy ?b0) = freeBuddy b"
    unfolding fb0 by (rule park_all_save) (use assms in \<open>simp add: buddy_ok_def\<close>)
  have fit: "\<forall>r \<in> set (saveFreeRuns b). fits pc r"
    using saved_fits [OF assms(1)] assms(2) unfolding fits_def by (metis le_trans)
  have "\<exists>b'. load_runs pc (saveFreeRuns b) ?b0 = Inr b' \<and> loading pc b'
      \<and> freeBuddy b' = park_all (saveFreeRuns b) (freeBuddy ?b0)"
    by (rule load_runs_exact [OF loading_start]) (use assms saved fit in \<open>auto simp: buddy_ok_def\<close>)
  then obtain b' where b': "load_runs pc (saveFreeRuns b) ?b0 = Inr b'" "loading pc b'"
    "freeBuddy b' = freeBuddy b" using saved by auto
  moreover have "\<forall>p \<in># pool (freeBuddy b'). p < pc" using b'(3) assms by (fastforce simp: buddy_ok_def)
  ultimately show ?thesis using loading_ok by (auto simp: loadFreeRuns_def simp del: replicate_Suc)
qed

text \<open>
  The free pool survives a snapshot: restoring the saved runs into a fresh allocator gives the
  same runs in the same order in every class, a bitmap in which exactly the pages of the pool are
  free, and the invariant.
\<close>
theorem free_runs_roundtrip:
  assumes "buddy_ok b"
  shows "\<exists>b'. loadFreeRuns (saveFreeRuns b) (bpageCount b) buddy_init = Inr b' \<and> buddy_ok b'
    \<and> freeBuddy b' = freeBuddy b \<and> bpageCount b' = bpageCount b
    \<and> (\<forall>p < bpageCount b. allocated b' ! p \<longleftrightarrow> p \<notin># pool (freeBuddy b))"
  using restore_pool [OF assms order.refl] by (auto simp: loading_def not_in_iff)

text \<open>
  Any snapshot is safe to load: whatever runs a damaged file lists (overlapping, of unknown
  class, on page 0 or past the end), loading succeeds, no page of the file is parked twice, page 0
  is never parked, and the parked pages of the file are exactly those not marked allocated.
\<close>
theorem any_snapshot_loads:
  shows "\<exists>b'. loadFreeRuns rs pc buddy_init = Inr b' \<and> bpageCount b' = pc \<and> length (allocated b') = pc
    \<and> 0 \<notin># pool (freeBuddy b')
    \<and> (\<forall>p < pc. count (pool (freeBuddy b')) p = (if allocated b' ! p then 0 else 1))"
  using load_runs_loading [OF loading_start, of pc rs]
  by (auto simp: loadFreeRuns_def loading_def simp del: replicate_Suc)

section \<open>An overhanging run\<close>

text \<open>
  A run that is not a power of two long is parked at the class above, so it reaches past its last
  page; at the end of the file the next split hands out a page that does not exist.
\<close>

lemma overhang_escapes:
  "rbind (onFileExtended 1 3 buddy_init) (buddy_freePages 1 3) =
     Inr \<lparr>freeBuddy = [[], [], [1], [], [], [], [], [], []], allocated = [True, False, False, False], bpageCount = 4\<rparr>"
  "allocate_from_pool 1 \<lparr>freeBuddy = [[], [], [1], [], [], [], [], [], []],
     allocated = [True, False, False, False], bpageCount = 4\<rparr> = Inl Undefined"
  by code_simp+

section \<open>Witnesses\<close>

definition demo_buddy :: Buddy where
  "demo_buddy = \<lparr>freeBuddy = [[3], [], [4], [], [], [], [], [], []],
     allocated = [True, True, True, False, False, False, False, False], bpageCount = 8\<rparr>"

lemma pool_demo: "pool (freeBuddy demo_buddy) = mset [3, 4, 5, 6, 7]"
  by (simp add: pool_def demo_buddy_def run_pages_def lessThan_nat_numeral lessThan_Suc numeral_eq_Suc)

lemma demo_buddy_ok: "buddy_ok demo_buddy"
proof -
  have "count (pool (freeBuddy demo_buddy)) p \<le> 1" for p by (simp add: pool_demo)
  then show ?thesis by (simp add: buddy_ok_def pool_demo) (simp add: demo_buddy_def MAX_CLASS_def)
qed

theorem buddy_allocation_witness:
  "buddy_ok demo_buddy \<and> (0::nat) < 2 \<and>
   (case allocate_from_pool 2 demo_buddy of Inr (b', Some s) \<Rightarrow> buddy_ok b' | _ \<Rightarrow> False)"
proof -
  have "\<exists>b'. allocate_from_pool 2 demo_buddy = Inr (b', Some 6)" by (rule exI) code_simp
  with buddy_allocation [OF demo_buddy_ok, of 2] show ?thesis by (auto simp: demo_buddy_ok)
qed

theorem buddy_free_witness:
  "buddy_ok demo_buddy \<and> (\<exists>b'. buddy_freePages 2 (2 ^ 0) demo_buddy = Inr b' \<and> buddy_ok b')"
proof -
  have "\<forall>p. 2 \<le> p \<and> p < 2 + 2 ^ 0 \<longrightarrow> p \<notin># pool (freeBuddy demo_buddy)" by (auto simp: pool_demo)
  from buddy_free [OF demo_buddy_ok _ _ _ this] demo_buddy_ok show ?thesis
    by (auto simp: demo_buddy_def)
qed

theorem free_runs_roundtrip_witness:
  "buddy_ok demo_buddy \<and> (\<exists>b'. loadFreeRuns (saveFreeRuns demo_buddy) 8 buddy_init = Inr b' \<and> freeBuddy b' = freeBuddy demo_buddy)"
  using free_runs_roundtrip [OF demo_buddy_ok] demo_buddy_ok by (auto simp: demo_buddy_def)


theorem any_snapshot_loads_witness:
  "\<exists>b'. loadFreeRuns [\<lparr>run_start = 3, slabClass = 1\<rparr>, \<lparr>run_start = 4, slabClass = 0\<rparr>] 6 buddy_init = Inr b'
     \<and> (\<forall>p < 6. count (pool (freeBuddy b')) p = (if allocated b' ! p then 0 else 1))"
  using any_snapshot_loads [of "[\<lparr>run_start = 3, slabClass = 1\<rparr>, \<lparr>run_start = 4, slabClass = 0\<rparr>]" 6] by blast

end
