(* ===== verification/Crc32.thy ===== *)
theory Crc32
  imports Prelude
begin

text \<open>
  The checksum of the pager (\<open>Pager::crc32\<close> in \<open>src/src/Pager.cpp\<close>): the table-driven CRC32 with the
  reflected polynomial, its bit-by-bit reference, and the algebra behind its error detection (every
  step is linear over exclusive or and has no kernel).
\<close>

section \<open>The algorithm\<close>

definition crc_bit :: "u32 \<Rightarrow> u32" where
  "crc_bit c = (if odd c then 0xEDB88320 XOR drop_bit 1 c else drop_bit 1 c)"

definition crc_table :: "u32 list" where
  "crc_table = map (\<lambda>i. (crc_bit ^^ 8) (of_nat i)) [0..<256]"

definition crc_update :: "u32 \<Rightarrow> u8 \<Rightarrow> u32" where
  "crc_update crc b = crc_table ! unat ((crc XOR ucast b) AND 0xFF) XOR drop_bit 8 crc"

definition crc32 :: "bytes \<Rightarrow> u32" where
  "crc32 data = foldl crc_update 0xFFFFFFFF data XOR 0xFFFFFFFF"

text \<open>The reference: eight shift steps per byte, no table.\<close>

definition crc_byte :: "u32 \<Rightarrow> u8 \<Rightarrow> u32" where
  "crc_byte crc b = (crc_bit ^^ 8) (crc XOR ucast b)"

definition crc32_bitwise :: "bytes \<Rightarrow> u32" where
  "crc32_bitwise data = foldl crc_byte 0xFFFFFFFF data XOR 0xFFFFFFFF"

section \<open>Linearity\<close>

lemma xor_0_iff: "(x :: 'a::len word) XOR y = 0 \<longleftrightarrow> x = y"
proof
  assume zero: "x XOR y = 0"
  show "x = y"
  proof (rule bit_word_eqI)
    fix n
    have "\<not> bit (x XOR y) n" by (simp add: zero)
    then show "bit x n = bit y n" by (simp add: bit_simps)
  qed
qed simp

lemma xor_cancel:
  "((x :: 'a::len word) XOR z) XOR (y XOR z) = x XOR y" "((z :: 'a::len word) XOR x) XOR (z XOR y) = x XOR y"
  by (rule bit_word_eqI; auto simp: bit_simps)+

lemma xor_right_cancel: "(x :: 'a::len word) XOR z = y XOR z \<longleftrightarrow> x = y"
  using xor_0_iff [of "x XOR z" "y XOR z"] by (simp add: xor_cancel xor_0_iff)

lemma crc_bit_xor: "crc_bit (x XOR y) = crc_bit x XOR crc_bit y"
  by (rule bit_word_eqI) (auto simp: crc_bit_def bit_simps simp flip: bit_0)

lemma crc_bits_xor: "(crc_bit ^^ n) (x XOR y) = (crc_bit ^^ n) x XOR (crc_bit ^^ n) y"
  by (induction n) (simp_all add: crc_bit_xor)

lemma crc_bits_shift: "\<forall>i < n. \<not> bit z i \<Longrightarrow> (crc_bit ^^ n) z = drop_bit n z"
proof (induction n arbitrary: z)
  case (Suc n)
  have "even z" using Suc.prems [rule_format, of 0] by (simp add: bit_0)
  moreover have "\<forall>i < n. \<not> bit (drop_bit 1 z) i" using Suc.prems by (simp add: bit_simps)
  ultimately show ?case
    using Suc.IH [of "drop_bit 1 z"] by (simp add: crc_bit_def funpow_swap1 [symmetric] funpow_Suc_right drop_bit_drop_bit del: funpow.simps)
qed simp

lemma crc_bit_0 [simp]: "crc_bit z = 0 \<longleftrightarrow> z = 0"
proof
  assume zero: "crc_bit z = 0"
  have "even z"
  proof (rule ccontr)
    assume "odd z"
    then have "bit (crc_bit z) 31 = (bit (0xEDB88320 :: u32) 31 \<noteq> bit z 32)" by (simp add: crc_bit_def bit_simps)
    moreover have "bit (0xEDB88320 :: u32) 31" by code_simp
    ultimately show False using zero by (auto dest: bit_imp_le_length)
  qed
  then have shift: "\<not> bit z 0" "drop_bit 1 z = 0" using zero by (simp_all add: crc_bit_def bit_0)
  show "z = 0"
  proof (rule bit_word_eqI)
    fix n
    have "\<not> bit (drop_bit 1 z) m" for m unfolding shift(2) by simp
    then show "bit z n = bit (0 :: u32) n" using shift(1) by (cases n) (simp_all add: bit_simps)
  qed
qed (simp add: crc_bit_def)

lemma crc_bits_0 [simp]: "(crc_bit ^^ n) z = 0 \<longleftrightarrow> z = 0"
  by (induction n) simp_all

lemma and_0xFF: "(x :: u32) AND 0xFF = take_bit 8 x"
  by (simp add: take_bit_eq_mask mask_eq_exp_minus_1)

lemma crc_table_nth: "crc_table ! unat (take_bit 8 x :: u32) = (crc_bit ^^ 8) (take_bit 8 x)"
proof -
  have "unat (take_bit 8 x) = take_bit 8 (unat x)" by (rule unsigned_take_bit_eq)
  then have "unat (take_bit 8 x) < 256" using take_bit_nat_less_exp [of 8 "unat x"] by simp
  then show ?thesis by (simp add: crc_table_def del: upt_Suc funpow.simps)
qed

lemma crc_update_eq: "crc_update crc b = crc_byte crc b"
proof -
  let ?x = "crc XOR ucast b"
  have "?x = take_bit 8 ?x XOR push_bit 8 (drop_bit 8 ?x)"
  proof (rule bit_word_eqI)
    fix n assume "n < LENGTH(32)"
    then show "bit ?x n = bit (take_bit 8 ?x XOR push_bit 8 (drop_bit 8 ?x)) n"
      by (cases "n < 8") (auto simp: bit_simps)
  qed
  then have "crc_byte crc b = (crc_bit ^^ 8) (take_bit 8 ?x) XOR (crc_bit ^^ 8) (push_bit 8 (drop_bit 8 ?x))"
    unfolding crc_byte_def by (metis crc_bits_xor)
  also have "(crc_bit ^^ 8) (push_bit 8 (drop_bit 8 ?x)) = drop_bit 8 (push_bit 8 (drop_bit 8 ?x))"
    by (rule crc_bits_shift) (simp add: bit_simps)
  also have "\<dots> = drop_bit 8 crc" by (rule bit_word_eqI) (auto simp: bit_simps dest: bit_imp_le_length)
  finally show ?thesis by (simp only: crc_update_def and_0xFF crc_table_nth)
qed

text \<open>Up to four bytes are absorbed as one word, so a burst inside them cannot cancel.\<close>

lemma bit_le_word_high: "8 * length bs \<le> i \<Longrightarrow> \<not> bit (le_word bs :: 'a::len word) i"
proof (induction bs arbitrary: i)
  case (Cons b bs)
  then have "8 * length bs \<le> i - 8" "8 \<le> i" by auto
  with Cons.IH [of "i - 8"] show ?case by (auto simp: bit_simps dest: bit_imp_le_length)
qed simp

lemma bit_le_wordD: "bit (le_word bs :: 'a::len word) i \<Longrightarrow> i < 8 * length bs"
  using bit_le_word_high linorder_not_le by blast

lemma crc_bytes_word: "length bs \<le> 4 \<Longrightarrow> foldl crc_byte crc bs = (crc_bit ^^ (8 * length bs)) (crc XOR le_word bs)"
proof (induction bs arbitrary: crc)
  case (Cons b bs)
  let ?W = "le_word bs :: u32"
  have "(crc_bit ^^ 8) (push_bit 8 ?W) = drop_bit 8 (push_bit 8 ?W)"
    by (rule crc_bits_shift) (simp add: bit_simps)
  also have "\<dots> = ?W"
    by (rule bit_word_eqI) (use Cons.prems in \<open>auto simp: bit_simps dest: bit_le_wordD\<close>)
  finally have shift: "(crc_bit ^^ 8) (push_bit 8 ?W) = ?W" .
  have word: "ucast b OR push_bit 8 ?W = ucast b XOR push_bit 8 ?W"
    by (rule bit_word_eqI) (auto simp: bit_simps dest: bit_imp_le_length)
  have "foldl crc_byte crc (b # bs) = (crc_bit ^^ (8 * length bs)) (crc_byte crc b XOR ?W)"
    using Cons by simp
  also have "crc_byte crc b XOR ?W = (crc_bit ^^ 8) (crc XOR (ucast b XOR push_bit 8 ?W))"
    by (simp only: crc_byte_def crc_bits_xor shift xor.assoc)
  also have "(crc_bit ^^ (8 * length bs)) \<dots> = (crc_bit ^^ (8 * length (b # bs))) (crc XOR le_word (b # bs))"
  proof -
    have "8 * length (b # bs) = 8 * length bs + 8" by simp
    then show ?thesis by (simp only: funpow_add comp_apply le_word.simps word)
  qed
  finally show ?case .
qed simp

lemma crc_bytes_inj: "foldl crc_byte c bs = foldl crc_byte d bs \<Longrightarrow> c = d"
proof (induction bs arbitrary: c d)
  case (Cons b bs)
  then have "crc_byte c b = crc_byte d b" by simp
  then have "(crc_bit ^^ 8) ((c XOR ucast b) XOR (d XOR ucast b)) = 0"
    unfolding crc_bits_xor [of 8 "c XOR ucast b"] xor_0_iff by (simp only: crc_byte_def)
  then show ?case by (simp only: crc_bits_0 xor_cancel xor_0_iff)
qed simp

lemma le_word_inj:
  "length xs = length ys \<Longrightarrow> 8 * length xs \<le> LENGTH('a) \<Longrightarrow>
     (le_word xs :: 'a::len word) = le_word ys \<Longrightarrow> xs = ys"
proof (induction xs ys rule: list_induct2)
  case (Cons x xs y ys)
  have bits: "bit (ucast x OR push_bit 8 (le_word xs) :: 'a word) i = bit (ucast y OR push_bit 8 (le_word ys) :: 'a word) i" for i
    using Cons.prems(2) by simp
  have "x = y"
  proof (rule bit_word_eqI)
    fix i assume "i < LENGTH(8)"
    then show "bit x i = bit y i" using bits [of i] Cons.prems(1) by (auto simp: bit_simps)
  qed
  moreover have "(le_word xs :: 'a word) = le_word ys"
  proof (rule bit_word_eqI)
    fix i assume "i < LENGTH('a)"
    show "bit (le_word xs :: 'a word) i = bit (le_word ys :: 'a word) i"
      using bits [of "i + 8"] Cons.prems(1) Cons.hyps bit_le_word_high [of xs i] bit_le_word_high [of ys i]
      by (cases "i + 8 < LENGTH('a)") (auto simp: bit_simps dest: bit_imp_le_length)
  qed
  ultimately show ?case using Cons by simp
qed simp

lemma crc32_burst:
  assumes "length xs = length ys" "length xs \<le> 4" "xs \<noteq> ys"
  shows "crc32 (p @ xs @ q) \<noteq> crc32 (p @ ys @ q)"
proof
  assume "crc32 (p @ xs @ q) = crc32 (p @ ys @ q)"
  then have "foldl crc_byte 0xFFFFFFFF (p @ xs @ q) = foldl crc_byte 0xFFFFFFFF (p @ ys @ q)"
    by (simp add: crc32_def crc_update_eq [abs_def] xor_right_cancel)
  then have "foldl crc_byte (foldl crc_byte 0xFFFFFFFF p) xs = foldl crc_byte (foldl crc_byte 0xFFFFFFFF p) ys"
    using crc_bytes_inj by (metis foldl_append)
  moreover define c where "c = foldl crc_byte 0xFFFFFFFF p"
  ultimately have "(crc_bit ^^ (8 * length xs)) (c XOR le_word xs) = (crc_bit ^^ (8 * length xs)) (c XOR le_word ys)"
    using assms crc_bytes_word [of xs c] crc_bytes_word [of ys c] by simp
  then have "(crc_bit ^^ (8 * length xs)) ((c XOR le_word xs) XOR (c XOR le_word ys)) = 0"
    unfolding crc_bits_xor [of _ "c XOR le_word xs"] by (simp only: xor_0_iff)
  then have "le_word xs = (le_word ys :: u32)" by (simp only: crc_bits_0 xor_cancel xor_0_iff)
  then show False using le_word_inj [where 'a = 32, of xs ys] assms by simp
qed


text \<open>
  C36. The table-driven checksum equals the bit-by-bit definition of CRC32 on every input.
\<close>
theorem crc32_table_correct: "crc32 data = crc32_bitwise data"
  by (simp add: crc32_def crc32_bitwise_def crc_update_eq [abs_def])

end
