(* ===== verification/Page_File.thy ===== *)
theory Page_File
  imports Buddy Crc32
begin

text \<open>
  The pager (\<open>src/src/Pager.cpp\<close>, \<open>storage/Pager.hpp\<close>): 4 KiB pages in one file, a CRC32 in front
  of every data page, the header of page 0 with the persisted free runs, the migration of version 1
  files, and the calls into the page allocator of theory \<open>Buddy\<close>. The file is the sequence of its
  bytes; reads and writes of an open \<open>fstream\<close> are taken not to fail, and \<open>sync\<close> leaves the bytes as
  they are. A \<open>PageId\<close> is 32-bit: it is \<open>nat\<close> here, converted where it is stored, and the page counter
  wraps at \<open>2 ^ 32\<close>.
\<close>

section \<open>State\<close>

definition PAGE_SIZE :: nat where "PAGE_SIZE = 4096"
definition DATA_PAGE_HEADER_SIZE :: nat where "DATA_PAGE_HEADER_SIZE = 8"
definition DATA_PAGE_PAYLOAD_SIZE :: nat where "DATA_PAGE_PAYLOAD_SIZE = PAGE_SIZE - DATA_PAGE_HEADER_SIZE"
definition MAGIC :: u32 where "MAGIC = 0x41544F4D"
definition VERSION :: nat where "VERSION = 2"
definition kFreeRunsOffset :: nat where "kFreeRunsOffset = 32"
definition kMaxPersistedRuns :: nat where "kMaxPersistedRuns = (PAGE_SIZE - kFreeRunsOffset - 4) div 8"

record Pager =
  pg_magic :: u32
  pg_version :: nat
  pg_pageCount :: PageId
  pg_freeHead :: PageId
  pg_file :: bytes
  pg_alloc :: Buddy
  pg_isOpen :: bool

text \<open>A default-initialised pager on the bytes of a file.\<close>

definition blank_pager :: "bytes \<Rightarrow> Pager" where
  "blank_pager file = \<lparr>pg_magic = 0, pg_version = 0, pg_pageCount = 0, pg_freeHead = INVALID_PAGE,
     pg_file = file, pg_alloc = buddy_init, pg_isOpen = True\<rparr>"

section \<open>Bytes of the file\<close>

text \<open>\<open>read\<close> of a page at an offset (\<open>None\<close> for a short count) and \<open>write\<close>, which fills a gap with zeros.\<close>

definition read_at :: "bytes \<Rightarrow> nat \<Rightarrow> bytes option" where
  "read_at file pos = (let d = take PAGE_SIZE (drop pos file) in if length d = PAGE_SIZE then Some d else None)"

definition write_at :: "nat \<Rightarrow> bytes \<Rightarrow> bytes \<Rightarrow> bytes" where
  "write_at pos data file = take pos file @ replicate (pos - length file) 0 @ data @ drop (pos + length data) file"

definition put_page :: "PageId \<Rightarrow> bytes \<Rightarrow> Pager \<Rightarrow> Pager" where
  "put_page pid data pg = pg\<lparr>pg_file := write_at (pid * PAGE_SIZE) data (pg_file pg)\<rparr>"

definition page_id_bytes :: "PageId \<Rightarrow> bytes" where
  "page_id_bytes pid = le_bytes 4 (of_nat pid :: u32)"

definition u32_at :: "bytes \<Rightarrow> nat \<Rightarrow> nat" where
  "u32_at buf off = unat (le_word (take 4 (drop off buf)) :: u32)"

definition u16_at :: "bytes \<Rightarrow> nat \<Rightarrow> nat" where
  "u16_at buf off = unat (le_word (take 2 (drop off buf)) :: u16)"

definition pad_page :: "bytes \<Rightarrow> bytes" where
  "pad_page bs = bs @ replicate (PAGE_SIZE - length bs) 0"

section \<open>The header page\<close>

definition run_bytes :: "FreeRun \<Rightarrow> bytes" where
  "run_bytes r = page_id_bytes (slabClass r) @ page_id_bytes (run_start r)"

definition persisted_runs :: "Pager \<Rightarrow> FreeRun list" where
  "persisted_runs pg = take kMaxPersistedRuns (saveFreeRuns (pg_alloc pg))"

text \<open>The page that \<open>flushHeader\<close> builds.\<close>

definition header_page :: "Pager \<Rightarrow> bytes" where
  "header_page pg =
     pad_page (le_bytes 4 (pg_magic pg) @ le_bytes 2 (of_nat (pg_version pg) :: u16) @ [0, 0]
       @ page_id_bytes (pg_pageCount pg)
       @ (if pg_version pg = 1 then page_id_bytes (pg_freeHead pg)
          else serializeHeader (pg_alloc pg) @ replicate 4 0
            @ page_id_bytes (length (persisted_runs pg)) @ concat (map run_bytes (persisted_runs pg))))"

text \<open>
  \<open>writeRaw\<close> past the page count appends zero pages and flushes the header; that nested call has
  a page count above 0, so it writes page 0 directly.
\<close>

definition writeRaw :: "PageId \<Rightarrow> bytes \<Rightarrow> Pager \<Rightarrow> Pager" where
  "writeRaw pid data pg =
     put_page pid data
       (if pid \<ge> pg_pageCount pg
        then let pg = pg\<lparr>pg_file := pg_file pg @ replicate ((pid + 1 - pg_pageCount pg) * PAGE_SIZE) 0,
                         pg_pageCount := pid + 1\<rparr>
             in put_page 0 (header_page pg) pg
        else pg)"

definition flushHeader :: "Pager \<Rightarrow> Pager" where
  "flushHeader pg = writeRaw 0 (header_page pg) pg"

definition readRaw :: "Pager \<Rightarrow> PageId \<Rightarrow> bytes option" where
  "readRaw pg pid = (if pid \<ge> pg_pageCount pg then None else read_at (pg_file pg) (pid * PAGE_SIZE))"

section \<open>Data pages\<close>

definition readPage :: "Pager \<Rightarrow> PageId \<Rightarrow> bytes option" where
  "readPage pg pid =
     (if pid = 0 \<or> pid \<ge> pg_pageCount pg then None
      else case readRaw pg pid of
             None \<Rightarrow> None
           | Some raw \<Rightarrow>
               (let payload = drop DATA_PAGE_HEADER_SIZE raw
                in if le_word (take 4 raw) \<noteq> crc32 payload then None else Some payload))"

definition data_page :: "bytes \<Rightarrow> bytes" where
  "data_page data = le_bytes 4 (crc32 data) @ replicate 4 0 @ data"

definition extendFile :: "nat \<Rightarrow> Pager \<Rightarrow> (Pager \<times> PageId) result" where
  "extendFile n pg =
     (if n = 0 then Inr (pg, INVALID_PAGE)
      else let start = pg_pageCount pg;
               pg = flushHeader (pg\<lparr>pg_file := pg_file pg @ replicate (n * PAGE_SIZE) 0,
                                    pg_pageCount := (start + n) mod 2 ^ 32\<rparr>)
           in rbind (onFileExtended start n (pg_alloc pg)) (\<lambda>b. Inr (pg\<lparr>pg_alloc := b\<rparr>, start)))"

text \<open>\<open>BuddyPageAllocator::allocatePages\<close> with the pager's \<open>extendFile\<close> as its callback.\<close>

definition allocate_run :: "nat \<Rightarrow> Pager \<Rightarrow> (Pager \<times> PageId) result" where
  "allocate_run n pg =
     rbind (allocate_from_pool n (pg_alloc pg))
       (\<lambda>(b, r). case r of Some s \<Rightarrow> Inr (pg\<lparr>pg_alloc := b\<rparr>, s) | None \<Rightarrow> extendFile n pg)"

definition allocatePage :: "Pager \<Rightarrow> (Pager \<times> PageId) result" where
  "allocatePage pg = allocate_run 1 pg"

definition freePage :: "PageId \<Rightarrow> Pager \<Rightarrow> Pager result" where
  "freePage pid pg =
     (if pid = 0 \<or> pid \<ge> pg_pageCount pg then Inr pg
      else rbind (buddy_freePages pid 1 (pg_alloc pg)) (\<lambda>b. Inr (pg\<lparr>pg_alloc := b\<rparr>)))"

definition allocatePages :: "nat \<Rightarrow> Pager \<Rightarrow> (Pager \<times> PageId list) result" where
  "allocatePages n pg =
     (if n = 0 then Inr (pg, [])
      else rbind (allocate_run n pg) (\<lambda>(pg, start). Inr (pg, [start..<start + n])))"

definition freePages :: "PageId \<Rightarrow> nat \<Rightarrow> Pager \<Rightarrow> Pager result" where
  "freePages start n pg =
     (if start = 0 \<or> n = 0 \<or> start + n > pg_pageCount pg then Inr pg
      else rbind (buddy_freePages start n (pg_alloc pg)) (\<lambda>b. Inr (pg\<lparr>pg_alloc := b\<rparr>)))"

definition freeListSize :: "Pager \<Rightarrow> nat" where
  "freeListSize pg = freePageCount (pg_alloc pg)"

definition pg_freeRunCount :: "Pager \<Rightarrow> nat" where
  "pg_freeRunCount pg = buddy_freeRunCount (pg_alloc pg)"

definition writePage :: "PageId option \<Rightarrow> bytes \<Rightarrow> Pager \<Rightarrow> (Pager \<times> PageId) result" where
  "writePage pid data pg =
     (if length data \<noteq> DATA_PAGE_PAYLOAD_SIZE
      then Inl (RuntimeError ''Pager::writePage: data size must equal DATA_PAGE_PAYLOAD_SIZE'')
      else rbind (case pid of
                    Some i \<Rightarrow> if i = 0 \<or> i \<ge> pg_pageCount pg
                             then Inl (RuntimeError ''Pager::writePage: invalid page ID'') else Inr (pg, i)
                  | None \<Rightarrow> allocatePage pg)
             (\<lambda>(pg, i). Inr (writeRaw i (data_page data) pg, i)))"

section \<open>Opening and closing\<close>

text \<open>The walk over the free chain of a version 1 file, with its cycle defence.\<close>

function v1_chain :: "Pager \<Rightarrow> PageId \<Rightarrow> PageId list \<Rightarrow> PageId list" where
  "v1_chain pg cur seen =
     (if cur \<noteq> INVALID_PAGE \<and> cur \<noteq> 0 \<and> cur < pg_pageCount pg \<and> cur \<notin> set seen
      then case readRaw pg cur of
             None \<Rightarrow> cur # seen
           | Some buf \<Rightarrow> v1_chain pg (u32_at buf 0) (cur # seen)
      else seen)"
  by auto
termination
proof (relation "measure (\<lambda>(pg, cur, seen). card ({..<pg_pageCount pg} - set seen))")
  fix pg :: Pager and cur seen buf
  assume "cur \<noteq> INVALID_PAGE \<and> cur \<noteq> 0 \<and> cur < pg_pageCount pg \<and> cur \<notin> set seen"
  then have "{..<pg_pageCount pg} - set (cur # seen) \<subset> {..<pg_pageCount pg} - set seen" by auto
  then show "((pg, u32_at buf 0, cur # seen), (pg, cur, seen))
      \<in> measure (\<lambda>(pg, cur, seen). card ({..<pg_pageCount pg} - set seen))"
    by (simp add: psubset_card_mono)
qed simp

declare v1_chain.simps [simp del]

text \<open>The loop that frees the maximal runs of free pages, in ascending order.\<close>

fun free_chain_runs :: "PageId list \<Rightarrow> (PageId \<Rightarrow> bool) \<Rightarrow> PageId \<Rightarrow> nat \<Rightarrow> Buddy \<Rightarrow> Buddy result" where
  "free_chain_runs [] isFree runStart runLen b =
     (if runLen > 0 then buddy_freePages runStart runLen b else Inr b)"
| "free_chain_runs (i # is) isFree runStart runLen b =
     (if isFree i then free_chain_runs is isFree (if runLen = 0 then i else runStart) (runLen + 1) b
      else if runLen > 0
           then rbind (buddy_freePages runStart runLen b) (free_chain_runs is isFree runStart 0)
      else free_chain_runs is isFree runStart runLen b)"

definition migrateV1ToV2 :: "Pager \<Rightarrow> Pager result" where
  "migrateV1ToV2 pg =
     rbind (if pg_pageCount pg > 1 then onFileExtended 1 (pg_pageCount pg - 1) (pg_alloc pg) else Inr (pg_alloc pg))
       (\<lambda>b. let chain = v1_chain pg (pg_freeHead pg) []
            in rbind (free_chain_runs [1..<pg_pageCount pg] (\<lambda>i. i \<in> set chain) INVALID_PAGE 0 b)
                 (\<lambda>b. Inr (flushHeader (pg\<lparr>pg_alloc := b, pg_version := VERSION\<rparr>))))"

definition read_runs :: "bytes \<Rightarrow> nat \<Rightarrow> FreeRun list" where
  "read_runs buf n =
     map (\<lambda>i. \<lparr>run_start = u32_at buf (kFreeRunsOffset + 4 + i * 8 + 4),
               slabClass = u32_at buf (kFreeRunsOffset + 4 + i * 8)\<rparr>) [0..<n]"

text \<open>\<open>loadHeader\<close>: \<open>None\<close> is the result \<open>false\<close>. The magic number is compared but not stored.\<close>

definition loadHeader :: "Pager \<Rightarrow> Pager option result" where
  "loadHeader pg =
     (case read_at (pg_file pg) 0 of
        None \<Rightarrow> Inr None
      | Some buf \<Rightarrow>
          (if le_word (take 4 buf) \<noteq> MAGIC then Inr None
           else let version = u16_at buf 4; pg = pg\<lparr>pg_pageCount := u32_at buf 8\<rparr>
                in if version = 1 then
                     rbind (migrateV1ToV2 (pg\<lparr>pg_freeHead := u32_at buf 12, pg_version := 1\<rparr>)) (\<lambda>pg. Inr (Some pg))
                   else if version = 2 then
                     (let b = buddy_loadHeader (take 16 (drop 12 buf)) (pg_pageCount pg) (pg_alloc pg);
                          n = u32_at buf kFreeRunsOffset
                      in rbind (if n \<le> kMaxPersistedRuns then loadFreeRuns (read_runs buf n) (pg_pageCount pg) b else Inr b)
                           (\<lambda>b. Inr (Some (pg\<lparr>pg_version := 2, pg_freeHead := INVALID_PAGE, pg_alloc := b\<rparr>))))
                   else Inr None))"

definition pager_open :: "bytes \<Rightarrow> Pager result" where
  "pager_open file =
     rbind (loadHeader (blank_pager file))
       (\<lambda>r. case r of
              Some pg \<Rightarrow> Inr pg
            | None \<Rightarrow> Inr (flushHeader ((blank_pager file)
                 \<lparr>pg_magic := MAGIC, pg_version := VERSION, pg_pageCount := 1, pg_freeHead := INVALID_PAGE\<rparr>)))"

definition pager_close :: "Pager \<Rightarrow> Pager" where
  "pager_close pg = (if pg_isOpen pg then (flushHeader pg)\<lparr>pg_isOpen := False\<rparr> else pg)"


section \<open>Reads after writes\<close>

lemmas page_sizes = PAGE_SIZE_def DATA_PAGE_HEADER_SIZE_def DATA_PAGE_PAYLOAD_SIZE_def kFreeRunsOffset_def kMaxPersistedRuns_def

lemma length_write_at: "pos + length data \<le> length file \<Longrightarrow> length (write_at pos data file) = length file"
  by (simp add: write_at_def)

lemma drop_write_at:
  "pos + length data \<le> m \<Longrightarrow> pos + length data \<le> length file \<Longrightarrow> drop m (write_at pos data file) = drop m file"
  by (simp add: write_at_def min_absorb2)

lemma page_end: "i < n \<Longrightarrow> i * PAGE_SIZE + PAGE_SIZE \<le> n * PAGE_SIZE"
  by (metis Suc_leI add.commute mult_Suc mult_le_mono1)

lemma read_write_same:
  "i < n \<Longrightarrow> length file = n * PAGE_SIZE \<Longrightarrow> length data = PAGE_SIZE \<Longrightarrow>
     read_at (write_at (i * PAGE_SIZE) data file) (i * PAGE_SIZE) = Some data"
  using page_end [of i n] by (simp add: read_at_def write_at_def Let_def)

lemma read_write_other:
  assumes "i < n" "length file = n * PAGE_SIZE" "length data = PAGE_SIZE" "j \<noteq> i"
  shows "read_at (write_at (i * PAGE_SIZE) data file) (j * PAGE_SIZE) = read_at file (j * PAGE_SIZE)"
proof (cases "j < i")
  case True
  then show ?thesis using page_end [OF True] page_end [OF assms(1)] assms(2)
    by (simp add: read_at_def write_at_def Let_def drop_take min_absorb2)
next
  case False
  then have "i < j" using assms(4) by simp
  from page_end [OF this] page_end [OF assms(1)] assms(2,3) show ?thesis
    by (simp add: read_at_def Let_def drop_write_at length_write_at)
qed

lemma read_append: "i < n \<Longrightarrow> length file = n * PAGE_SIZE \<Longrightarrow> read_at (file @ zs) (i * PAGE_SIZE) = read_at file (i * PAGE_SIZE)"
  using page_end [of i n] by (simp add: read_at_def Let_def)

lemma read_at_inside: "i < n \<Longrightarrow> length file = n * PAGE_SIZE \<Longrightarrow>
    read_at file (i * PAGE_SIZE) = Some (take PAGE_SIZE (drop (i * PAGE_SIZE) file))"
  using page_end [of i n] by (simp add: read_at_def Let_def)

lemma length_page_id_bytes [simp]: "length (page_id_bytes n) = 4"
  by (simp add: page_id_bytes_def)

lemma length_run_bytes [simp]: "length (run_bytes r) = 8"
  by (simp add: run_bytes_def)

lemma length_runs [simp]: "length (concat (map run_bytes rs)) = 8 * length rs"
  by (induction rs) auto

lemma length_serializeHeader [simp]: "length (serializeHeader b) = 16"
  by (simp add: serializeHeader_def)

lemma length_header_page [simp]: "length (header_page pg) = PAGE_SIZE"
  by (simp add: header_page_def pad_page_def persisted_runs_def page_sizes)

lemma length_data_page [simp]: "length data = DATA_PAGE_PAYLOAD_SIZE \<Longrightarrow> length (data_page data) = PAGE_SIZE"
  by (simp add: data_page_def page_sizes)

section \<open>Invariant\<close>

definition pg_ok :: "Pager \<Rightarrow> bool" where
  "pg_ok pg \<longleftrightarrow> length (pg_file pg) = pg_pageCount pg * PAGE_SIZE \<and> 1 \<le> pg_pageCount pg \<and> pg_pageCount pg < 2 ^ 32
     \<and> buddy_ok (pg_alloc pg) \<and> bpageCount (pg_alloc pg) \<le> pg_pageCount pg \<and> pg_version pg = VERSION"

text \<open>Pages in use: of the file, not page 0 and not in the free pool.\<close>

definition live :: "Pager \<Rightarrow> PageId set" where
  "live pg = {1..<pg_pageCount pg} - set_mset (pool (freeBuddy (pg_alloc pg)))"

lemma flushHeader_ok:
  "1 \<le> pg_pageCount pg \<Longrightarrow> flushHeader pg = pg\<lparr>pg_file := write_at 0 (header_page pg) (pg_file pg)\<rparr>"
  by (simp add: flushHeader_def writeRaw_def put_page_def)

lemma readPage_cong:
  "pg_pageCount pg' = pg_pageCount pg \<Longrightarrow>
   (\<And>i. i \<noteq> 0 \<Longrightarrow> i < pg_pageCount pg \<Longrightarrow> read_at (pg_file pg') (i * PAGE_SIZE) = read_at (pg_file pg) (i * PAGE_SIZE)) \<Longrightarrow>
   readPage pg' i = readPage pg i"
  by (simp add: readPage_def readRaw_def)

lemma flushHeader_keeps:
  assumes "length (pg_file pg) = pg_pageCount pg * PAGE_SIZE" "1 \<le> pg_pageCount pg"
  shows "length (pg_file (flushHeader pg)) = length (pg_file pg)" "readPage (flushHeader pg) i = readPage pg i"
proof -
  show "length (pg_file (flushHeader pg)) = length (pg_file pg)"
    using assms page_end [of 0 "pg_pageCount pg"] by (simp add: flushHeader_ok length_write_at)
  show "readPage (flushHeader pg) i = readPage pg i"
    using assms read_write_other [of 0 "pg_pageCount pg" "pg_file pg" "header_page pg"]
    by (intro readPage_cong) (simp_all add: flushHeader_ok)
qed

lemma le_word_crc: "le_word (take 4 (data_page data)) = crc32 data"
  by (simp add: data_page_def le_word_le_bytes)

lemma write_then_read:
  assumes "pg_ok pg" "1 \<le> i" "i < pg_pageCount pg" "length data = DATA_PAGE_PAYLOAD_SIZE"
  shows "\<exists>pg'. writePage (Some i) data pg = Inr (pg', i) \<and> pg_ok pg' \<and> readPage pg' i = Some data
    \<and> (\<forall>j. j \<noteq> i \<longrightarrow> readPage pg' j = readPage pg j) \<and> pg' = pg\<lparr>pg_file := pg_file pg'\<rparr>"
proof -
  let ?pg = "pg\<lparr>pg_file := write_at (i * PAGE_SIZE) (data_page data) (pg_file pg)\<rparr>"
  have size: "length (pg_file pg) = pg_pageCount pg * PAGE_SIZE" using assms(1) by (simp add: pg_ok_def)
  have "writePage (Some i) data pg = Inr (?pg, i)"
    using assms by (simp add: writePage_def writeRaw_def put_page_def)
  moreover have "pg_ok ?pg"
    using assms(1,4) page_end [OF assms(3)] size by (simp add: pg_ok_def length_write_at)
  moreover have "readPage ?pg i = Some data"
    using assms read_write_same [OF assms(3) size, of "data_page data"]
    by (simp add: readPage_def readRaw_def le_word_crc) (simp add: data_page_def page_sizes)
  moreover have "readPage ?pg j = readPage pg j" if "j \<noteq> i" for j
    using that assms read_write_other [OF assms(3) size, of "data_page data" j] by (simp add: readPage_def readRaw_def)
  moreover have "?pg = pg\<lparr>pg_file := pg_file ?pg\<rparr>" by simp
  ultimately show ?thesis by blast
qed

text \<open>
  C31. A page that was written is read back: writing a payload to an existing page succeeds, keeps the
  invariant, the following read returns exactly that payload, and every other page reads as before.
\<close>
theorem page_roundtrip:
  assumes "pg_ok pg" "1 \<le> i" "i < pg_pageCount pg" "length data = DATA_PAGE_PAYLOAD_SIZE"
  shows "\<exists>pg'. writePage (Some i) data pg = Inr (pg', i) \<and> pg_ok pg' \<and> readPage pg' i = Some data
    \<and> (\<forall>j. j \<noteq> i \<longrightarrow> readPage pg' j = readPage pg j)"
  using write_then_read [OF assms] by blast

text \<open>
  C32. Tears are detected: when up to four consecutive bytes of the payload of a readable page have
  changed on disk, the page is rejected instead of being returned with wrong contents.
\<close>
theorem damaged_page_rejected:
  assumes "pg_ok pg" "readPage pg i = Some (p @ xs @ q)"
    and "length ys = length xs" "length xs \<le> 4" "ys \<noteq> xs"
  shows "readPage (pg\<lparr>pg_file := write_at (i * PAGE_SIZE + DATA_PAGE_HEADER_SIZE + length p) ys (pg_file pg)\<rparr>) i = None"
proof -
  let ?off = "i * PAGE_SIZE"
  have i: "i \<noteq> 0" "i < pg_pageCount pg" using assms(2) by (auto simp: readPage_def split: if_splits)
  have size: "length (pg_file pg) = pg_pageCount pg * PAGE_SIZE" using assms(1) by (simp add: pg_ok_def)
  obtain raw where raw: "read_at (pg_file pg) ?off = Some raw" "drop DATA_PAGE_HEADER_SIZE raw = p @ xs @ q"
      "le_word (take 4 raw) = crc32 (p @ xs @ q)"
    using assms(2) i by (auto simp: readPage_def readRaw_def Let_def split: option.splits if_splits)
  define hdr where "hdr = take DATA_PAGE_HEADER_SIZE raw"
  have parts: "raw = hdr @ p @ xs @ q" "length hdr = 8" "length raw = PAGE_SIZE"
  proof -
    show "raw = hdr @ p @ xs @ q" using raw(2) by (metis append_take_drop_id hdr_def)
    show "length raw = PAGE_SIZE" using raw(1) by (auto simp: read_at_def Let_def split: if_splits)
    then show "length hdr = 8" by (simp add: hdr_def page_sizes)
  qed
  have split: "pg_file pg = take ?off (pg_file pg) @ raw @ drop (?off + PAGE_SIZE) (pg_file pg)"
    using raw(1) read_at_inside [OF i(2) size] by (metis add.commute append_take_drop_id drop_drop option.inject)
  have pre: "length (take ?off (pg_file pg)) = ?off" using page_end [OF i(2)] size by simp
  define a c where "a = take ?off (pg_file pg)" and "c = drop (?off + PAGE_SIZE) (pg_file pg)"
  have fl: "pg_file pg = (a @ hdr @ p) @ xs @ (q @ c)" "length a = ?off"
    using split parts(1) pre by (simp_all add: a_def c_def)
  have "write_at (?off + 8 + length p) ys (pg_file pg) = (a @ hdr @ p) @ ys @ (q @ c)"
    unfolding fl(1) using fl(2) parts(2) assms(3) by (simp add: write_at_def)
  also have "\<dots> = a @ (hdr @ p @ ys @ q) @ c" by simp
  finally have written: "write_at (?off + 8 + length p) ys (pg_file pg) = a @ (hdr @ p @ ys @ q) @ c" .
  have "read_at (a @ (hdr @ p @ ys @ q) @ c) ?off = Some (hdr @ p @ ys @ q)"
    using fl(2) parts assms(3) by (simp add: read_at_def Let_def)
  moreover have "take 4 (hdr @ p @ ys @ q) = take 4 raw" using parts by simp
  moreover have "crc32 (p @ ys @ q) \<noteq> crc32 (p @ xs @ q)" using assms by (intro crc32_burst) auto
  ultimately show ?thesis
    using i raw(3) written parts(2) by (simp add: readPage_def readRaw_def Let_def DATA_PAGE_HEADER_SIZE_def)
qed


section \<open>Allocation\<close>

lemma onFileExtended_ok:
  assumes "buddy_ok b" "bpageCount b \<le> start" "0 < n"
  shows "\<exists>b'. onFileExtended start n b = Inr b' \<and> buddy_ok b' \<and> freeBuddy b' = freeBuddy b \<and> bpageCount b' = start + n"
proof -
  have len: "length (allocated b) = bpageCount b" using assms(1) by (simp add: buddy_ok_def)
  define al where "al = allocated b @ replicate (start + n - bpageCount b) True"
  have e: "ensureBitmapSize (start + n) b = b\<lparr>allocated := al, bpageCount := start + n\<rparr>"
    using assms(2,3) len by (simp add: ensureBitmapSize_def al_def)
  let ?al = "take start al @ replicate n True @ drop (start + n) al"
  have lal: "length al = start + n" using assms(2) len by (simp add: al_def)
  then have "onFileExtended start n b = Inr (b\<lparr>allocated := ?al, bpageCount := start + n\<rparr>)"
    using e assms(3) by (simp add: onFileExtended_def Let_def mark_pages_Inr)
  moreover have "p < start + n \<and> \<not> ?al ! p" if "p < bpageCount b" "\<not> allocated b ! p" for p
    using that assms(2) len lal by (subst nth_marked) (auto simp: al_def nth_append)
  then have "buddy_ok (b\<lparr>allocated := ?al, bpageCount := start + n\<rparr>)"
    using assms(1) lal by (auto simp: buddy_ok_def)
  ultimately show ?thesis by auto
qed

lemma extendFile_ok:
  assumes "pg_ok pg" "0 < n" "pg_pageCount pg + n < 2 ^ 32"
  shows "\<exists>pg'. extendFile n pg = Inr (pg', pg_pageCount pg) \<and> pg_ok pg' \<and> pg_pageCount pg' = pg_pageCount pg + n
    \<and> freeBuddy (pg_alloc pg') = freeBuddy (pg_alloc pg)
    \<and> (\<forall>i < pg_pageCount pg. readPage pg' i = readPage pg i)"
proof -
  let ?pc = "pg_pageCount pg"
  define ext where "ext = pg\<lparr>pg_file := pg_file pg @ replicate (n * PAGE_SIZE) 0, pg_pageCount := ?pc + n\<rparr>"
  have ok: "length (pg_file pg) = ?pc * PAGE_SIZE" "1 \<le> ?pc" using assms(1) by (auto simp: pg_ok_def)
  have ext: "length (pg_file ext) = pg_pageCount ext * PAGE_SIZE" "1 \<le> pg_pageCount ext"
    using ok by (simp_all add: ext_def algebra_simps)
  obtain b where b: "onFileExtended ?pc n (pg_alloc pg) = Inr b" "buddy_ok b" "freeBuddy b = freeBuddy (pg_alloc pg)"
      "bpageCount b = ?pc + n"
    using onFileExtended_ok [of "pg_alloc pg" ?pc n] assms by (auto simp: pg_ok_def)
  let ?pg = "(flushHeader ext)\<lparr>pg_alloc := b\<rparr>"
  have fields: "pg_alloc (flushHeader ext) = pg_alloc pg" "pg_pageCount (flushHeader ext) = ?pc + n" "pg_version (flushHeader ext) = pg_version pg"
    using ext by (simp_all add: flushHeader_ok) (simp_all add: ext_def)
  have "extendFile n pg = Inr (?pg, ?pc)"
    using assms(2,3) b(1) fields by (simp add: extendFile_def Let_def ext_def)
  moreover have "pg_ok ?pg"
    using assms b flushHeader_keeps(1) [OF ext] ext fields by (simp add: pg_ok_def) (simp add: ext_def)
  moreover have "readPage ?pg i = readPage pg i" if "i < ?pc" for i
  proof -
    have "readPage ?pg i = readPage (flushHeader ext) i" by (simp add: readPage_def readRaw_def)
    also have "\<dots> = readPage ext i" by (rule flushHeader_keeps(2) [OF ext])
    also have "\<dots> = readPage pg i"
      using that read_append [OF that ok(1)] by (simp add: readPage_def readRaw_def ext_def)
    finally show ?thesis .
  qed
  ultimately show ?thesis using b fields by auto
qed

lemma allocate_run_fresh:
  assumes "pg_ok pg" "0 < n" "pg_pageCount pg + n < 2 ^ 32"
  shows "\<exists>pg' s. allocate_run n pg = Inr (pg', s) \<and> pg_ok pg'
    \<and> {s..<s + n} \<inter> live pg = {} \<and> {s..<s + n} \<union> live pg \<subseteq> live pg'
    \<and> (\<forall>i < pg_pageCount pg. readPage pg' i = readPage pg i)"
proof -
  have ok: "buddy_ok (pg_alloc pg)" "bpageCount (pg_alloc pg) \<le> pg_pageCount pg" "1 \<le> pg_pageCount pg"
    using assms(1) by (auto simp: pg_ok_def)
  have pooled: "p < pg_pageCount pg" if "p \<in># pool (freeBuddy (pg_alloc pg))" for p
    using that ok by (fastforce simp: buddy_ok_def)
  note alloc = buddy_allocation_pool [OF ok(1) assms(2)]
  show ?thesis
  proof (cases "allocate_from_pool n (pg_alloc pg)")
    case (Inr br)
    obtain b r where br: "br = (b, r)" by (cases br)
    show ?thesis
    proof (cases r)
      case None
      with alloc Inr br have "b = pg_alloc pg" by simp
      obtain pg' where ext: "extendFile n pg = Inr (pg', pg_pageCount pg)" "pg_ok pg'"
          "pg_pageCount pg' = pg_pageCount pg + n" "freeBuddy (pg_alloc pg') = freeBuddy (pg_alloc pg)"
          "\<forall>i < pg_pageCount pg. readPage pg' i = readPage pg i"
        using extendFile_ok [OF assms] by blast
      have "allocate_run n pg = Inr (pg', pg_pageCount pg)"
        using Inr br None ext(1) assms(2) by (simp add: allocate_run_def)
      moreover have "{pg_pageCount pg..<pg_pageCount pg + n} \<union> live pg \<subseteq> live pg'"
        using ext(3,4) pooled ok(3) by (force simp: live_def)
      ultimately show ?thesis using ext(2,5) by (auto simp: live_def)
    next
      case (Some s)
      let ?pg = "pg\<lparr>pg_alloc := b\<rparr>"
      have b: "buddy_ok b" "bpageCount b = bpageCount (pg_alloc pg)"
          "pool (freeBuddy (pg_alloc pg)) = pool (freeBuddy b) + run_pages (classFor n) s"
          "\<forall>p. s \<le> p \<and> p < s + n \<longrightarrow> 1 \<le> p \<and> p \<notin># pool (freeBuddy b)"
        using alloc Inr br Some by auto
      have "allocate_run n pg = Inr (?pg, s)"
        using Inr br Some assms(2) by (simp add: allocate_run_def)
      moreover have "pg_ok ?pg" using assms(1) b(1,2) by (simp add: pg_ok_def)
      moreover have taken: "p \<in># pool (freeBuddy (pg_alloc pg))" if "s \<le> p" "p < s + n" for p
        using b(3) that classFor_bounds(1) [OF assms(2)] by simp
      then have "{s..<s + n} \<inter> live pg = {}" by (auto simp: live_def)
      moreover have "{s..<s + n} \<union> live pg \<subseteq> live ?pg"
        using b(3,4) pooled taken by (auto simp: live_def)
      moreover have "readPage ?pg i = readPage pg i" for i by (simp add: readPage_def readRaw_def)
      ultimately show ?thesis by blast
    qed
  qed (use alloc in simp)
qed


text \<open>
  Allocation hands out fresh pages: a request for \<open>n > 0\<close> pages succeeds and returns \<open>n\<close>
  consecutive existing pages that were not in use; they are in use afterwards, together with every
  page that was; the contents of the file before the call are untouched.
\<close>
theorem pager_allocates_fresh:
  assumes "pg_ok pg" "0 < n" "pg_pageCount pg + n < 2 ^ 32"
  shows "\<exists>pg' s. allocatePages n pg = Inr (pg', [s..<s + n]) \<and> pg_ok pg'
    \<and> {s..<s + n} \<inter> live pg = {} \<and> {s..<s + n} \<union> live pg \<subseteq> live pg'
    \<and> (\<forall>i < pg_pageCount pg. readPage pg' i = readPage pg i)"
proof -
  obtain pg' s where "allocate_run n pg = Inr (pg', s)" "pg_ok pg'" "{s..<s + n} \<inter> live pg = {}"
      "{s..<s + n} \<union> live pg \<subseteq> live pg'" "\<forall>i < pg_pageCount pg. readPage pg' i = readPage pg i"
    using allocate_run_fresh [OF assms] by blast
  then show ?thesis using assms(2) by (intro exI [of _ pg'] exI [of _ s]) (simp add: allocatePages_def)
qed

section \<open>Closing and opening again\<close>

lemma u32_at_page_id: "n < 2 ^ 32 \<Longrightarrow> off = length pre \<Longrightarrow> u32_at (pre @ page_id_bytes n @ rest) off = n"
  by (simp add: u32_at_def page_id_bytes_def le_word_le_bytes)

lemma drop_runs: "i < length rs \<Longrightarrow> drop (8 * i) (concat (map run_bytes rs) @ rest) =
    run_bytes (rs ! i) @ drop (8 * (i + 1)) (concat (map run_bytes rs) @ rest)"
proof (induction rs arbitrary: i)
  case (Cons r rs)
  then show ?case by (cases i) (simp_all add: drop_append [symmetric])
qed simp

lemma read_runs_concat:
  assumes "length pre = kFreeRunsOffset + 4" "\<forall>r \<in> set rs. run_start r < 2 ^ 32 \<and> slabClass r < 2 ^ 32"
  shows "read_runs (pre @ concat (map run_bytes rs) @ rest) (length rs) = rs"
proof (rule nth_equalityI)
  show "length (read_runs (pre @ concat (map run_bytes rs) @ rest) (length rs)) = length rs"
    by (simp add: read_runs_def)
next
  fix i assume "i < length (read_runs (pre @ concat (map run_bytes rs) @ rest) (length rs))"
  then have i: "i < length rs" by (simp add: read_runs_def)
  let ?buf = "pre @ concat (map run_bytes rs) @ rest" and ?o = "kFreeRunsOffset + 4 + i * 8"
  obtain tl where tl: "drop ?o ?buf = run_bytes (rs ! i) @ tl"
    using drop_runs [OF i, of rest] assms(1) by (simp add: mult.commute)
  have "u32_at ?buf ?o = slabClass (rs ! i)"
    using tl assms(2) i by (simp add: u32_at_def run_bytes_def page_id_bytes_def le_word_le_bytes)
  moreover have "drop (?o + 4) ?buf = page_id_bytes (run_start (rs ! i)) @ tl"
  proof -
    have "drop (?o + 4) ?buf = drop 4 (drop ?o ?buf)" by (simp only: drop_drop add.commute)
    then show ?thesis by (simp only: tl) (simp add: run_bytes_def)
  qed
  then have "u32_at ?buf (?o + 4) = run_start (rs ! i)"
    using assms(2) i by (simp add: u32_at_def page_id_bytes_def le_word_le_bytes)
  ultimately show "read_runs ?buf (length rs) ! i = rs ! i"
    using i by (simp add: read_runs_def)
qed

text \<open>What a version 2 header page decodes to.\<close>

lemma header_page_fields:
  assumes "pg_version pg = 2" "pg_pageCount pg < 2 ^ 32"
    "\<forall>r \<in> set (saveFreeRuns (pg_alloc pg)). run_start r < 2 ^ 32 \<and> slabClass r < 2 ^ 32"
  shows "le_word (take 4 (header_page pg)) = pg_magic pg" "u16_at (header_page pg) 4 = 2"
    "u32_at (header_page pg) 8 = pg_pageCount pg"
    "u32_at (header_page pg) kFreeRunsOffset = length (persisted_runs pg)"
    "read_runs (header_page pg) (length (persisted_runs pg)) = persisted_runs pg"
proof -
  define pre where "pre = le_bytes 4 (pg_magic pg) @ le_bytes 2 (of_nat 2 :: u16) @ [0, 0]"
  define scratch where "scratch = serializeHeader (pg_alloc pg) @ replicate 4 0"
  obtain pad where hp: "header_page pg = pre @ page_id_bytes (pg_pageCount pg) @ scratch
      @ page_id_bytes (length (persisted_runs pg)) @ concat (map run_bytes (persisted_runs pg)) @ pad"
    using assms(1) by (simp add: header_page_def pad_page_def pre_def scratch_def)
  have len: "length pre = 8" "length scratch = 20" "length (persisted_runs pg) < 2 ^ 32"
    by (simp_all add: pre_def scratch_def persisted_runs_def page_sizes)
  show "le_word (take 4 (header_page pg)) = pg_magic pg" by (simp add: hp pre_def le_word_le_bytes)
  show "u16_at (header_page pg) 4 = 2" by (simp add: hp pre_def u16_at_def le_word_le_bytes)
  show "u32_at (header_page pg) 8 = pg_pageCount pg"
    unfolding hp by (rule u32_at_page_id) (use assms(2) len(1) in simp_all)
  show "u32_at (header_page pg) kFreeRunsOffset = length (persisted_runs pg)"
    using u32_at_page_id [OF len(3), of kFreeRunsOffset "pre @ page_id_bytes (pg_pageCount pg) @ scratch"] len(1,2)
    unfolding hp by (simp add: kFreeRunsOffset_def)
  have "\<forall>r \<in> set (persisted_runs pg). run_start r < 2 ^ 32 \<and> slabClass r < 2 ^ 32"
    using assms(3) by (auto simp: persisted_runs_def dest: in_set_takeD)
  then show "read_runs (header_page pg) (length (persisted_runs pg)) = persisted_runs pg"
    using read_runs_concat [of "pre @ page_id_bytes (pg_pageCount pg) @ scratch @ page_id_bytes (length (persisted_runs pg))"] len(1,2)
    unfolding hp by (simp add: kFreeRunsOffset_def)
qed

lemma loadFreeRuns_sized: "loadFreeRuns rs pc (ensureBitmapSize pc b) = loadFreeRuns rs pc b"
  by (cases b) (simp add: loadFreeRuns_def ensureBitmapSize_def del: replicate_Suc)

lemma saved_runs_small: "buddy_ok b \<Longrightarrow> bpageCount b < 2 ^ 32 \<Longrightarrow> r \<in> set (saveFreeRuns b) \<Longrightarrow>
    run_start r < 2 ^ 32 \<and> slabClass r < 2 ^ 32"
  using saved_fits [of b r] fits_start [of "bpageCount b" r] by (auto simp: fits_def MAX_CLASS_def)

lemma reopen_valid:
  assumes "pg_ok pg" "pg_isOpen pg" "pg_magic pg = MAGIC" "length (saveFreeRuns (pg_alloc pg)) \<le> kMaxPersistedRuns"
  shows "\<exists>pg'. pager_open (pg_file (pager_close pg)) = Inr pg' \<and> pg_ok pg' \<and> pg_pageCount pg' = pg_pageCount pg
    \<and> freeBuddy (pg_alloc pg') = freeBuddy (pg_alloc pg) \<and> (\<forall>i. readPage pg' i = readPage pg i)
    \<and> pg_isOpen pg' \<and> pg_magic pg' = 0"
proof -
  let ?pg = "flushHeader pg" and ?f = "pg_file (flushHeader pg)" and ?pc = "pg_pageCount pg"
  have ok: "length (pg_file pg) = ?pc * PAGE_SIZE" "1 \<le> ?pc" "?pc < 2 ^ 32" "pg_version pg = 2"
      "buddy_ok (pg_alloc pg)" "bpageCount (pg_alloc pg) \<le> ?pc"
    using assms(1) by (auto simp: pg_ok_def VERSION_def)
  have runs: "\<forall>r \<in> set (saveFreeRuns (pg_alloc pg)). run_start r < 2 ^ 32 \<and> slabClass r < 2 ^ 32"
    using saved_runs_small [of "pg_alloc pg"] ok by auto
  note fields = header_page_fields [OF ok(4,3) runs]
  have persisted: "persisted_runs pg = saveFreeRuns (pg_alloc pg)" using assms(4) by (simp add: persisted_runs_def)
  have page0: "read_at ?f 0 = Some (header_page pg)"
    using read_write_same [of 0 ?pc "pg_file pg" "header_page pg"] ok by (simp add: flushHeader_ok)
  obtain b where b: "loadFreeRuns (saveFreeRuns (pg_alloc pg)) ?pc buddy_init = Inr b" "buddy_ok b"
      "freeBuddy b = freeBuddy (pg_alloc pg)" "bpageCount b = ?pc"
    using restore_pool [OF ok(5,6)] by (auto simp: loading_def)
  let ?pg' = "(blank_pager ?f)\<lparr>pg_pageCount := ?pc, pg_version := 2, pg_alloc := b\<rparr>"
  have "loadHeader (blank_pager ?f) = Inr (Some ?pg')"
    using page0 fields assms(3,4) b(1) persisted
    by (simp add: loadHeader_def Let_def blank_pager_def buddy_loadHeader_def loadFreeRuns_sized)
  then have "pager_open (pg_file (pager_close pg)) = Inr ?pg'"
    using assms(2) by (simp add: pager_open_def pager_close_def)
  moreover have "pg_ok ?pg'"
    using ok b flushHeader_keeps(1) [of pg] by (simp add: pg_ok_def VERSION_def blank_pager_def)
  moreover have "readPage ?pg' i = readPage pg i" for i
  proof -
    have "readPage ?pg' i = readPage (flushHeader pg) i"
      using ok by (simp add: readPage_def readRaw_def flushHeader_ok blank_pager_def)
    then show ?thesis using flushHeader_keeps(2) [of pg] ok by simp
  qed
  ultimately show ?thesis using b by (auto simp: blank_pager_def)
qed

text \<open>
  Close and reopen: with at most 507 free runs, opening the bytes that a close leaves behind
  restores the page count, the free pool in its order and the contents of every page.
\<close>
theorem reopen_restores:
  assumes "pg_ok pg" "pg_isOpen pg" "pg_magic pg = MAGIC" "length (saveFreeRuns (pg_alloc pg)) \<le> kMaxPersistedRuns"
  shows "\<exists>pg'. pager_open (pg_file (pager_close pg)) = Inr pg' \<and> pg_ok pg' \<and> pg_pageCount pg' = pg_pageCount pg
    \<and> freeBuddy (pg_alloc pg') = freeBuddy (pg_alloc pg) \<and> (\<forall>i. readPage pg' i = readPage pg i)"
  using reopen_valid [OF assms] by blast

text \<open>
  C33. The second reopen loses the file: \<open>loadHeader\<close> checks the magic number but does not store it,
  so the pager that was opened on an existing file writes magic 0 when it closes; the next open takes
  the file for a new one, resets the page count to 1, and no page can be read any more.
\<close>
theorem second_reopen_loses_pages:
  assumes "pg_ok pg" "pg_isOpen pg" "pg_magic pg = MAGIC" "length (saveFreeRuns (pg_alloc pg)) \<le> kMaxPersistedRuns"
  shows "\<exists>pg1 pg2. pager_open (pg_file (pager_close pg)) = Inr pg1
    \<and> pager_open (pg_file (pager_close pg1)) = Inr pg2 \<and> pg_pageCount pg2 = 1 \<and> (\<forall>i. readPage pg2 i = None)"
proof -
  obtain pg1 where pg1: "pager_open (pg_file (pager_close pg)) = Inr pg1" "pg_ok pg1" "pg_isOpen pg1" "pg_magic pg1 = 0"
    using reopen_valid [OF assms] by blast
  let ?f = "pg_file (flushHeader pg1)"
  have "read_at ?f 0 = Some (header_page pg1)"
    using pg1(2) read_write_same [of 0 "pg_pageCount pg1" "pg_file pg1" "header_page pg1"]
    by (simp add: pg_ok_def flushHeader_ok)
  moreover have "le_word (take 4 (header_page pg1)) = pg_magic pg1"
    by (simp add: header_page_def pad_page_def le_word_le_bytes)
  ultimately have "loadHeader (blank_pager ?f) = Inr None"
    using pg1(4) by (simp add: loadHeader_def blank_pager_def MAGIC_def)
  then have "\<exists>pg2. pager_open ?f = Inr pg2 \<and> pg_pageCount pg2 = 1"
    by (simp add: pager_open_def flushHeader_ok)
  then have "\<exists>pg2. pager_open ?f = Inr pg2 \<and> pg_pageCount pg2 = 1 \<and> (\<forall>i. readPage pg2 i = None)"
    by (auto simp: readPage_def)
  moreover have "pager_close pg1 = (flushHeader pg1)\<lparr>pg_isOpen := False\<rparr>" using pg1(3) by (simp add: pager_close_def)
  ultimately show ?thesis using pg1(1) by auto
qed

section \<open>Version 1 files\<close>

lemma v1_chain_inv: "distinct seen \<Longrightarrow> set seen \<subseteq> {1..<pg_pageCount pg} \<Longrightarrow>
    distinct (v1_chain pg cur seen) \<and> set (v1_chain pg cur seen) \<subseteq> {1..<pg_pageCount pg} \<and> set seen \<subseteq> set (v1_chain pg cur seen)"
proof (induction pg cur seen rule: v1_chain.induct)
  case (1 pg cur seen)
  show ?case
  proof (cases "cur \<noteq> INVALID_PAGE \<and> cur \<noteq> 0 \<and> cur < pg_pageCount pg \<and> cur \<notin> set seen")
    case True
    then have "distinct (cur # seen)" "set (cur # seen) \<subseteq> {1..<pg_pageCount pg}" using 1 by auto
    then show ?thesis using 1(1) [OF True] True
      by (cases "readRaw pg cur") (auto simp: v1_chain.simps [of pg cur seen])
  next
    case False
    then have "v1_chain pg cur seen = seen" by (subst v1_chain.simps) auto
    then show ?thesis using 1 by simp
  qed
qed

text \<open>
  The migration of a version 1 file ends on every chain, cyclic or damaged: the walk visits each
  page of the file at most once and never page 0, so it makes fewer steps than the file has pages.
\<close>
theorem migration_walk_bounded:
  assumes "1 \<le> pg_pageCount pg"
  shows "distinct (v1_chain pg (pg_freeHead pg) []) \<and> set (v1_chain pg (pg_freeHead pg) []) \<subseteq> {1..<pg_pageCount pg}
    \<and> length (v1_chain pg (pg_freeHead pg) []) < pg_pageCount pg"
proof -
  have *: "distinct (v1_chain pg (pg_freeHead pg) [])" "set (v1_chain pg (pg_freeHead pg) []) \<subseteq> {1..<pg_pageCount pg}"
    using v1_chain_inv [of "[]" pg "pg_freeHead pg"] by auto
  have "length (v1_chain pg (pg_freeHead pg) []) \<le> card {1..<pg_pageCount pg}"
    using * by (metis card_mono distinct_card finite_atLeastLessThan)
  with * assms show ?thesis by simp
qed


section \<open>Witnesses\<close>

definition demo_pager :: Pager where
  "demo_pager = \<lparr>pg_magic = MAGIC, pg_version = 2, pg_pageCount = 2, pg_freeHead = INVALID_PAGE,
     pg_file = replicate 8192 0,
     pg_alloc = \<lparr>freeBuddy = replicate (MAX_CLASS + 1) [], allocated = [True, True], bpageCount = 2\<rparr>, pg_isOpen = True\<rparr>"

lemma demo_pager_ok: "pg_ok demo_pager"
  by (simp add: pg_ok_def demo_pager_def buddy_ok_def VERSION_def PAGE_SIZE_def del: replicate_Suc)

lemma demo_pager_runs: "saveFreeRuns (pg_alloc demo_pager) = []"
  by (simp add: saveFreeRuns_def demo_pager_def MAX_CLASS_def del: replicate_Suc)

theorem page_roundtrip_witness:
  "\<exists>pg'. writePage (Some 1) (replicate 4088 7) demo_pager = Inr (pg', 1) \<and> readPage pg' 1 = Some (replicate 4088 7)"
  using page_roundtrip [OF demo_pager_ok, of 1 "replicate 4088 7"] by (auto simp: demo_pager_def page_sizes)

theorem damaged_page_rejected_witness:
  "\<exists>pg. pg_ok pg \<and> readPage pg 1 = Some ([] @ [7] @ replicate 4087 7)
     \<and> readPage (pg\<lparr>pg_file := write_at (1 * PAGE_SIZE + DATA_PAGE_HEADER_SIZE + length []) [9] (pg_file pg)\<rparr>) 1 = None"
proof -
  have "replicate 4088 7 = [] @ [7] @ replicate 4087 (7 :: u8)"
    using replicate_Suc [of 4087 "7 :: u8"] by simp
  then obtain pg where "pg_ok pg" "readPage pg 1 = Some ([] @ [7] @ replicate 4087 7)"
    using write_then_read [OF demo_pager_ok, of 1 "replicate 4088 7"] by (auto simp: demo_pager_def page_sizes)
  with damaged_page_rejected [OF this, of "[9]"] show ?thesis by auto
qed

theorem pager_allocates_fresh_witness:
  "pg_ok demo_pager \<and> (\<exists>pg' s. allocatePages 3 demo_pager = Inr (pg', [s..<s + 3]) \<and> {s..<s + 3} \<inter> live demo_pager = {})"
  using pager_allocates_fresh [OF demo_pager_ok, of 3] demo_pager_ok by (auto simp: demo_pager_def)

theorem reopen_restores_witness:
  "\<exists>pg'. pager_open (pg_file (pager_close demo_pager)) = Inr pg' \<and> pg_pageCount pg' = pg_pageCount demo_pager"
  using reopen_restores [OF demo_pager_ok] by (auto simp: demo_pager_runs) (auto simp: demo_pager_def)

theorem second_reopen_loses_pages_witness:
  "\<exists>pg1 pg2. pager_open (pg_file (pager_close demo_pager)) = Inr pg1
     \<and> pager_open (pg_file (pager_close pg1)) = Inr pg2 \<and> pg_pageCount pg2 = 1"
  using second_reopen_loses_pages [OF demo_pager_ok] by (auto simp: demo_pager_runs) (auto simp: demo_pager_def)

theorem migration_walk_bounded_witness:
  "length (v1_chain demo_pager (pg_freeHead demo_pager) []) < pg_pageCount demo_pager"
  using migration_walk_bounded [of demo_pager] by (simp add: demo_pager_def)

end
