(* ===== verification/Node_Codec.thy ===== *)
theory Node_Codec
  imports Tuples Page_File
begin

text \<open>
  The bytes of B+tree nodes (\<open>encodeTuple\<close>, \<open>decodeTuple\<close>, \<open>loadNode\<close>, \<open>saveNode\<close> of
  \<open>src/src/BTree.cpp\<close>, the layouts of \<open>storage/BTree.hpp\<close>): a node fills the payload of one page of
  theory \<open>Page_File\<close>; rows use the value format of theory \<open>Values\<close>. A \<open>memcpy\<close> past the page buffer
  is \<open>Undefined\<close>; the overflow that \<open>saveNode\<close> checks is its exception.
\<close>

section \<open>Rows\<close>

definition encode_column :: "ColumnValue \<Rightarrow> bytes" where
  "encode_column cv = le_bytes 4 (of_nat (length (fst cv)) :: u32) @ map byte_of_char (fst cv) @ toBytes (snd cv)"

definition encodeTuple :: "Tuple \<Rightarrow> bytes" where
  "encodeTuple t = le_bytes 4 (of_nat (length (tcolumns t)) :: u32) @ concat (map encode_column (tcolumns t))"

fun decode_columns :: "nat \<Rightarrow> bytes \<Rightarrow> nat \<Rightarrow> Tuple \<Rightarrow> (Tuple \<times> nat) result" where
  "decode_columns 0 data off t = Inr (t, off)"
| "decode_columns (Suc n) data off t =
     (if off + 4 > length data then Inr (t, off)
      else let nlen = u32_at data off
           in if off + 4 + nlen > length data then Inr (t, off + 4)
              else rbind (fromBytes data (off + 4 + nlen))
                     (\<lambda>(v, off'). decode_columns n data off'
                        (tset t (map char_of_byte (take nlen (drop (off + 4) data))) v)))"

definition decodeTuple :: "bytes \<Rightarrow> nat \<Rightarrow> (Tuple \<times> nat) result" where
  "decodeTuple data off =
     (if off + 4 > length data then Inr (Tuple_empty, off)
      else decode_columns (u32_at data off) data (off + 4) Tuple_empty)"

section \<open>Nodes\<close>

definition NInternal :: u8 where "NInternal = 0"
definition NLeaf :: u8 where "NLeaf = 1"

record NodeHeader =
  nh_type :: u8
  nh_num_entries :: u16
  nh_right_sibling :: PageId

record InternalEntry =
  ie_key :: Value
  ie_child :: PageId

record LeafEntry =
  le_key :: Value
  le_commitSeq :: u64
  le_txnId :: u64
  le_tombstone :: bool
  le_payload :: Tuple

type_synonym node = "NodeHeader \<times> InternalEntry list \<times> LeafEntry list"

definition load_internal_entry :: "bytes \<Rightarrow> nat \<Rightarrow> (InternalEntry \<times> nat) result" where
  "load_internal_entry page off =
     rbind (fromBytes page off) (\<lambda>(k, off).
     rbind (read_word page off 4 (\<lambda>c :: u32. \<lparr>ie_key = k, ie_child = unat c\<rparr>)) Inr)"

text \<open>The row is decoded from the page; the next entry starts after the stored length, clamped to the page.\<close>

definition load_leaf_entry :: "bytes \<Rightarrow> nat \<Rightarrow> (LeafEntry \<times> nat) result" where
  "load_leaf_entry page off =
     rbind (fromBytes page off) (\<lambda>(k, off).
     rbind (read_word page off 8 id) (\<lambda>(seq, off).
     rbind (read_word page off 8 id) (\<lambda>(txn, off).
     rbind (read_bytes page off 1) (\<lambda>tomb.
     rbind (read_word page (off + 1) 4 (\<lambda>w :: u32. unat w)) (\<lambda>(tlen, off).
     rbind (decodeTuple page off) (\<lambda>(t, _).
       Inr (\<lparr>le_key = k, le_commitSeq = seq, le_txnId = txn, le_tombstone = hd tomb \<noteq> 0, le_payload = t\<rparr>,
            min (off + tlen) (length page))))))))"

fun load_entries :: "(bytes \<Rightarrow> nat \<Rightarrow> ('e \<times> nat) result) \<Rightarrow> nat \<Rightarrow> bytes \<Rightarrow> nat \<Rightarrow> 'e list result" where
  "load_entries ld 0 page off = Inr []"
| "load_entries ld (Suc n) page off =
     rbind (ld page off) (\<lambda>(e, off). rbind (load_entries ld n page off) (\<lambda>es. Inr (e # es)))"

definition load_page :: "bytes \<Rightarrow> node result" where
  "load_page page =
     (let hdr = \<lparr>nh_type = hd page, nh_num_entries = le_word (take 2 (drop 1 page)), nh_right_sibling = u32_at page 3\<rparr>;
          n = unat (nh_num_entries hdr)
      in if nh_type hdr = NInternal
         then rbind (load_entries load_internal_entry n page 8) (\<lambda>es. Inr (hdr, es, []))
         else rbind (load_entries load_leaf_entry n page 8) (\<lambda>es. Inr (hdr, [], es)))"

definition loadNode :: "Pager \<Rightarrow> PageId \<Rightarrow> node result" where
  "loadNode pg pid =
     (case readPage pg pid of
        None \<Rightarrow> Inl (RuntimeError (''BTree::loadNode: failed to read page '' @ show_nat pid))
      | Some page \<Rightarrow> load_page page)"

fun store_internal :: "InternalEntry list \<Rightarrow> bytes \<Rightarrow> bytes result" where
  "store_internal [] buf = Inr buf"
| "store_internal (e # es) buf =
     (let buf = buf @ toBytes (ie_key e) @ page_id_bytes (ie_child e)
      in if length buf > DATA_PAGE_PAYLOAD_SIZE then Inl Undefined else store_internal es buf)"

definition leaf_fixed :: "LeafEntry \<Rightarrow> bytes" where
  "leaf_fixed e = toBytes (le_key e) @ le_bytes 8 (le_commitSeq e) @ le_bytes 8 (le_txnId e)
     @ [if le_tombstone e then 1 else 0] @ le_bytes 4 (of_nat (length (encodeTuple (le_payload e))) :: u32)"

definition overflow_message :: "nat \<Rightarrow> nat \<Rightarrow> string" where
  "overflow_message off payload = ''BTree::saveNode: leaf page byte overflow (offset='' @ show_nat off
     @ '', payload='' @ show_nat payload @ '', cap='' @ show_nat DATA_PAGE_PAYLOAD_SIZE @ '')''"

fun store_leaf :: "LeafEntry list \<Rightarrow> bytes \<Rightarrow> bytes result" where
  "store_leaf [] buf = Inr buf"
| "store_leaf (e # es) buf =
     (let buf = buf @ leaf_fixed e; payload = encodeTuple (le_payload e)
      in if length buf > DATA_PAGE_PAYLOAD_SIZE then Inl Undefined
         else if length buf + length payload > DATA_PAGE_PAYLOAD_SIZE
              then Inl (RuntimeError (overflow_message (length buf) (length payload)))
         else store_leaf es (buf @ payload))"

definition header_bytes :: "NodeHeader \<Rightarrow> bytes" where
  "header_bytes hdr = [nh_type hdr] @ le_bytes 2 (nh_num_entries hdr) @ page_id_bytes (nh_right_sibling hdr) @ [0]"

definition store_page :: "node \<Rightarrow> bytes result" where
  "store_page nd =
     (case nd of (hdr, internal, leaf) \<Rightarrow>
        rbind (if nh_type hdr = NInternal then store_internal internal (header_bytes hdr)
               else store_leaf leaf (header_bytes hdr))
          (\<lambda>buf. Inr (buf @ replicate (DATA_PAGE_PAYLOAD_SIZE - length buf) 0)))"

definition saveNode :: "PageId \<Rightarrow> node \<Rightarrow> Pager \<Rightarrow> Pager result" where
  "saveNode pid nd pg =
     rbind (store_page nd) (\<lambda>page. rbind (writePage (Some pid) page pg) (\<lambda>(pg, _). Inr pg))"

section \<open>Round trips\<close>

definition tuple_fits :: "Tuple \<Rightarrow> bool" where
  "tuple_fits t \<longleftrightarrow> tuple_wf t \<and> distinct (map fst (tcolumns t)) \<and> length (tcolumns t) < 2 ^ 32
     \<and> length (encodeTuple t) < 2 ^ 32
     \<and> (\<forall>(n, v) \<in> set (tcolumns t). length n < 2 ^ 32 \<and> value_fits v)"

lemma update_fresh_key: "n \<notin> fst ` set cs \<Longrightarrow> AList.update n v cs = cs @ [(n, v)]"
  by (induction cs) auto

lemma u32_at_le_bytes: "off = length pre \<Longrightarrow> u32_at (pre @ le_bytes 4 (w :: u32) @ rest) off = unat w"
  by (simp add: u32_at_def le_word_le_bytes)

lemma decode_columns_append:
  assumes "off = length pre" "tuple_wf t" "distinct (map fst (tcolumns t @ cs))"
    "\<forall>(n, v) \<in> set cs. length n < 2 ^ 32 \<and> value_fits v"
  shows "decode_columns (length cs) (pre @ concat (map encode_column cs) @ rest) off t =
     Inr (Tuple_of (tcolumns t @ cs), off + length (concat (map encode_column cs)))"
  using assms
proof (induction cs arbitrary: pre off t)
  case Nil
  have "t = Tuple_of (tcolumns t)" using Nil(2) tuple_wf_of [of "tcolumns t"] by (simp add: tuple_wf_def)
  then show ?case by simp
next
  case (Cons c cs)
  obtain n v where c: "c = (n, v)" by (cases c)
  let ?tail = "concat (map encode_column cs) @ rest"
  let ?data = "pre @ concat (map encode_column (c # cs)) @ rest"
  let ?pre = "pre @ le_bytes 4 (of_nat (length n) :: u32) @ map byte_of_char n"
  have data: "?data = ?pre @ toBytes v @ ?tail" "?data = pre @ le_bytes 4 (of_nat (length n) :: u32) @ map byte_of_char n @ toBytes v @ ?tail"
    by (simp_all add: c encode_column_def)
  have nl: "length n < 2 ^ 32" "value_fits v" using Cons.prems(4) c by auto
  have u: "u32_at ?data off = length n" unfolding data(2) using Cons.prems(1) nl by (simp add: u32_at_le_bytes)
  have v: "fromBytes ?data (off + 4 + length n) = Inr (v, off + 4 + length n + length (toBytes v))"
    unfolding data(1) by (rule fromBytes_toBytes) (use nl Cons.prems(1) in simp_all)
  have name: "map char_of_byte (take (length n) (drop (off + 4) ?data)) = n"
    unfolding data(2) using Cons.prems(1) by (simp add: comp_def)
  have cols: "tcolumns (tset t n v) = tcolumns t @ [c]"
    using Cons.prems(2,3) c by (simp add: columns_tset update_fresh_key)
  have size: "off + 4 \<le> length ?data" "off + 4 + length n \<le> length ?data"
    unfolding data(2) using Cons.prems(1) by simp_all
  have rec: "decode_columns (length cs) ((?pre @ toBytes v) @ concat (map encode_column cs) @ rest)
      (off + 4 + length n + length (toBytes v)) (tset t n v) =
      Inr (Tuple_of (tcolumns (tset t n v) @ cs), off + 4 + length n + length (toBytes v) + length (concat (map encode_column cs)))"
    by (rule Cons.IH) (use Cons.prems cols in auto)
  have "decode_columns (length (c # cs)) ?data off t = decode_columns (length cs) ?data (off + 4 + length n + length (toBytes v)) (tset t n v)"
    using u v name size by (simp add: Let_def)
  also have "\<dots> = Inr (Tuple_of (tcolumns t @ c # cs), off + length (concat (map encode_column (c # cs))))"
    using rec cols by (simp add: c encode_column_def)
  finally show ?case .
qed


lemma decodeTuple_append:
  assumes "tuple_fits t" "off = length pre"
  shows "decodeTuple (pre @ encodeTuple t @ rest) off = Inr (t, off + length (encodeTuple t))"
proof -
  let ?n = "of_nat (length (tcolumns t)) :: u32"
  let ?data = "pre @ encodeTuple t @ rest"
  have data: "?data = pre @ le_bytes 4 ?n @ concat (map encode_column (tcolumns t)) @ rest"
    "?data = (pre @ le_bytes 4 ?n) @ concat (map encode_column (tcolumns t)) @ rest"
    by (simp_all add: encodeTuple_def)
  have t: "tuple_wf t" "t = Tuple_of (tcolumns t)"
    using assms(1) tuple_wf_of [of "tcolumns t"] by (simp_all add: tuple_fits_def tuple_wf_def)
  have count: "u32_at ?data off = length (tcolumns t)"
    unfolding data(1) using assms by (simp add: u32_at_le_bytes tuple_fits_def)
  have "decode_columns (length (tcolumns t)) ?data (off + 4) Tuple_empty =
      Inr (Tuple_of (tcolumns Tuple_empty @ tcolumns t), off + 4 + length (concat (map encode_column (tcolumns t))))"
    unfolding data(2) by (rule decode_columns_append) (use assms in \<open>auto simp: tuple_fits_def\<close>)
  moreover have "off + 4 \<le> length ?data" using assms(2) by (simp add: encodeTuple_def)
  ultimately show ?thesis using count t(2) by (simp add: decodeTuple_def encodeTuple_def)
qed

definition leaf_entry_fits :: "LeafEntry \<Rightarrow> bool" where
  "leaf_entry_fits e \<longleftrightarrow> value_fits (le_key e) \<and> tuple_fits (le_payload e)"

definition internal_entry_fits :: "InternalEntry \<Rightarrow> bool" where
  "internal_entry_fits e \<longleftrightarrow> value_fits (ie_key e) \<and> ie_child e < 2 ^ 32"

definition leaf_bytes :: "LeafEntry \<Rightarrow> bytes" where
  "leaf_bytes e = leaf_fixed e @ encodeTuple (le_payload e)"

definition internal_bytes :: "InternalEntry \<Rightarrow> bytes" where
  "internal_bytes e = toBytes (ie_key e) @ page_id_bytes (ie_child e)"

text \<open>An entry decoder that undoes an encoder undoes the encoding of a list of entries.\<close>

definition decodes :: "(bytes \<Rightarrow> nat \<Rightarrow> ('e \<times> nat) result) \<Rightarrow> ('e \<Rightarrow> bytes) \<Rightarrow> 'e \<Rightarrow> bool" where
  "decodes ld enc e \<longleftrightarrow> (\<forall>pre rest. ld (pre @ enc e @ rest) (length pre) = Inr (e, length pre + length (enc e)))"

lemma load_entries_append:
  assumes "\<forall>e \<in> set es. decodes ld enc e"
  shows "load_entries ld (length es) (pre @ concat (map enc es) @ rest) (length pre) = Inr es"
  using assms
proof (induction es arbitrary: pre)
  case (Cons e es)
  have "ld (pre @ enc e @ concat (map enc es) @ rest) (length pre) = Inr (e, length (pre @ enc e))"
    using Cons.prems by (simp add: decodes_def)
  moreover have "load_entries ld (length es) ((pre @ enc e) @ concat (map enc es) @ rest) (length (pre @ enc e)) = Inr es"
    by (rule Cons.IH) (use Cons.prems in simp)
  ultimately show ?case by simp
qed simp

lemma internal_decodes: "internal_entry_fits e \<Longrightarrow> decodes load_internal_entry internal_bytes e"
proof -
  assume fits: "internal_entry_fits e"
  show ?thesis unfolding decodes_def
  proof (intro allI)
    fix pre rest :: bytes
    let ?k = "toBytes (ie_key e)" and ?c = "le_bytes 4 (of_nat (ie_child e) :: u32)"
    let ?d = "pre @ internal_bytes e @ rest"
    have d: "?d = pre @ ?k @ ?c @ rest" "?d = (pre @ ?k) @ ?c @ rest"
      by (simp_all add: internal_bytes_def page_id_bytes_def)
    have "fromBytes ?d (length pre) = Inr (ie_key e, length pre + length ?k)"
      unfolding d(1) by (rule fromBytes_toBytes) (use fits in \<open>simp_all add: internal_entry_fits_def\<close>)
    moreover have "read_word ?d (length pre + length ?k) 4 f = Inr (f (of_nat (ie_child e) :: u32), length pre + length ?k + 4)"
      for f :: "u32 \<Rightarrow> InternalEntry" unfolding d(2) by (rule read_word_append) simp_all
    ultimately show "load_internal_entry ?d (length pre) = Inr (e, length pre + length (internal_bytes e))"
      using fits by (simp add: load_internal_entry_def internal_entry_fits_def) (simp add: internal_bytes_def)
  qed
qed

lemma leaf_decodes: "leaf_entry_fits e \<Longrightarrow> decodes load_leaf_entry leaf_bytes e"
proof -
  assume fits: "leaf_entry_fits e"
  show ?thesis unfolding decodes_def
  proof (intro allI)
    fix pre rest :: bytes
    let ?k = "toBytes (le_key e)" and ?s = "le_bytes 8 (le_commitSeq e)" and ?x = "le_bytes 8 (le_txnId e)"
    let ?b = "[if le_tombstone e then 1 else 0] :: bytes" and ?t = "encodeTuple (le_payload e)"
    let ?n = "of_nat (length (encodeTuple (le_payload e))) :: u32"
    let ?l = "le_bytes 4 ?n" and ?o = "length pre + length (toBytes (le_key e))"
    let ?d = "pre @ leaf_bytes e @ rest"
    have d: "?d = pre @ ?k @ (?s @ ?x @ ?b @ ?l @ ?t @ rest)" "?d = (pre @ ?k) @ ?s @ (?x @ ?b @ ?l @ ?t @ rest)"
      "?d = (pre @ ?k @ ?s) @ ?x @ (?b @ ?l @ ?t @ rest)" "?d = (pre @ ?k @ ?s @ ?x) @ ?b @ (?l @ ?t @ rest)"
      "?d = (pre @ ?k @ ?s @ ?x @ ?b) @ ?l @ (?t @ rest)" "?d = (pre @ ?k @ ?s @ ?x @ ?b @ ?l) @ ?t @ rest"
      by (simp_all add: leaf_bytes_def leaf_fixed_def)
    have 1: "fromBytes ?d (length pre) = Inr (le_key e, ?o)"
      unfolding d(1) by (rule fromBytes_toBytes) (use fits in \<open>simp_all add: leaf_entry_fits_def\<close>)
    have 2: "read_word ?d ?o 8 id = Inr (le_commitSeq e, ?o + 8)"
      unfolding d(2) by (subst read_word_append) simp_all
    have 3: "read_word ?d (?o + 8) 8 id = Inr (le_txnId e, ?o + 16)"
      unfolding d(3) by (subst read_word_append) simp_all
    have 4: "read_bytes ?d (?o + 16) 1 = Inr ?b"
      unfolding d(4) by (rule read_bytes_append) simp_all
    have 5: "read_word ?d (?o + 17) 4 (\<lambda>w :: u32. unat w) = Inr (unat ?n, ?o + 21)"
      unfolding d(5) by (subst read_word_append) simp_all
    have 6: "decodeTuple ?d (?o + 21) = Inr (le_payload e, ?o + 21 + length ?t)"
      unfolding d(6) by (rule decodeTuple_append) (use fits in \<open>simp_all add: leaf_entry_fits_def\<close>)
    have n: "unat ?n = length ?t" using fits by (simp add: leaf_entry_fits_def tuple_fits_def)
    have stop: "?o + 21 + length ?t \<le> length ?d" unfolding d(6) by simp
    show "load_leaf_entry ?d (length pre) = Inr (e, length pre + length (leaf_bytes e))"
      using 1 2 3 4 5 6 n stop by (simp add: load_leaf_entry_def add.commute add.left_commute)
        (simp add: leaf_bytes_def leaf_fixed_def)
  qed
qed


lemma store_internal_concat:
  "length buf + length (concat (map internal_bytes es)) \<le> DATA_PAGE_PAYLOAD_SIZE \<Longrightarrow>
     store_internal es buf = Inr (buf @ concat (map internal_bytes es))"
  by (induction es arbitrary: buf) (simp_all add: Let_def internal_bytes_def)

lemma store_leaf_concat:
  "length buf + length (concat (map leaf_bytes es)) \<le> DATA_PAGE_PAYLOAD_SIZE \<Longrightarrow>
     store_leaf es buf = Inr (buf @ concat (map leaf_bytes es))"
  by (induction es arbitrary: buf) (simp_all add: Let_def leaf_bytes_def)

text \<open>A node that fits its page: the counter of its header is exact and its entries are within the format's limits.\<close>

definition node_fits :: "node \<Rightarrow> bool" where
  "node_fits nd \<longleftrightarrow>
     (case nd of (hdr, internal, leaf) \<Rightarrow>
        nh_right_sibling hdr < 2 ^ 32 \<and>
        (if nh_type hdr = NInternal
         then leaf = [] \<and> unat (nh_num_entries hdr) = length internal \<and> (\<forall>e \<in> set internal. internal_entry_fits e)
           \<and> 8 + length (concat (map internal_bytes internal)) \<le> DATA_PAGE_PAYLOAD_SIZE
         else internal = [] \<and> unat (nh_num_entries hdr) = length leaf \<and> (\<forall>e \<in> set leaf. leaf_entry_fits e)
           \<and> 8 + length (concat (map leaf_bytes leaf)) \<le> DATA_PAGE_PAYLOAD_SIZE))"

lemma length_header_bytes [simp]: "length (header_bytes hdr) = 8"
  by (simp add: header_bytes_def)

lemma header_fields:
  assumes "nh_right_sibling hdr < 2 ^ 32"
  shows "hd (header_bytes hdr @ rest) = nh_type hdr"
    "le_word (take 2 (drop 1 (header_bytes hdr @ rest))) = nh_num_entries hdr"
    "u32_at (header_bytes hdr @ rest) 3 = nh_right_sibling hdr"
proof -
  show "hd (header_bytes hdr @ rest) = nh_type hdr" by (simp add: header_bytes_def)
  show "le_word (take 2 (drop 1 (header_bytes hdr @ rest))) = nh_num_entries hdr"
    by (simp add: header_bytes_def le_word_le_bytes)
  show "u32_at (header_bytes hdr @ rest) 3 = nh_right_sibling hdr"
    using u32_at_page_id [OF assms, of 3 "[nh_type hdr] @ le_bytes 2 (nh_num_entries hdr)" "[0] @ rest"]
    by (simp add: header_bytes_def)
qed

lemma load_store_page: "node_fits nd \<Longrightarrow> \<exists>page. store_page nd = Inr page \<and> length page = DATA_PAGE_PAYLOAD_SIZE \<and> load_page page = Inr nd"
proof -
  assume fits: "node_fits nd"
  obtain hdr internal leaf where nd: "nd = (hdr, internal, leaf)" by (cases nd)
  have sib: "nh_right_sibling hdr < 2 ^ 32" using fits by (simp add: nd node_fits_def)
  define enc where "enc = (if nh_type hdr = NInternal then concat (map internal_bytes internal) else concat (map leaf_bytes leaf))"
  define pad where "pad = replicate (DATA_PAGE_PAYLOAD_SIZE - (8 + length enc)) (0 :: u8)"
  let ?page = "header_bytes hdr @ enc @ pad"
  have size: "8 + length enc \<le> DATA_PAGE_PAYLOAD_SIZE" using fits by (auto simp: nd node_fits_def enc_def)
  have "store_page nd = Inr ?page"
    using size by (simp add: store_page_def nd enc_def pad_def store_internal_concat store_leaf_concat split: if_splits)
  moreover have "length ?page = DATA_PAGE_PAYLOAD_SIZE" using size by (simp add: pad_def)
  moreover have "load_page ?page = Inr nd"
  proof (cases "nh_type hdr = NInternal")
    case True
    have "load_entries load_internal_entry (length internal) (header_bytes hdr @ concat (map internal_bytes internal) @ pad)
        (length (header_bytes hdr)) = Inr internal"
      by (rule load_entries_append) (use fits True internal_decodes in \<open>auto simp: nd node_fits_def\<close>)
    then show ?thesis using True fits header_fields [OF sib]
      by (simp add: load_page_def Let_def enc_def nd node_fits_def)
  next
    case False
    have "load_entries load_leaf_entry (length leaf) (header_bytes hdr @ concat (map leaf_bytes leaf) @ pad)
        (length (header_bytes hdr)) = Inr leaf"
      by (rule load_entries_append) (use fits False leaf_decodes in \<open>auto simp: nd node_fits_def\<close>)
    then show ?thesis using False fits header_fields [OF sib]
      by (simp add: load_page_def Let_def enc_def nd node_fits_def)
  qed
  ultimately show ?thesis by blast
qed

lemma save_then_load:
  assumes "pg_ok pg" "node_fits nd" "1 \<le> i" "i < pg_pageCount pg"
  shows "\<exists>pg'. saveNode i nd pg = Inr pg' \<and> pg_ok pg' \<and> loadNode pg' i = Inr nd \<and> pg_pageCount pg' = pg_pageCount pg
    \<and> pg_alloc pg' = pg_alloc pg \<and> (\<forall>j. j \<noteq> i \<longrightarrow> loadNode pg' j = loadNode pg j) \<and> pg' = pg\<lparr>pg_file := pg_file pg'\<rparr>"
proof -
  obtain page where page: "store_page nd = Inr page" "length page = DATA_PAGE_PAYLOAD_SIZE" "load_page page = Inr nd"
    using load_store_page [OF assms(2)] by blast
  obtain pg' where pg': "writePage (Some i) page pg = Inr (pg', i)" "pg_ok pg'" "readPage pg' i = Some page"
      "\<forall>j. j \<noteq> i \<longrightarrow> readPage pg' j = readPage pg j" "pg' = pg\<lparr>pg_file := pg_file pg'\<rparr>"
    using write_then_read [OF assms(1,3,4) page(2)] by blast
  have "pg_pageCount pg' = pg_pageCount pg \<and> pg_alloc pg' = pg_alloc pg"
    using pg'(1) page(2) assms(3,4) by (auto simp: writePage_def writeRaw_def put_page_def)
  then show ?thesis using pg'(1-4) page pg'(5) by (intro exI [of _ pg']) (simp add: saveNode_def loadNode_def)
qed

text \<open>
  C29. Nodes survive their page: a leaf or internal node that fits is saved without error, the next
  load of that page returns it entry by entry (keys, versions, tombstones and rows included), and
  no other page of the file changes.
\<close>
theorem node_roundtrip:
  assumes "pg_ok pg" "node_fits nd" "1 \<le> i" "i < pg_pageCount pg"
  shows "\<exists>pg'. saveNode i nd pg = Inr pg' \<and> loadNode pg' i = Inr nd \<and> (\<forall>j. j \<noteq> i \<longrightarrow> loadNode pg' j = loadNode pg j)"
  using save_then_load [OF assms] by blast



section \<open>Witnesses\<close>

definition demo_entry :: "32 word \<Rightarrow> LeafEntry" where
  "demo_entry i = \<lparr>le_key = VInt32 i, le_commitSeq = 1, le_txnId = 1, le_tombstone = False,
     le_payload = Tuple_of [(''_id'', VInt32 i)]\<rparr>"

definition demo_leaf :: node where
  "demo_leaf = (\<lparr>nh_type = NLeaf, nh_num_entries = 1, nh_right_sibling = 0\<rparr>, [], [demo_entry 5])"

lemma demo_entry_fits: "leaf_entry_fits (demo_entry i)" "length (leaf_bytes (demo_entry i)) = 42"
  by (simp_all add: demo_entry_def leaf_entry_fits_def tuple_fits_def leaf_bytes_def leaf_fixed_def encodeTuple_def
      encode_column_def toBytes_def)

lemma demo_leaf_fits: "node_fits demo_leaf"
  by (simp add: node_fits_def demo_leaf_def NLeaf_def NInternal_def demo_entry_fits page_sizes)

lemma demo_saved: "\<exists>pg. pg_ok pg \<and> loadNode pg 1 = Inr demo_leaf"
  using save_then_load [OF demo_pager_ok demo_leaf_fits, of 1] by (auto simp: demo_pager_def)

theorem node_roundtrip_witness:
  "node_fits demo_leaf \<and> (\<exists>pg'. saveNode 1 demo_leaf demo_pager = Inr pg' \<and> loadNode pg' 1 = Inr demo_leaf)"
  using node_roundtrip [OF demo_pager_ok demo_leaf_fits, of 1] demo_leaf_fits by (auto simp: demo_pager_def)


end
