(* ===== verification/BTree_Ops.thy ===== *)
theory BTree_Ops
  imports Node_Codec
begin

text \<open>
  The multi-version B+tree of the file engine (\<open>src/src/BTree.cpp\<close>, \<open>storage/BTree.hpp\<close>) over the
  pages of theory \<open>Page_File\<close>. A tree is a pager and the page of its root. Descents, the search for
  a parent and walks along the leaves follow page numbers that a damaged file may tie into a ring, so
  they are partial: \<open>None\<close> is a loop that does not end, \<open>Some (Inl e)\<close> an exception.
\<close>

section \<open>Lookup\<close>

record LookupResult =
  lr_found :: bool
  lr_commitSeq :: u64
  lr_txnId :: u64
  lr_tombstone :: bool
  lr_payload :: Tuple

definition no_result :: LookupResult where
  "no_result = \<lparr>lr_found = False, lr_commitSeq = 0, lr_txnId = 0, lr_tombstone = False, lr_payload = Tuple_empty\<rparr>"

definition found_entry :: "LeafEntry \<Rightarrow> LookupResult" where
  "found_entry e = \<lparr>lr_found = True, lr_commitSeq = le_commitSeq e, lr_txnId = le_txnId e,
     lr_tombstone = le_tombstone e, lr_payload = le_payload e\<rparr>"

definition visible_entry :: "TxnId \<Rightarrow> u64 \<Rightarrow> LeafEntry \<Rightarrow> bool" where
  "visible_entry txn visible_seq e =
     (if le_commitSeq e = 0 then le_txnId e = txn else le_commitSeq e \<le> visible_seq)"

text \<open>The scan over the separators: the last child whose key is not above \<open>key\<close>, stopping at the first that is.\<close>

fun child_for :: "Value \<Rightarrow> InternalEntry list \<Rightarrow> PageId \<Rightarrow> PageId" where
  "child_for key [] nxt = nxt"
| "child_for key (e # es) nxt = (if value_ge key (ie_key e) then child_for key es (ie_child e) else nxt)"

definition next_child :: "Value \<Rightarrow> InternalEntry list \<Rightarrow> PageId result" where
  "next_child key es =
     (let nxt = child_for key es 0
      in if nxt \<noteq> 0 then Inr nxt else if es = [] then Inl Undefined else Inr (ie_child (hd es)))"

partial_function (option) findLeaf :: "Pager \<Rightarrow> Value \<Rightarrow> PageId \<Rightarrow> PageId result option" where
  "findLeaf pg key cur =
     (case loadNode pg cur of
        Inl e \<Rightarrow> Some (Inl e)
      | Inr (hdr, internal, leaf) \<Rightarrow>
          if nh_type hdr = NLeaf then Some (Inr cur)
          else case next_child key internal of
                 Inl e \<Rightarrow> Some (Inl e)
               | Inr nxt \<Rightarrow> findLeaf pg key nxt)"

definition lookup_leaf :: "Value \<Rightarrow> TxnId \<Rightarrow> u64 \<Rightarrow> LeafEntry list \<Rightarrow> LookupResult" where
  "lookup_leaf key txn visible_seq leaf =
     (case find (\<lambda>e. \<not> value_ne (le_key e) key \<and> visible_entry txn visible_seq e) leaf of
        None \<Rightarrow> no_result | Some e \<Rightarrow> found_entry e)"

definition bt_get :: "Pager \<Rightarrow> PageId \<Rightarrow> Value \<Rightarrow> TxnId \<Rightarrow> u64 \<Rightarrow> LookupResult result option" where
  "bt_get pg root key txn visible_seq =
     (case findLeaf pg key root of
        None \<Rightarrow> None
      | Some r \<Rightarrow> Some (rbind r (\<lambda>leaf_id. rbind (loadNode pg leaf_id)
          (\<lambda>(hdr, internal, leaf). Inr (lookup_leaf key txn visible_seq leaf)))))"

section \<open>Insertion\<close>

definition MAX_LEAF_ENTRIES :: u16 where "MAX_LEAF_ENTRIES = 64"
definition MAX_INTERNAL_ENTRIES :: u16 where "MAX_INTERNAL_ENTRIES = 128"

definition newPage :: "u8 \<Rightarrow> Pager \<Rightarrow> (Pager \<times> PageId) result" where
  "newPage ty pg =
     rbind (allocatePage pg) (\<lambda>(pg, pid).
     rbind (saveNode pid (\<lparr>nh_type = ty, nh_num_entries = 0, nh_right_sibling = 0\<rparr>, [], []) pg) (\<lambda>pg. Inr (pg, pid)))"

definition createNew :: "Pager \<Rightarrow> (Pager \<times> PageId) result" where
  "createNew pg = newPage NLeaf pg"

definition goes_before :: "LeafEntry \<Rightarrow> LeafEntry \<Rightarrow> bool" where
  "goes_before e f \<longleftrightarrow> value_less (le_key e) (le_key f)
     \<or> value_eq (le_key e) (le_key f) \<and> le_commitSeq e > le_commitSeq f
     \<or> value_eq (le_key e) (le_key f) \<and> le_commitSeq e = le_commitSeq f \<and> le_txnId e < le_txnId f"

fun insert_entry :: "LeafEntry \<Rightarrow> LeafEntry list \<Rightarrow> LeafEntry list" where
  "insert_entry e [] = [e]"
| "insert_entry e (f # fs) = (if goes_before e f then e # f # fs else f # insert_entry e fs)"

definition same_version :: "LeafEntry \<Rightarrow> LeafEntry \<Rightarrow> bool" where
  "same_version e f \<longleftrightarrow> value_eq (le_key f) (le_key e) \<and> le_commitSeq f = le_commitSeq e \<and> le_txnId f = le_txnId e"

definition approxBytes :: "LeafEntry list \<Rightarrow> nat" where
  "approxBytes leaf =
     sum_list (map (\<lambda>e. length (toBytes (le_key e)) + 8 + 8 + 1 + 4 + length (encodeTuple (le_payload e))) leaf)"

definition splitLeaf :: "PageId \<Rightarrow> NodeHeader \<Rightarrow> LeafEntry list \<Rightarrow> Pager \<Rightarrow> (Pager \<times> PageId \<times> Value) result" where
  "splitLeaf leaf_id hdr es pg =
     (let mid = length es div 2; left = take mid es; right = drop mid es
      in if right = [] then Inl Undefined
         else rbind (newPage NLeaf pg) (\<lambda>(pg, new_right).
              rbind (saveNode leaf_id (\<lparr>nh_type = NLeaf, nh_num_entries = of_nat (length left), nh_right_sibling = new_right\<rparr>, [], left) pg) (\<lambda>pg.
              rbind (saveNode new_right (\<lparr>nh_type = NLeaf, nh_num_entries = of_nat (length right), nh_right_sibling = nh_right_sibling hdr\<rparr>, [], right) pg) (\<lambda>pg.
                Inr (pg, new_right, le_key (hd right))))))"

definition splitInternal :: "PageId \<Rightarrow> InternalEntry list \<Rightarrow> Pager \<Rightarrow> (Pager \<times> PageId \<times> Value) result" where
  "splitInternal internal_id es pg =
     (let mid = length es div 2; left = take mid es; right = drop mid es
      in if right = [] then Inl Undefined
         else rbind (newPage NInternal pg) (\<lambda>(pg, new_right).
              rbind (saveNode internal_id (\<lparr>nh_type = NInternal, nh_num_entries = of_nat (length left), nh_right_sibling = 0\<rparr>, left, []) pg) (\<lambda>pg.
              rbind (saveNode new_right (\<lparr>nh_type = NInternal, nh_num_entries = of_nat (length right), nh_right_sibling = 0\<rparr>, right, []) pg) (\<lambda>pg.
                Inr (pg, new_right, ie_key (hd right))))))"

text \<open>The depth-first search for the parent of a page; 0 is not found. The stack is a list with its top first.\<close>

partial_function (option) find_parent :: "Pager \<Rightarrow> PageId \<Rightarrow> PageId list \<Rightarrow> PageId result option" where
  "find_parent pg left stack =
     (case stack of
        [] \<Rightarrow> Some (Inr 0)
      | cur # rest \<Rightarrow>
          (case loadNode pg cur of
             Inl e \<Rightarrow> Some (Inl e)
           | Inr (hdr, internal, leaf) \<Rightarrow>
               if nh_type hdr \<noteq> NInternal then find_parent pg left rest
               else if left \<in> ie_child ` set internal \<and> cur \<noteq> 0 then Some (Inr cur)
               else find_parent pg left (rev (map ie_child internal) @ rest)))"

fun insert_separator :: "Value \<Rightarrow> PageId \<Rightarrow> InternalEntry list \<Rightarrow> InternalEntry list" where
  "insert_separator k c [] = [\<lparr>ie_key = k, ie_child = c\<rparr>]"
| "insert_separator k c (e # es) =
     (if value_ge k (ie_key e) then e # insert_separator k c es else \<lparr>ie_key = k, ie_child = c\<rparr> # e # es)"

text \<open>A new root above an old root that is a leaf.\<close>

definition grow_root :: "PageId \<Rightarrow> Value \<Rightarrow> PageId \<Rightarrow> Pager \<Rightarrow> (Pager \<times> PageId) result" where
  "grow_root old_root key right pg =
     rbind (newPage NInternal pg) (\<lambda>(pg, new_root).
     rbind (saveNode new_root (\<lparr>nh_type = NInternal, nh_num_entries = 2, nh_right_sibling = 0\<rparr>,
              [\<lparr>ie_key = VNull, ie_child = old_root\<rparr>, \<lparr>ie_key = key, ie_child = right\<rparr>], []) pg) (\<lambda>pg.
       Inr (pg, new_root)))"

definition parent_insert :: "PageId \<Rightarrow> Value \<Rightarrow> PageId \<Rightarrow> Pager \<Rightarrow> (Pager \<times> (PageId \<times> Value) option) result" where
  "parent_insert parent key right pg =
     rbind (loadNode pg parent) (\<lambda>(phdr, pinternal, pleaf).
       let es = insert_separator key right pinternal; n = nh_num_entries phdr + 1
       in if n \<le> MAX_INTERNAL_ENTRIES
          then rbind (saveNode parent (phdr\<lparr>nh_num_entries := n\<rparr>, es, pleaf) pg) (\<lambda>pg. Inr (pg, None))
          else rbind (splitInternal parent es pg) (\<lambda>(pg, new_right, promoted). Inr (pg, Some (new_right, promoted))))"

partial_function (option) insertIntoParent ::
  "Pager \<Rightarrow> PageId \<Rightarrow> PageId \<Rightarrow> Value \<Rightarrow> PageId \<Rightarrow> (Pager \<times> PageId) result option" where
  "insertIntoParent pg root left key right =
     (case loadNode pg root of
        Inl e \<Rightarrow> Some (Inl e)
      | Inr (rhdr, rinternal, rleaf) \<Rightarrow>
          if nh_type rhdr = NLeaf then Some (grow_root root key right pg)
          else (case find_parent pg left [root] of
                  None \<Rightarrow> None
                | Some (Inl e) \<Rightarrow> Some (Inl e)
                | Some (Inr parent) \<Rightarrow>
                    if parent = 0 then Some (Inl (RuntimeError ''insertIntoParent: parent of left_child not found''))
                    else (case parent_insert parent key right pg of
                            Inl e \<Rightarrow> Some (Inl e)
                          | Inr (pg, None) \<Rightarrow> Some (Inr (pg, root))
                          | Inr (pg, Some (new_right, promoted)) \<Rightarrow> insertIntoParent pg root parent promoted new_right)))"

text \<open>\<open>put\<close> below the descent: the pager, the root and whether an entry was added.\<close>

definition put_at :: "Pager \<Rightarrow> PageId \<Rightarrow> PageId \<Rightarrow> LeafEntry \<Rightarrow> (Pager \<times> PageId \<times> bool) result option" where
  "put_at pg root leaf_id e =
     (case loadNode pg leaf_id of
        Inl err \<Rightarrow> Some (Inl err)
      | Inr (hdr, internal, leaf) \<Rightarrow>
          if \<exists>f \<in> set leaf. same_version e f then Some (Inr (pg, root, False))
          else let leaf = insert_entry e leaf; hdr = hdr\<lparr>nh_num_entries := nh_num_entries hdr + 1\<rparr>
               in if nh_num_entries hdr > MAX_LEAF_ENTRIES \<or> approxBytes leaf > DATA_PAGE_PAYLOAD_SIZE - 64
                  then (case splitLeaf leaf_id hdr leaf pg of
                          Inl err \<Rightarrow> Some (Inl err)
                        | Inr (pg, new_right, promoted) \<Rightarrow>
                            map_option (\<lambda>r. rbind r (\<lambda>(pg, root). Inr (pg, root, True)))
                              (insertIntoParent pg root leaf_id promoted new_right))
                  else Some (rbind (saveNode leaf_id (hdr, internal, leaf) pg) (\<lambda>pg. Inr (pg, root, True))))"

definition bt_put :: "Pager \<Rightarrow> PageId \<Rightarrow> LeafEntry \<Rightarrow> (Pager \<times> PageId \<times> bool) result option" where
  "bt_put pg root e =
     (case findLeaf pg (le_key e) root of
        None \<Rightarrow> None
      | Some (Inl err) \<Rightarrow> Some (Inl err)
      | Some (Inr leaf_id) \<Rightarrow> put_at pg root leaf_id e)"

section \<open>Walks\<close>

partial_function (option) leftmost :: "Pager \<Rightarrow> PageId \<Rightarrow> PageId result option" where
  "leftmost pg cur =
     (case loadNode pg cur of
        Inl e \<Rightarrow> Some (Inl e)
      | Inr (hdr, internal, leaf) \<Rightarrow>
          if nh_type hdr = NLeaf then Some (Inr cur)
          else if internal = [] then Some (Inl Undefined)
          else leftmost pg (ie_child (hd internal)))"

text \<open>A callback updates its own state and says whether to go on.\<close>

fun call_each :: "('b \<Rightarrow> 'a \<Rightarrow> 'a \<times> bool) \<Rightarrow> 'b list \<Rightarrow> 'a \<Rightarrow> 'a \<times> bool" where
  "call_each cb [] s = (s, True)"
| "call_each cb (x # xs) s = (let (s, go) = cb x s in if go then call_each cb xs s else (s, False))"

text \<open>
  The groups of one leaf. The key group of an entry is skipped by tag-true equality, so the loop
  stays in place on a NaN key; \<open>None\<close> is that loop.
\<close>

partial_function (option) leaf_rows ::
  "TxnId \<Rightarrow> u64 \<Rightarrow> LeafEntry list \<Rightarrow> (Value \<times> LookupResult) list option" where
  "leaf_rows txn visible_seq leaf =
     (case leaf of
        [] \<Rightarrow> Some []
      | e # es \<Rightarrow>
          Option.bind (leaf_rows txn visible_seq (dropWhile (\<lambda>f. value_eq (le_key f) (le_key e)) (e # es)))
            (\<lambda>out. Some (case find (visible_entry txn visible_seq) (takeWhile (\<lambda>f. value_eq (le_key f) (le_key e)) (e # es)) of
                            None \<Rightarrow> out | Some f \<Rightarrow> (le_key e, found_entry f) # out)))"

partial_function (option) scan_chain ::
  "(LeafEntry list \<Rightarrow> 'b list option) \<Rightarrow> ('b \<Rightarrow> 'a \<Rightarrow> 'a \<times> bool) \<Rightarrow> Pager \<Rightarrow> PageId \<Rightarrow> 'a \<Rightarrow> 'a result option" where
  "scan_chain emits cb pg cur s =
     (if cur = 0 then Some (Inr s)
      else case loadNode pg cur of
             Inl e \<Rightarrow> Some (Inl e)
           | Inr (hdr, internal, leaf) \<Rightarrow>
               (case emits leaf of
                  None \<Rightarrow> None
                | Some xs \<Rightarrow>
                    (let (s, go) = call_each cb xs s
                     in if go then scan_chain emits cb pg (nh_right_sibling hdr) s else Some (Inr s))))"

definition bt_scan ::
  "Pager \<Rightarrow> PageId \<Rightarrow> TxnId \<Rightarrow> u64 \<Rightarrow> (Value \<times> LookupResult \<Rightarrow> 'a \<Rightarrow> 'a \<times> bool) \<Rightarrow> 'a \<Rightarrow> 'a result option" where
  "bt_scan pg root txn visible_seq cb s =
     (case leftmost pg root of
        None \<Rightarrow> None
      | Some (Inl e) \<Rightarrow> Some (Inl e)
      | Some (Inr cur) \<Rightarrow> scan_chain (leaf_rows txn visible_seq) cb pg cur s)"

definition bt_scanAll :: "Pager \<Rightarrow> PageId \<Rightarrow> (LeafEntry \<Rightarrow> 'a \<Rightarrow> 'a \<times> bool) \<Rightarrow> 'a \<Rightarrow> 'a result option" where
  "bt_scanAll pg root cb s =
     (case leftmost pg root of
        None \<Rightarrow> None
      | Some (Inl e) \<Rightarrow> Some (Inl e)
      | Some (Inr cur) \<Rightarrow> scan_chain Some cb pg cur s)"

section \<open>Freeing a tree\<close>

lemma freePage_pageCount: "freePage pid pg = Inr pg' \<Longrightarrow> pg_pageCount pg' = pg_pageCount pg"
  by (auto simp: freePage_def rbind_Inr_iff split: if_splits)

lemma loadNode_in_file: "loadNode pg pid = Inr nd \<Longrightarrow> pid < pg_pageCount pg"
  by (auto simp: loadNode_def readPage_def split: option.splits if_splits)

text \<open>The walk ends: it visits each page of the file at most once, and the file does not grow.\<close>

function free_pages_dfs :: "Pager \<Rightarrow> PageId list \<Rightarrow> PageId list \<Rightarrow> Pager result" where
  "free_pages_dfs pg visited [] = Inr pg"
| "free_pages_dfs pg visited (pid # stack) =
     (if pid = 0 \<or> pid \<in> set visited then free_pages_dfs pg visited stack
      else case loadNode pg pid of
             Inl e \<Rightarrow> Inl e
           | Inr (hdr, internal, leaf) \<Rightarrow>
               (case freePage pid pg of
                  Inl e \<Rightarrow> Inl e
                | Inr pg' \<Rightarrow>
                    free_pages_dfs pg' (pid # visited)
                      ((if nh_type hdr = NInternal then rev (filter (\<lambda>c. c \<noteq> 0) (map ie_child internal)) else []) @ stack)))"
  by pat_completeness auto
termination
proof (relation "measures [\<lambda>(pg, visited, stack). card ({..<pg_pageCount pg} - set visited), \<lambda>(pg, visited, stack). length stack]", goal_cases)
  case (3 pg visited pid stack nd hdr il internal leaf pg')
  then have "pid < pg_pageCount pg" "pg_pageCount pg' = pg_pageCount pg" "pid \<notin> set visited"
    using loadNode_in_file freePage_pageCount by auto
  then have "{..<pg_pageCount pg'} - set (pid # visited) \<subset> {..<pg_pageCount pg} - set visited" by auto
  then show ?case by (simp add: psubset_card_mono)
qed simp_all

definition freeAllPages :: "Pager \<Rightarrow> PageId \<Rightarrow> (Pager \<times> PageId) result" where
  "freeAllPages pg root =
     (if root = 0 then Inr (pg, root) else rbind (free_pages_dfs pg [] [root]) (\<lambda>pg. Inr (pg, 0)))"

end
