(* ===== verification/File_Metadata.thy ===== *)
theory File_Metadata
  imports Provider_Contract BTree_Ops
begin

text \<open>
  The metadata page of the file provider (\<open>saveMetadata\<close>, \<open>loadMetadata\<close> of
  \<open>storage/LocalFileStorageProvider.hpp\<close>): sequence counters and the table registry with its schemas
  in one page. The writer has no bounds check, so a registry that does not fit is \<open>Undefined\<close>; the
  reader checks every field. A reader consumes the rest of the page: \<open>Inr None\<close> is its
  \<open>return false\<close>; a byte that names no enumerator is outside the model (\<open>Undefined\<close>).
\<close>

section \<open>State\<close>

record TableInfo =
  ti_schema :: Schema
  ti_rootPageId :: PageId
  ti_autoId :: u64

record Metadata =
  md_visible_seq :: u64
  md_internal_seq :: u64
  md_tables :: "(string \<times> TableInfo) list"

section \<open>Writer\<close>

definition enc_string :: "string \<Rightarrow> bytes" where
  "enc_string s = le_bytes 4 (of_nat (length s) :: u32) @ map byte_of_char s"

definition enc_bool :: "bool \<Rightarrow> bytes" where
  "enc_bool b = [if b then 1 else 0]"

definition enc_extensions :: "(string \<times> string) list \<Rightarrow> bytes" where
  "enc_extensions es = le_bytes 4 (of_nat (length es) :: u32) @ concat (map (\<lambda>(k, v). enc_string k @ enc_string v) es)"

definition enc_column :: "ColumnDef \<Rightarrow> bytes" where
  "enc_column c = enc_string (cd_name c) @ [of_nat (tag_index (cd_type c))] @ enc_bool (cd_nullable c)
     @ enc_bool (cd_primaryKey c) @ le_bytes 8 (cd_maxByteLength c) @ enc_extensions (cd_extensions c)"

primrec kind_byte :: "PartitionKind \<Rightarrow> u8" where
  "kind_byte PNone = 0"
| "kind_byte PHash = 1"
| "kind_byte PRange = 2"
| "kind_byte PList = 3"

definition enc_partition :: "PartitionPolicy option \<Rightarrow> bytes" where
  "enc_partition p =
     (case p of
        None \<Rightarrow> [0]
      | Some pp \<Rightarrow> [1, kind_byte (pp_kind pp)] @ enc_string (pp_column pp) @ le_bytes 4 (pp_shardCount pp))"

definition enc_table :: "string \<times> TableInfo \<Rightarrow> bytes" where
  "enc_table t =
     (case t of (name, info) \<Rightarrow>
        enc_string name @ page_id_bytes (ti_rootPageId info) @ le_bytes 8 (ti_autoId info)
          @ le_bytes 4 (of_nat (length (sc_columns (ti_schema info))) :: u32)
          @ concat (map enc_column (sc_columns (ti_schema info))) @ enc_partition (sc_partition (ti_schema info)))"

definition enc_metadata :: "Metadata \<Rightarrow> bytes" where
  "enc_metadata md = le_bytes 8 (md_visible_seq md) @ le_bytes 8 (md_internal_seq md)
     @ le_bytes 4 (of_nat (length (md_tables md)) :: u32) @ concat (map enc_table (md_tables md))"

definition saveMetadata :: "PageId \<Rightarrow> Metadata \<Rightarrow> Pager \<Rightarrow> Pager result" where
  "saveMetadata meta md pg =
     (let buf = enc_metadata md
      in if length buf > DATA_PAGE_PAYLOAD_SIZE then Inl Undefined
         else rbind (writePage (Some meta) (buf @ replicate (DATA_PAGE_PAYLOAD_SIZE - length buf) 0) pg)
                (\<lambda>(pg, _). Inr pg))"

section \<open>Reader\<close>

type_synonym 'a reader = "bytes \<Rightarrow> ('a \<times> bytes) option result"

definition rd_bind :: "'a reader \<Rightarrow> ('a \<Rightarrow> 'b reader) \<Rightarrow> 'b reader" where
  "rd_bind r f bs = rbind (r bs) (\<lambda>x. case x of None \<Rightarrow> Inr None | Some (a, rest) \<Rightarrow> f a rest)"

definition rd_return :: "'a \<Rightarrow> 'a reader" where
  "rd_return a bs = Inr (Some (a, bs))"

definition rd_take :: "nat \<Rightarrow> bytes reader" where
  "rd_take n bs = (if n > length bs then Inr None else Inr (Some (take n bs, drop n bs)))"

definition rd_word :: "nat \<Rightarrow> ('a::len word) reader" where
  "rd_word n = rd_bind (rd_take n) (\<lambda>b. rd_return (le_word b))"

definition rd_u32 :: "nat reader" where
  "rd_u32 = rd_bind (rd_word 4) (\<lambda>w :: u32. rd_return (unat w))"

definition rd_string :: "string reader" where
  "rd_string = rd_bind rd_u32 (\<lambda>n. rd_bind (rd_take n) (\<lambda>b. rd_return (map char_of_byte b)))"

fun rd_fold :: "('a \<Rightarrow> 'a reader) \<Rightarrow> nat \<Rightarrow> 'a \<Rightarrow> 'a reader" where
  "rd_fold f 0 acc = rd_return acc"
| "rd_fold f (Suc n) acc = rd_bind (f acc) (rd_fold f n)"

definition rd_extension :: "(string \<times> string) list \<Rightarrow> (string \<times> string) list reader" where
  "rd_extension es = rd_bind rd_string (\<lambda>k. rd_bind rd_string (\<lambda>v. rd_return (AList.update k v es)))"

definition rd_fixed :: "string \<Rightarrow> bytes \<Rightarrow> ColumnDef reader" where
  "rd_fixed name b rest =
     (case tag_of_byte (b ! 0) of
        None \<Rightarrow> Inl Undefined
      | Some ty \<Rightarrow> Inr (Some (ColumnDef_init\<lparr>cd_name := name, cd_type := ty, cd_nullable := b ! 1 \<noteq> 0,
          cd_primaryKey := b ! 2 \<noteq> 0, cd_maxByteLength := le_word (drop 3 b)\<rparr>, rest)))"

definition rd_column :: "ColumnDef reader" where
  "rd_column =
     rd_bind rd_string (\<lambda>name.
     rd_bind (rd_take 11) (\<lambda>b.
     rd_bind (rd_fixed name b) (\<lambda>col.
     rd_bind rd_u32 (\<lambda>n.
     rd_bind (rd_fold rd_extension n []) (\<lambda>es. rd_return (col\<lparr>cd_extensions := es\<rparr>))))))"

definition rd_columns :: "ColumnDef list \<Rightarrow> ColumnDef list reader" where
  "rd_columns cs = rd_bind rd_column (\<lambda>c. rd_return (cs @ [c]))"

definition kind_of_byte :: "u8 \<Rightarrow> PartitionKind option" where
  "kind_of_byte b = (if b = 0 then Some PNone else if b = 1 then Some PHash else if b = 2 then Some PRange
     else if b = 3 then Some PList else None)"

definition rd_kind :: "PartitionKind reader" where
  "rd_kind = rd_bind (rd_take 1) (\<lambda>b rest. case kind_of_byte (b ! 0) of None \<Rightarrow> Inl Undefined | Some k \<Rightarrow> Inr (Some (k, rest)))"

definition rd_partition :: "PartitionPolicy option reader" where
  "rd_partition =
     rd_bind (rd_take 1) (\<lambda>b.
       if b ! 0 = 0 then rd_return None
       else rd_bind rd_kind (\<lambda>k.
            rd_bind rd_string (\<lambda>col.
            rd_bind (rd_word 4) (\<lambda>n.
              rd_return (Some (PartitionPolicy_init\<lparr>pp_kind := k, pp_column := col, pp_shardCount := n\<rparr>))))))"

definition rd_table :: "(string \<times> TableInfo) reader" where
  "rd_table =
     rd_bind rd_string (\<lambda>name.
     rd_bind rd_u32 (\<lambda>root.
     rd_bind (rd_word 8) (\<lambda>auto.
     rd_bind rd_u32 (\<lambda>n.
     rd_bind (rd_fold rd_columns n []) (\<lambda>cs.
     rd_bind rd_partition (\<lambda>p.
       rd_return (name, \<lparr>ti_schema = \<lparr>sc_table = name, sc_columns = cs, sc_partition = p\<rparr>,
         ti_rootPageId = root, ti_autoId = auto\<rparr>)))))))"

text \<open>The table loop; a failure keeps the tables read so far.\<close>

fun load_tables :: "nat \<Rightarrow> bytes \<Rightarrow> (string \<times> TableInfo) list \<Rightarrow> ((string \<times> TableInfo) list \<times> bool) result" where
  "load_tables 0 bs ts = Inr (ts, True)"
| "load_tables (Suc n) bs ts =
     rbind (rd_table bs) (\<lambda>r. case r of
        None \<Rightarrow> Inr (ts, False)
      | Some ((name, info), rest) \<Rightarrow> load_tables n rest (AList.update name info ts))"

definition decode_metadata :: "bytes \<Rightarrow> Metadata \<Rightarrow> (Metadata \<times> bool) result" where
  "decode_metadata buf md =
     rbind (rd_bind (rd_word 8) (\<lambda>v. rd_bind (rd_word 8) (\<lambda>i. rd_bind rd_u32 (\<lambda>n. rd_return (v, i, n)))) buf)
       (\<lambda>r. case r of
          None \<Rightarrow> Inr (md, False)
        | Some ((v, i, n), rest) \<Rightarrow>
            rbind (load_tables n rest (md_tables md))
              (\<lambda>(ts, ok). Inr (md\<lparr>md_visible_seq := v, md_internal_seq := i, md_tables := ts\<rparr>, ok)))"

definition loadMetadata :: "PageId \<Rightarrow> Pager \<Rightarrow> Metadata \<Rightarrow> (Metadata \<times> bool) result" where
  "loadMetadata meta pg md =
     (case readPage pg meta of None \<Rightarrow> Inr (md, False) | Some buf \<Rightarrow> decode_metadata buf md)"


section \<open>Readers undo writers\<close>

named_theorems reads_intros \<open>which bytes a reader turns into which value\<close>

definition reads :: "'a reader \<Rightarrow> bytes \<Rightarrow> 'a \<Rightarrow> bool" where
  "reads r bs a \<longleftrightarrow> (\<forall>rest. r (bs @ rest) = Inr (Some (a, rest)))"

lemma reads_bind: "reads r bs a \<Longrightarrow> reads (f a) cs b \<Longrightarrow> reads (rd_bind r f) (bs @ cs) b"
  by (simp add: reads_def rd_bind_def)

lemma reads_last: "reads r bs a \<Longrightarrow> reads (rd_bind r (\<lambda>x. rd_return (g x))) bs (g a)"
  by (simp add: reads_def rd_bind_def rd_return_def)

lemma reads_take [reads_intros]: "n = length bs \<Longrightarrow> reads (rd_take n) bs bs"
  by (simp add: reads_def rd_take_def)

lemma reads_word [reads_intros]: "LENGTH('a) \<le> 8 * n \<Longrightarrow> reads (rd_word n) (le_bytes n w) (w :: 'a::len word)"
  using reads_last [OF reads_take [of n "le_bytes n w"], where g = "le_word :: bytes \<Rightarrow> 'a word"]
  by (simp add: rd_word_def le_word_le_bytes)

lemma reads_u32 [reads_intros]: "n < 2 ^ 32 \<Longrightarrow> reads rd_u32 (le_bytes 4 (of_nat n :: u32)) n"
  using reads_last [OF reads_word [of 4 "of_nat n :: u32"], where g = unat] by (simp add: rd_u32_def)

lemma reads_string [reads_intros]: "length s < 2 ^ 32 \<Longrightarrow> reads rd_string (enc_string s) s"
  unfolding rd_string_def enc_string_def
  by (rule reads_bind [OF reads_u32])
    (use reads_last [OF reads_take [of "length s" "map byte_of_char s"], where g = "map char_of_byte"] in \<open>simp_all add: comp_def\<close>)

lemma reads_fold:
  assumes "\<And>acc x. x \<in> set xs \<Longrightarrow> reads (f acc) (enc x) (upd acc x)"
  shows "reads (rd_fold f (length xs) acc) (concat (map enc xs)) (foldl upd acc xs)"
  using assms
proof (induction xs arbitrary: acc)
  case Nil
  then show ?case by (simp add: reads_def rd_return_def)
next
  case (Cons x xs)
  have "reads (rd_bind (f acc) (rd_fold f (length xs))) (enc x @ concat (map enc xs)) (foldl upd (upd acc x) xs)"
    by (rule reads_bind [OF Cons.prems Cons.IH]) (use Cons.prems in auto)
  then show ?case by simp
qed

definition extensions_ok :: "(string \<times> string) list \<Rightarrow> bool" where
  "extensions_ok es \<longleftrightarrow> distinct (map fst es) \<and> length es < 2 ^ 32 \<and> (\<forall>(k, v) \<in> set es. length k < 2 ^ 32 \<and> length v < 2 ^ 32)"

lemma fold_update_fresh: "distinct (map fst (cs @ es)) \<Longrightarrow> foldl (\<lambda>acc (k, v). AList.update k v acc) cs es = cs @ es"
proof (induction es arbitrary: cs)
  case (Cons e es)
  obtain k v where e: "e = (k, v)" by (cases e)
  have "AList.update k v cs = cs @ [(k, v)]" using Cons.prems e by (intro update_fresh_key) auto
  with Cons.IH [of "cs @ [(k, v)]"] Cons.prems e show ?case by simp
qed simp

lemma reads_extensions:
  "extensions_ok es \<Longrightarrow> reads (rd_fold rd_extension (length es) []) (concat (map (\<lambda>(k, v). enc_string k @ enc_string v) es)) es"
proof -
  assume ok: "extensions_ok es"
  have "reads (rd_fold rd_extension (length es) []) (concat (map (\<lambda>(k, v). enc_string k @ enc_string v) es))
      (foldl (\<lambda>acc (k, v). AList.update k v acc) [] es)"
  proof (rule reads_fold)
    fix x acc
    assume "x \<in> set es"
    moreover obtain k v where x: "x = (k, v)" by (cases x)
    ultimately have "length k < 2 ^ 32" "length v < 2 ^ 32" using ok by (auto simp: extensions_ok_def)
    then show "reads (rd_extension acc) (case x of (k, v) \<Rightarrow> enc_string k @ enc_string v) (case x of (k, v) \<Rightarrow> AList.update k v acc)"
      unfolding rd_extension_def x prod.case by (intro reads_bind [OF reads_string] reads_last [OF reads_string])
  qed
  then show ?thesis using ok fold_update_fresh [of "[]" es] by (simp add: extensions_ok_def)
qed


definition column_ok :: "ColumnDef \<Rightarrow> bool" where
  "column_ok c \<longleftrightarrow> length (cd_name c) < 2 ^ 32 \<and> extensions_ok (cd_extensions c)"

text \<open>What the page keeps of a column, a policy and a schema: defaults, boundaries and lists are not stored.\<close>

definition stored_column :: "ColumnDef \<Rightarrow> ColumnDef" where
  "stored_column c = c\<lparr>cd_default := None\<rparr>"

definition stored_schema :: "Schema \<Rightarrow> Schema" where
  "stored_schema sc = sc\<lparr>sc_columns := map stored_column (sc_columns sc),
     sc_partition := map_option (\<lambda>p. p\<lparr>pp_boundaries := [], pp_lists := []\<rparr>) (sc_partition sc)\<rparr>"

definition table_ok :: "string \<times> TableInfo \<Rightarrow> bool" where
  "table_ok t \<longleftrightarrow> (case t of (name, info) \<Rightarrow>
     length name < 2 ^ 32 \<and> sc_table (ti_schema info) = name \<and> ti_rootPageId info < 2 ^ 32
     \<and> length (sc_columns (ti_schema info)) < 2 ^ 32 \<and> (\<forall>c \<in> set (sc_columns (ti_schema info)). column_ok c)
     \<and> (\<forall>p. sc_partition (ti_schema info) = Some p \<longrightarrow> length (pp_column p) < 2 ^ 32))"

definition stored_table :: "string \<times> TableInfo \<Rightarrow> string \<times> TableInfo" where
  "stored_table t = (fst t, (snd t)\<lparr>ti_schema := stored_schema (ti_schema (snd t))\<rparr>)"

lemma reads_fixed:
  "reads (rd_fixed name ([of_nat (tag_index ty)] @ enc_bool n @ enc_bool k @ le_bytes 8 m)) []
     (ColumnDef_init\<lparr>cd_name := name, cd_type := ty, cd_nullable := n, cd_primaryKey := k, cd_maxByteLength := m\<rparr>)"
  by (simp add: reads_def rd_fixed_def enc_bool_def tag_of_byte_index le_word_le_bytes)

lemma reads_column: "column_ok c \<Longrightarrow> reads rd_column (enc_column c) (stored_column c)"
proof -
  assume ok: "column_ok c"
  let ?fix = "[of_nat (tag_index (cd_type c))] @ enc_bool (cd_nullable c) @ enc_bool (cd_primaryKey c) @ le_bytes 8 (cd_maxByteLength c)"
  let ?col = "ColumnDef_init\<lparr>cd_name := cd_name c, cd_type := cd_type c, cd_nullable := cd_nullable c,
      cd_primaryKey := cd_primaryKey c, cd_maxByteLength := cd_maxByteLength c\<rparr>"
  have exts: "reads (rd_bind rd_u32 (\<lambda>n. rd_bind (rd_fold rd_extension n []) (\<lambda>es. rd_return (col\<lparr>cd_extensions := es\<rparr>))))
      (enc_extensions (cd_extensions c)) (col\<lparr>cd_extensions := cd_extensions c\<rparr>)" for col :: ColumnDef
    unfolding enc_extensions_def using ok
    by (intro reads_bind [OF reads_u32] reads_last [OF reads_extensions]) (auto simp: column_ok_def extensions_ok_def)
  have nm: "reads rd_string (enc_string (cd_name c)) (cd_name c)" using ok by (simp add: column_ok_def reads_string)
  have bs: "reads (rd_take 11) ?fix ?fix" by (rule reads_take) (simp add: enc_bool_def)
  have "reads rd_column (enc_string (cd_name c) @ ?fix @ [] @ enc_extensions (cd_extensions c)) (?col\<lparr>cd_extensions := cd_extensions c\<rparr>)"
    unfolding rd_column_def 
    by (rule reads_bind [OF nm], rule reads_bind [OF bs], rule reads_bind [OF reads_fixed], rule exts)
  moreover have "?col\<lparr>cd_extensions := cd_extensions c\<rparr> = stored_column c"
    by (simp add: stored_column_def ColumnDef_init_def)
  ultimately show ?thesis by (simp add: enc_column_def)
qed


lemma reads_kind: "reads rd_kind [kind_byte k] k"
  by (cases k) (simp_all add: reads_def rd_kind_def rd_bind_def rd_take_def kind_of_byte_def)

lemma reads_partition:
  "\<forall>p. sp = Some p \<longrightarrow> length (pp_column p) < 2 ^ 32 \<Longrightarrow>
     reads rd_partition (enc_partition sp) (map_option (\<lambda>p. p\<lparr>pp_boundaries := [], pp_lists := []\<rparr>) sp)"
proof (cases sp)
  case None
  then show ?thesis by (simp add: reads_def rd_partition_def enc_partition_def rd_bind_def rd_take_def rd_return_def)
next
  case (Some p)
  assume "\<forall>p. sp = Some p \<longrightarrow> length (pp_column p) < 2 ^ 32"
  then have col: "reads rd_string (enc_string (pp_column p)) (pp_column p)" using Some by (simp add: reads_string)
  have sc: "reads (rd_word 4) (le_bytes 4 (pp_shardCount p)) (pp_shardCount p)" by (rule reads_word) simp
  let ?build = "\<lambda>k col n. Some (PartitionPolicy_init\<lparr>pp_kind := k, pp_column := col, pp_shardCount := n\<rparr>)"
  have rest: "reads (rd_bind rd_kind (\<lambda>k. rd_bind rd_string (\<lambda>col. rd_bind (rd_word 4) (\<lambda>n. rd_return (?build k col n)))))
      ([kind_byte (pp_kind p)] @ enc_string (pp_column p) @ le_bytes 4 (pp_shardCount p))
      (?build (pp_kind p) (pp_column p) (pp_shardCount p))"
    by (rule reads_bind [OF reads_kind reads_bind [OF col reads_last [OF sc]]])
  have flag: "reads (rd_take 1) [1] [1]" by (rule reads_take) simp
  have "reads rd_partition ([1] @ [kind_byte (pp_kind p)] @ enc_string (pp_column p) @ le_bytes 4 (pp_shardCount p))
      (?build (pp_kind p) (pp_column p) (pp_shardCount p))"
    unfolding rd_partition_def by (rule reads_bind [OF flag]) (use rest in simp)
  then show ?thesis by (cases p) (simp add: Some enc_partition_def PartitionPolicy_init_def)
qed

lemma foldl_snoc: "foldl (\<lambda>cs c. cs @ [g c]) acc xs = acc @ map g xs"
  by (induction xs arbitrary: acc) auto

lemma reads_table: "table_ok t \<Longrightarrow> reads rd_table (enc_table t) (stored_table t)"
proof -
  assume ok: "table_ok t"
  obtain name info where t: "t = (name, info)" by (cases t)
  let ?cs = "sc_columns (ti_schema info)"
  have nm: "reads rd_string (enc_string name) name" using ok by (simp add: t table_ok_def reads_string)
  have rt: "reads rd_u32 (page_id_bytes (ti_rootPageId info)) (ti_rootPageId info)"
    using ok by (simp add: t table_ok_def page_id_bytes_def reads_u32)
  have au: "reads (rd_word 8) (le_bytes 8 (ti_autoId info)) (ti_autoId info)" by (rule reads_word) simp
  have ct: "reads rd_u32 (le_bytes 4 (of_nat (length ?cs) :: u32)) (length ?cs)" using ok by (simp add: t table_ok_def reads_u32)
  have cs: "reads (rd_fold rd_columns (length ?cs) []) (concat (map enc_column ?cs)) (map stored_column ?cs)"
  proof -
    have "reads (rd_fold rd_columns (length ?cs) []) (concat (map enc_column ?cs)) (foldl (\<lambda>cs c. cs @ [stored_column c]) [] ?cs)"
    proof (rule reads_fold)
      fix acc x assume "x \<in> set ?cs"
      then have "reads rd_column (enc_column x) (stored_column x)" using ok by (intro reads_column) (auto simp: t table_ok_def)
      then show "reads (rd_columns acc) (enc_column x) (acc @ [stored_column x])"
        unfolding rd_columns_def by (rule reads_last)
    qed
    then show ?thesis by (simp add: foldl_snoc)
  qed
  have pt: "reads rd_partition (enc_partition (sc_partition (ti_schema info)))
      (map_option (\<lambda>p. p\<lparr>pp_boundaries := [], pp_lists := []\<rparr>) (sc_partition (ti_schema info)))"
    using ok by (intro reads_partition) (auto simp: t table_ok_def)
  have "reads rd_table (enc_table t) (name, \<lparr>ti_schema = \<lparr>sc_table = name, sc_columns = map stored_column ?cs,
      sc_partition = map_option (\<lambda>p. p\<lparr>pp_boundaries := [], pp_lists := []\<rparr>) (sc_partition (ti_schema info))\<rparr>,
      ti_rootPageId = ti_rootPageId info, ti_autoId = ti_autoId info\<rparr>)"
    unfolding rd_table_def enc_table_def t prod.case
    by (rule reads_bind [OF nm], rule reads_bind [OF rt], rule reads_bind [OF au], rule reads_bind [OF ct],
        rule reads_bind [OF cs], rule reads_last [OF pt])
  moreover have "sc_table (ti_schema info) = name" using ok by (simp add: t table_ok_def)
  then have "stored_table t = (name, \<lparr>ti_schema = \<lparr>sc_table = name, sc_columns = map stored_column ?cs,
      sc_partition = map_option (\<lambda>p. p\<lparr>pp_boundaries := [], pp_lists := []\<rparr>) (sc_partition (ti_schema info))\<rparr>,
      ti_rootPageId = ti_rootPageId info, ti_autoId = ti_autoId info\<rparr>)"
    by (simp add: t stored_table_def stored_schema_def)
  ultimately show ?thesis by simp
qed

lemma load_tables_all:
  assumes "\<forall>t \<in> set ts. table_ok t" "distinct (map fst (acc @ ts))"
  shows "load_tables (length ts) (concat (map enc_table ts) @ rest) acc = Inr (acc @ map stored_table ts, True)"
  using assms
proof (induction ts arbitrary: acc)
  case (Cons t ts)
  obtain name info where t: "stored_table t = (name, info)" "fst t = name" by (cases t) (auto simp: stored_table_def)
  have "rd_table (enc_table t @ concat (map enc_table ts) @ rest) = Inr (Some ((name, info), concat (map enc_table ts) @ rest))"
    using reads_table [of t] Cons.prems(1) t by (simp add: reads_def)
  moreover have "AList.update name info acc = acc @ [(name, info)]"
    using Cons.prems(2) t by (intro update_fresh_key) auto
  moreover have "load_tables (length ts) (concat (map enc_table ts) @ rest) (acc @ [(name, info)]) = Inr ((acc @ [(name, info)]) @ map stored_table ts, True)"
    by (rule Cons.IH) (use Cons.prems t in auto)
  ultimately show ?case using t by simp
qed simp

definition metadata_ok :: "Metadata \<Rightarrow> bool" where
  "metadata_ok md \<longleftrightarrow> (\<forall>t \<in> set (md_tables md). table_ok t) \<and> distinct (map fst (md_tables md))
     \<and> length (md_tables md) < 2 ^ 32 \<and> length (enc_metadata md) \<le> DATA_PAGE_PAYLOAD_SIZE"

lemma decode_encode:
  assumes "metadata_ok md" "md_tables md0 = []"
  shows "decode_metadata (enc_metadata md @ rest) md0 = Inr (md\<lparr>md_tables := map stored_table (md_tables md)\<rparr>, True)"
proof -
  have v: "reads (rd_word 8) (le_bytes 8 (md_visible_seq md)) (md_visible_seq md)"
    and i: "reads (rd_word 8) (le_bytes 8 (md_internal_seq md)) (md_internal_seq md)"
    and n: "reads rd_u32 (le_bytes 4 (of_nat (length (md_tables md)) :: u32)) (length (md_tables md))"
    using assms(1) by (auto intro!: reads_word reads_u32 simp: metadata_ok_def)
  let ?tabs = "concat (map enc_table (md_tables md)) @ rest"
  have "rd_bind (rd_word 8) (\<lambda>v. rd_bind (rd_word 8) (\<lambda>i. rd_bind rd_u32 (\<lambda>n. rd_return (v, i, n)))) (enc_metadata md @ rest)
      = Inr (Some ((md_visible_seq md, md_internal_seq md, length (md_tables md)), ?tabs))"
  proof -
    have "reads (rd_bind (rd_word 8) (\<lambda>v. rd_bind (rd_word 8) (\<lambda>i. rd_bind rd_u32 (\<lambda>n. rd_return (v, i, n)))))
        (le_bytes 8 (md_visible_seq md) @ le_bytes 8 (md_internal_seq md) @ le_bytes 4 (of_nat (length (md_tables md)) :: u32))
        (md_visible_seq md, md_internal_seq md, length (md_tables md))"
      by (rule reads_bind [OF v], rule reads_bind [OF i], rule reads_last [OF n])
    then show ?thesis by (simp add: reads_def enc_metadata_def)
  qed
  moreover have "load_tables (length (md_tables md)) ?tabs [] = Inr (map stored_table (md_tables md), True)"
    using load_tables_all [of "md_tables md" "[]"] assms(1) by (simp add: metadata_ok_def)
  ultimately show ?thesis using assms(2) by (simp add: decode_metadata_def)
qed

lemma metadata_saved:
  assumes "pg_ok pg" "metadata_ok md" "1 \<le> meta" "meta < pg_pageCount pg" "md_tables md0 = []"
  shows "\<exists>pg'. saveMetadata meta md pg = Inr pg' \<and> pg_ok pg'
    \<and> loadMetadata meta pg' md0 = Inr (md\<lparr>md_tables := map stored_table (md_tables md)\<rparr>, True)
    \<and> (\<forall>j. j \<noteq> meta \<longrightarrow> readPage pg' j = readPage pg j) \<and> pg' = pg\<lparr>pg_file := pg_file pg'\<rparr>"
proof -
  let ?buf = "enc_metadata md @ replicate (DATA_PAGE_PAYLOAD_SIZE - length (enc_metadata md)) 0"
  have len: "length ?buf = DATA_PAGE_PAYLOAD_SIZE" using assms(2) by (simp add: metadata_ok_def)
  obtain pg' where pg': "writePage (Some meta) ?buf pg = Inr (pg', meta)" "pg_ok pg'" "readPage pg' meta = Some ?buf"
      "\<forall>j. j \<noteq> meta \<longrightarrow> readPage pg' j = readPage pg j" "pg' = pg\<lparr>pg_file := pg_file pg'\<rparr>"
    using write_then_read [OF assms(1,3,4) len] by blast
  have "saveMetadata meta md pg = Inr pg'" using assms(2) pg'(1) by (simp add: saveMetadata_def metadata_ok_def Let_def)
  moreover have "loadMetadata meta pg' md0 = Inr (md\<lparr>md_tables := map stored_table (md_tables md)\<rparr>, True)"
    using pg'(3) decode_encode [OF assms(2,5)] by (simp add: loadMetadata_def)
  ultimately show ?thesis using pg'(2,4,5) by blast
qed

text \<open>
  The registry survives its page: saving the counters and tables of a registry that fits the
  page succeeds, and loading the page gives back the counters and every table with its root page,
  counter and columns; only column defaults and the boundaries and lists of a partition policy are
  missing.
\<close>
theorem metadata_roundtrip:
  assumes "pg_ok pg" "metadata_ok md" "1 \<le> meta" "meta < pg_pageCount pg" "md_tables md0 = []"
  shows "\<exists>pg'. saveMetadata meta md pg = Inr pg' \<and> pg_ok pg'
    \<and> loadMetadata meta pg' md0 = Inr (md\<lparr>md_tables := map stored_table (md_tables md)\<rparr>, True)"
  using metadata_saved [OF assms] by blast


section \<open>Witness\<close>

definition demo_metadata :: Metadata where
  "demo_metadata = \<lparr>md_visible_seq = 4, md_internal_seq = 0, md_tables =
     [(''t'', \<lparr>ti_schema = \<lparr>sc_table = ''t'', sc_columns = [ColumnDef_init\<lparr>cd_name := ''_id'', cd_type := TInt64\<rparr>],
         sc_partition = None\<rparr>, ti_rootPageId = 2, ti_autoId = 1\<rparr>)]\<rparr>"

lemma demo_metadata_ok: "metadata_ok demo_metadata"
  by (simp add: metadata_ok_def demo_metadata_def table_ok_def column_ok_def extensions_ok_def ColumnDef_init_def
      enc_metadata_def enc_table_def enc_column_def enc_string_def enc_bool_def enc_extensions_def enc_partition_def page_sizes)

theorem metadata_roundtrip_witness:
  "metadata_ok demo_metadata \<and> (\<exists>pg'. saveMetadata 1 demo_metadata demo_pager = Inr pg'
     \<and> loadMetadata 1 pg' \<lparr>md_visible_seq = 0, md_internal_seq = 0, md_tables = []\<rparr>
         = Inr (demo_metadata\<lparr>md_tables := map stored_table (md_tables demo_metadata)\<rparr>, True))"
  using metadata_roundtrip [OF demo_pager_ok demo_metadata_ok, of 1 "\<lparr>md_visible_seq = 0, md_internal_seq = 0, md_tables = []\<rparr>"]
    demo_metadata_ok by (auto simp: demo_pager_def)

end
