(* ===== verification/BTree_Reads.thy ===== *)
theory BTree_Reads
  imports BTree_Ops
begin

text \<open>
  What the B+tree promises its readers, against an abstract tree. \<open>bt\<close> is the tree that the pages
  of the file represent (\<open>tree_at\<close>); \<open>inorder\<close> lists its versions in storage order. When separators
  divide the keys (\<open>tree_ok\<close>: no version left of a separator has a key that is not below it), a
  descent ends in the only leaf that can hold a key, and a lookup answers as a search of the whole
  list would.
\<close>

section \<open>Abstract trees\<close>

datatype bt =
    BLeaf PageId PageId "LeafEntry list"
  | BNode PageId "(Value \<times> bt) list"

primrec page_of :: "bt \<Rightarrow> PageId" where
  "page_of (BLeaf i sib es) = i"
| "page_of (BNode i cs) = i"

fun inorder :: "bt \<Rightarrow> LeafEntry list" where
  "inorder (BLeaf i sib es) = es"
| "inorder (BNode i cs) = concat (map (\<lambda>c. inorder (snd c)) cs)"

fun tree_at :: "Pager \<Rightarrow> bt \<Rightarrow> bool" where
  "tree_at pg (BLeaf i sib es) \<longleftrightarrow> i \<noteq> 0 \<and>
     (\<exists>n. loadNode pg i = Inr (\<lparr>nh_type = NLeaf, nh_num_entries = n, nh_right_sibling = sib\<rparr>, [], es))"
| "tree_at pg (BNode i cs) \<longleftrightarrow> i \<noteq> 0 \<and> cs \<noteq> [] \<and>
     (\<exists>n sib. loadNode pg i = Inr (\<lparr>nh_type = NInternal, nh_num_entries = n, nh_right_sibling = sib\<rparr>,
        map (\<lambda>c. \<lparr>ie_key = fst c, ie_child = page_of (snd c)\<rparr>) cs, []))
     \<and> (\<forall>c \<in> set cs. tree_at pg (snd c))"

text \<open>Every separator bounds the keys on both of its sides.\<close>

fun kids_ok :: "(Value \<times> bt) list \<Rightarrow> bool" where
  "kids_ok [] \<longleftrightarrow> True"
| "kids_ok [c] \<longleftrightarrow> not_nan (fst c)"
| "kids_ok (c # d # cs) \<longleftrightarrow> not_nan (fst c) \<and> not_nan (fst d) \<and> value_less (fst c) (fst d)
     \<and> (\<forall>e \<in> set (inorder (snd c)). value_less (le_key e) (fst d))
     \<and> (\<forall>b \<in> set (d # cs). \<forall>e \<in> set (inorder (snd b)). value_ge (le_key e) (fst d))
     \<and> kids_ok (d # cs)"

fun tree_ok :: "bt \<Rightarrow> bool" where
  "tree_ok (BLeaf i sib es) \<longleftrightarrow> (\<forall>e \<in> set es. not_nan (le_key e))"
| "tree_ok (BNode i cs) \<longleftrightarrow> kids_ok cs \<and> (\<forall>c \<in> set cs. tree_ok (snd c))"

lemma tree_ok_not_nan: "tree_ok t \<Longrightarrow> e \<in> set (inorder t) \<Longrightarrow> not_nan (le_key e)"
  by (induction t rule: inorder.induct) auto

section \<open>Descents\<close>

fun leaves :: "bt \<Rightarrow> (PageId \<times> PageId \<times> LeafEntry list) list" where
  "leaves (BLeaf i sib es) = [(i, sib, es)]"
| "leaves (BNode i cs) = concat (map (\<lambda>c. leaves (snd c)) cs)"

fun pick :: "Value \<Rightarrow> (Value \<times> bt) list \<Rightarrow> bt" where
  "pick key [c] = snd c"
| "pick key (c # d # cs) = (if value_ge key (fst d) then pick key (d # cs) else snd c)"

lemma pick_mem: "cs \<noteq> [] \<Longrightarrow> \<exists>c \<in> set cs. pick key cs = snd c"
  by (induction key cs rule: pick.induct) auto

definition separators :: "(Value \<times> bt) list \<Rightarrow> InternalEntry list" where
  "separators cs = map (\<lambda>c. \<lparr>ie_key = fst c, ie_child = page_of (snd c)\<rparr>) cs"

lemma child_for_pick:
  "value_ge key (fst c) \<Longrightarrow> child_for key (separators (c # cs)) nxt = page_of (pick key (c # cs))"
  by (induction cs arbitrary: c nxt) (auto simp: separators_def)

lemma value_ge_iff: "not_nan v \<Longrightarrow> not_nan w \<Longrightarrow> value_ge v w \<longleftrightarrow> \<not> value_less v w"
  by (simp add: value_ge_def value_less_def)

lemma next_child_pick:
  assumes "kids_ok cs" "cs \<noteq> []" "not_nan key" "\<forall>c \<in> set cs. page_of (snd c) \<noteq> 0"
  shows "next_child key (separators cs) = Inr (page_of (pick key cs))"
proof -
  obtain c ds where cs: "cs = c # ds" using assms(2) by (cases cs) auto
  show ?thesis
  proof (cases "value_ge key (fst c)")
    case True
    then have "child_for key (separators cs) 0 = page_of (pick key cs)" by (simp add: cs child_for_pick)
    moreover have "page_of (pick key cs) \<noteq> 0" using pick_mem [OF assms(2)] assms(4) by fastforce
    ultimately show ?thesis by (simp add: next_child_def)
  next
    case False
    have "pick key cs = snd c"
    proof (cases ds)
      case (Cons d ds')
      then have "not_nan (fst c)" "not_nan (fst d)" "value_less (fst c) (fst d)" using assms(1) cs by auto
      moreover have "value_less key (fst c)" using False calculation assms(3) by (simp add: value_ge_iff)
      ultimately have "\<not> value_ge key (fst d)" 
        using assms(3) vo.trans [of key "fst c" "fst d"] by (simp add: value_ge_iff)
      then show ?thesis by (simp add: cs Cons)
    qed (simp add: cs)
    with False show ?thesis by (simp add: next_child_def cs separators_def)
  qed
qed

definition of_key :: "Value \<Rightarrow> LeafEntry \<Rightarrow> bool" where
  "of_key key e \<longleftrightarrow> \<not> value_ne (le_key e) key"

lemma of_key_eqv: "not_nan (le_key e) \<Longrightarrow> not_nan key \<Longrightarrow> of_key key e \<longleftrightarrow> vo.eqv (le_key e) key"
  by (simp add: of_key_def value_ne_def value_eqv_iff)

text \<open>Versions of a key are only below the chosen child.\<close>

lemma filter_pick:
  assumes "kids_ok cs" "cs \<noteq> []" "not_nan key" "\<forall>c \<in> set cs. tree_ok (snd c)"
  shows "filter (of_key key) (concat (map (\<lambda>c. inorder (snd c)) cs)) = filter (of_key key) (inorder (pick key cs))"
  using assms
proof (induction key cs rule: pick.induct)
  case (2 key c d cs)
  have nan: "not_nan (fst d)" "\<forall>b \<in> set (c # d # cs). \<forall>e \<in> set (inorder (snd b)). not_nan (le_key e)"
    using 2(2,5) tree_ok_not_nan by auto
  show ?case
  proof (cases "value_ge key (fst d)")
    case True
    have "\<not> of_key key e" if "e \<in> set (inorder (snd c))" for e
    proof -
      have e: "value_less (le_key e) (fst d)" "not_nan (le_key e)" using that 2(2) nan by auto
      then show ?thesis using True 2(4) nan(1) vo.eqv_lt_left [of "le_key e" key "fst d"]
        by (auto simp: of_key_eqv value_ge_iff)
    qed
    then have "filter (of_key key) (inorder (snd c)) = []" by (simp add: filter_empty_conv)
    moreover have "filter (of_key key) (concat (map (\<lambda>c. inorder (snd c)) (d # cs))) = filter (of_key key) (inorder (pick key (d # cs)))"
      by (rule 2(1)) (use True 2 in auto)
    ultimately show ?thesis using True by simp
  next
    case False
    have "\<not> of_key key e" if "b \<in> set (d # cs)" "e \<in> set (inorder (snd b))" for b e
    proof -
      have e: "value_ge (le_key e) (fst d)" "not_nan (le_key e)" using that 2(2) nan(2) by auto
      then show ?thesis using False 2(4) nan(1) vo.eqv_lt_left [of "le_key e" key "fst d"]
        by (auto simp: of_key_eqv value_ge_iff)
    qed
    then have "\<forall>e \<in> set (concat (map (\<lambda>c. inorder (snd c)) (d # cs))). \<not> of_key key e"
      by (simp only: set_concat set_map) blast
    then have "filter (of_key key) (concat (map (\<lambda>c. inorder (snd c)) (d # cs))) = []"
      by (simp only: filter_empty_conv)
    with False show ?thesis by simp
  qed
qed auto

lemma page_nonzero: "tree_at pg t \<Longrightarrow> page_of t \<noteq> 0"
  by (cases t) auto

lemma findLeaf_leaf:
  assumes "tree_at pg t" "tree_ok t" "not_nan key"
  shows "\<exists>i n sib es. findLeaf pg key (page_of t) = Some (Inr i)
    \<and> loadNode pg i = Inr (\<lparr>nh_type = NLeaf, nh_num_entries = n, nh_right_sibling = sib\<rparr>, [], es)
    \<and> filter (of_key key) es = filter (of_key key) (inorder t) \<and> i \<noteq> 0 \<and> (i, sib, es) \<in> set (leaves t)"
  using assms
proof (induction t rule: inorder.induct)
  case (1 i sib es)
  then show ?case by (subst findLeaf.simps) auto
next
  case (2 i cs)
  from 2(2) obtain n sib where ld: "loadNode pg i = Inr (\<lparr>nh_type = NInternal, nh_num_entries = n, nh_right_sibling = sib\<rparr>, separators cs, [])"
    by (auto simp: separators_def)
  have kids: "kids_ok cs" "cs \<noteq> []" "\<forall>c \<in> set cs. tree_ok (snd c)" "\<forall>c \<in> set cs. tree_at pg (snd c)" using 2 by auto
  have nxt: "next_child key (separators cs) = Inr (page_of (pick key cs))"
    using next_child_pick [OF kids(1,2) 2(4)] kids(4) page_nonzero by blast
  obtain c where c: "c \<in> set cs" "pick key cs = snd c" using pick_mem [OF kids(2)] by blast
  have "findLeaf pg key (page_of (BNode i cs)) = findLeaf pg key (page_of (snd c))"
    using ld nxt c(2) by (subst findLeaf.simps) (simp add: NInternal_def NLeaf_def)
  moreover have "filter (of_key key) (inorder (BNode i cs)) = filter (of_key key) (inorder (snd c))"
    using filter_pick [OF kids(1,2) 2(4) kids(3)] c(2) by simp
  moreover have "set (leaves (snd c)) \<subseteq> set (leaves (BNode i cs))" using c(1) by auto
  moreover obtain j m z fs where "findLeaf pg key (page_of (snd c)) = Some (Inr j)"
      "loadNode pg j = Inr (\<lparr>nh_type = NLeaf, nh_num_entries = m, nh_right_sibling = z\<rparr>, [], fs)"
      "filter (of_key key) fs = filter (of_key key) (inorder (snd c))" "j \<noteq> 0" "(j, z, fs) \<in> set (leaves (snd c))"
    using 2(1) [OF c(1)] kids c(1) 2(4) by auto
  ultimately show ?case by (intro exI [of _ j] exI [of _ m] exI [of _ z] exI [of _ fs]) auto
qed

lemma find_conj_filter: "find (\<lambda>x. P x \<and> Q x) xs = find Q (filter P xs)"
  by (induction xs) auto

lemma tree_lookup:
  assumes "tree_at pg t" "tree_ok t" "not_nan key"
  shows "bt_get pg (page_of t) key txn visible_seq = Some (Inr (lookup_leaf key txn visible_seq (inorder t)))"
proof -
  obtain i n sib es where leaf: "findLeaf pg key (page_of t) = Some (Inr i)"
      "loadNode pg i = Inr (\<lparr>nh_type = NLeaf, nh_num_entries = n, nh_right_sibling = sib\<rparr>, [], es)"
      "filter (of_key key) es = filter (of_key key) (inorder t)"
    using findLeaf_leaf [OF assms] by blast
  have "lookup_leaf key txn visible_seq es = lookup_leaf key txn visible_seq (inorder t)"
    using leaf(3) unfolding lookup_leaf_def of_key_def [symmetric] find_conj_filter by simp
  with leaf show ?thesis by (simp add: bt_get_def)
qed

text \<open>
  C2. Lookups in the B+tree: when the pages represent a tree whose separators divide the keys, a
  lookup terminates without error and answers exactly as a search of all versions in storage order
  would: the first version of the key that the transaction may see, or nothing.
\<close>
theorem tree_lookup_correct:
  assumes "tree_at pg t" "tree_ok t" "not_nan key"
  shows "bt_get pg (page_of t) key txn visible_seq = Some (Inr (lookup_leaf key txn visible_seq (inorder t)))"
  by (rule tree_lookup [OF assms])


section \<open>Walks along the leaves\<close>

text \<open>The sibling of every leaf is the next one; the last has none.\<close>

fun linked :: "(PageId \<times> PageId \<times> LeafEntry list) list \<Rightarrow> bool" where
  "linked [] \<longleftrightarrow> True"
| "linked [(i, sib, es)] \<longleftrightarrow> sib = 0"
| "linked ((i, sib, es) # (j, sib', fs) # ls) \<longleftrightarrow> sib = j \<and> linked ((j, sib', fs) # ls)"

lemma concat_map_concat: "concat (map f (concat (map g cs))) = concat (map (\<lambda>c. concat (map f (g c))) cs)"
  by (induction cs) auto

lemma inorder_leaves: "inorder t = concat (map (\<lambda>(i, sib, es). es) (leaves t))"
proof (induction t rule: inorder.induct)
  case (2 i cs)
  then have "map (\<lambda>c. inorder (snd c)) cs = map (\<lambda>c. concat (map (\<lambda>(i, sib, es). es) (leaves (snd c)))) cs"
    by (intro map_cong) auto
  then show ?case by (simp only: inorder.simps leaves.simps concat_map_concat)
qed simp


lemma leaves_nonempty: "tree_at pg t \<Longrightarrow> leaves t \<noteq> []"
proof (induction t rule: inorder.induct)
  case (2 i cs)
  then obtain c where c: "c \<in> set cs" by (cases cs) auto
  then have "leaves (snd c) \<noteq> []" using 2 by simp
  with c show ?case by (simp only: leaves.simps concat_eq_Nil_conv set_map) blast
qed simp

lemma leaves_at: "tree_at pg t \<Longrightarrow> (i, sib, es) \<in> set (leaves t) \<Longrightarrow>
    i \<noteq> 0 \<and> (\<exists>n. loadNode pg i = Inr (\<lparr>nh_type = NLeaf, nh_num_entries = n, nh_right_sibling = sib\<rparr>, [], es))"
  by (induction t rule: inorder.induct) auto

lemma leftmost_tree: "tree_at pg t \<Longrightarrow> leftmost pg (page_of t) = Some (Inr (fst (hd (leaves t))))"
proof (induction t rule: inorder.induct)
  case (1 i sib es)
  then show ?case by (subst leftmost.simps) auto
next
  case (2 i cs)
  then obtain c ds where cs: "cs = c # ds" by (cases cs) auto
  then have "leaves (snd c) \<noteq> []" using 2(2) leaves_nonempty by auto
  moreover have "leftmost pg (page_of (BNode i cs)) = leftmost pg (page_of (snd c))"
    using 2(2) cs by (subst leftmost.simps) (auto simp: NInternal_def NLeaf_def)
  ultimately show ?case using 2 cs by (auto simp: hd_append)
qed

lemma call_each_append:
  "call_each cb (xs @ ys) s = (let (s', go) = call_each cb xs s in if go then call_each cb ys s' else (s', False))"
  by (induction xs arbitrary: s) (auto simp: Let_def split: prod.splits)

lemma scan_chain_leaves:
  assumes "linked ls" "ls \<noteq> []"
    and "\<forall>(i, sib, es) \<in> set ls. i \<noteq> 0 \<and> (\<exists>n. loadNode pg i = Inr (\<lparr>nh_type = NLeaf, nh_num_entries = n, nh_right_sibling = sib\<rparr>, [], es))"
    and "\<forall>(i, sib, es) \<in> set ls. emits es = Some (f es)"
  shows "scan_chain emits cb pg (fst (hd ls)) s = Some (Inr (fst (call_each cb (concat (map (\<lambda>(i, sib, es). f es) ls)) s)))"
  using assms
proof (induction ls arbitrary: s rule: linked.induct)
  case (2 i sib es)
  have end0: "scan_chain emits cb pg 0 s' = Some (Inr s')" for s' by (subst scan_chain.simps) simp
  show ?case using 2 by (subst scan_chain.simps) (auto simp: end0 split: prod.splits)
next
  case (3 i sib es j sib' fs ls)
  have step: "scan_chain emits cb pg i s =
      (let (s', go) = call_each cb (f es) s in if go then scan_chain emits cb pg j s' else Some (Inr s'))"
    using 3 by (subst scan_chain.simps) (auto split: prod.splits)
  have "scan_chain emits cb pg j s' = Some (Inr (fst (call_each cb (concat (map (\<lambda>(i, sib, es). f es) ((j, sib', fs) # ls))) s')))" for s'
    using 3(1) [of s'] 3(2-) by simp
  then show ?case by (simp add: step call_each_append [of cb "f es"] split: prod.splits)
qed simp

text \<open>
  C28. A full walk of the B+tree: when the leaves of the represented tree are linked in order, the
  walk over all versions terminates and offers every version to the callback exactly once, in
  storage order, until the callback stops it.
\<close>
theorem tree_walk_complete:
  assumes "tree_at pg t" "linked (leaves t)"
  shows "bt_scanAll pg (page_of t) cb s = Some (Inr (fst (call_each cb (inorder t) s)))"
proof -
  have "scan_chain Some cb pg (fst (hd (leaves t))) s
      = Some (Inr (fst (call_each cb (concat (map (\<lambda>(i, sib, es). id es) (leaves t))) s)))"
    by (rule scan_chain_leaves) (use assms leaves_nonempty leaves_at in auto)
  then show ?thesis using leftmost_tree [OF assms(1)] by (simp add: bt_scanAll_def inorder_leaves [symmetric])
qed

section \<open>Rows of a leaf\<close>

lemma value_eq_refl: "not_nan v \<Longrightarrow> value_eq v v"
  by (cases v) (auto simp: d_eq_def)

text \<open>Without NaN keys the loop over the key groups of a leaf ends.\<close>

lemma leaf_rows_total: "\<forall>e \<in> set leaf. not_nan (le_key e) \<Longrightarrow> \<exists>out. leaf_rows txn vs leaf = Some out"
proof (induction leaf rule: length_induct)
  case (1 leaf)
  show ?case
  proof (cases leaf)
    case Nil
    then show ?thesis by (subst leaf_rows.simps) simp
  next
    case (Cons e es)
    let ?rest = "dropWhile (\<lambda>f. value_eq (le_key f) (le_key e)) leaf"
    have "value_eq (le_key e) (le_key e)" using 1(2) Cons by (simp add: value_eq_refl)
    then have "length ?rest < length leaf" by (simp add: Cons le_imp_less_Suc length_dropWhile_le)
    moreover have "\<forall>e \<in> set ?rest. not_nan (le_key e)" using 1(2) by (meson set_dropWhileD)
    ultimately obtain out where "leaf_rows txn vs ?rest = Some out" using 1(1) by blast
    then show ?thesis by (subst leaf_rows.simps) (simp add: Cons)
  qed
qed

text \<open>A NaN key is never skipped, so a scan that reaches it does not end.\<close>

lemma leaf_rows_nan:
  assumes "\<not> value_eq (le_key e) (le_key e)"
  shows "leaf_rows txn vs (e # es) = None"
proof -
  have "leaf \<noteq> e # es" if "leaf_rows txn vs leaf = Some out" for leaf out
    using that
    by (rule leaf_rows.raw_induct [where P = "\<lambda>txn vs leaf out. leaf \<noteq> e # es", rotated])
      (use assms in \<open>fastforce split: Option.bind_splits list.splits if_splits\<close>)
  then show ?thesis by (cases "leaf_rows txn vs (e # es)") auto
qed


section \<open>Witnesses\<close>

definition demo_tree :: bt where
  "demo_tree = BLeaf 1 0 [demo_entry 5]"

lemma demo_tree_at: "\<exists>pg. pg_ok pg \<and> tree_at pg demo_tree"
  using demo_saved by (auto simp: demo_tree_def demo_leaf_def)

lemma demo_tree_ok: "tree_ok demo_tree"
  by (simp add: demo_tree_def demo_entry_def)

theorem tree_lookup_correct_witness:
  "\<exists>pg. tree_at pg demo_tree \<and> tree_ok demo_tree
     \<and> bt_get pg (page_of demo_tree) (VInt32 5) 7 3 = Some (Inr (lookup_leaf (VInt32 5) 7 3 (inorder demo_tree)))"
proof -
  obtain pg where "tree_at pg demo_tree" using demo_tree_at by blast
  with tree_lookup_correct [OF this demo_tree_ok, of "VInt32 5" 7 3] demo_tree_ok show ?thesis by auto
qed

theorem tree_walk_complete_witness:
  "\<exists>pg. tree_at pg demo_tree \<and> bt_scanAll pg (page_of demo_tree) (\<lambda>e out. (out @ [e], True)) [] = Some (Inr [demo_entry 5])"
proof -
  obtain pg where "tree_at pg demo_tree" using demo_tree_at by blast
  with tree_walk_complete [OF this, of "\<lambda>e out. (out @ [e], True)" "[]"] show ?thesis by (auto simp: demo_tree_def)
qed

end
