(* ===== verification/BTree_Writes.thy ===== *)
theory BTree_Writes
  imports BTree_Reads
begin

text \<open>
  Insertions into the B+tree of theory \<open>BTree_Ops\<close>: a version that fits its leaf is found by later
  lookups and changes the answer for no other key; a leaf that overflows is split into two halves that
  keep all versions in order. The last section records what a split inside the versions of one key
  does to lookups.
\<close>

section \<open>A leaf with room\<close>

lemma load_entries_length: "load_entries ld n page off = Inr es \<Longrightarrow> length es = n"
  by (induction ld n page off arbitrary: es rule: load_entries.induct) (auto simp: rbind_Inr_iff)

lemma loadNode_leaf_count:
  "loadNode pg i = Inr (\<lparr>nh_type = NLeaf, nh_num_entries = n, nh_right_sibling = sib\<rparr>, [], es) \<Longrightarrow>
     length es = unat n \<and> sib < 2 ^ 32"
  using load_entries_length
  by (auto simp: loadNode_def load_page_def Let_def rbind_Inr_iff NLeaf_def NInternal_def u32_at_def
      split: option.splits if_splits intro: unsigned_less [where 'a = nat and 'b = 32, simplified])

lemma approxBytes_concat: "approxBytes es = length (concat (map leaf_bytes es))"
  by (induction es) (simp_all add: approxBytes_def leaf_bytes_def leaf_fixed_def)

lemma insert_entry_split:
  "\<exists>xs ys. es = xs @ ys \<and> insert_entry e es = xs @ e # ys \<and> (\<forall>f \<in> set xs. \<not> goes_before e f)"
proof (induction es)
  case (Cons f fs)
  then obtain xs ys where *: "fs = xs @ ys" "insert_entry e fs = xs @ e # ys" "\<forall>f \<in> set xs. \<not> goes_before e f" by blast
  show ?case
  proof (cases "goes_before e f")
    case True
    then show ?thesis by (intro exI [of _ "[]"] exI [of _ "f # fs"]) simp
  next
    case False
    with * show ?thesis by (intro exI [of _ "f # xs"] exI [of _ ys]) simp
  qed
qed simp

lemma set_insert_entry: "set (insert_entry e es) = insert e (set es)"
  using insert_entry_split [of es e] by force

lemma length_insert_entry [simp]: "length (insert_entry e es) = Suc (length es)"
  using insert_entry_split [of es e] by force

text \<open>The leaf of the key has room: the counters stay below the split thresholds and the version is new.\<close>

definition has_room :: "Pager \<Rightarrow> PageId \<Rightarrow> LeafEntry \<Rightarrow> bool" where
  "has_room pg root e \<longleftrightarrow>
     (case findLeaf pg (le_key e) root of
        Some (Inr i) \<Rightarrow>
          (case loadNode pg i of
             Inr (hdr, internal, es) \<Rightarrow> length es < 64 \<and> approxBytes (insert_entry e es) \<le> DATA_PAGE_PAYLOAD_SIZE - 64
               \<and> (\<forall>f \<in> set es. \<not> same_version e f)
           | Inl _ \<Rightarrow> False)
      | _ \<Rightarrow> False)"

lemma put_at_roomy:
  assumes "pg_ok pg" "leaf_entry_fits e" "\<forall>f \<in> set es. leaf_entry_fits f" "i \<noteq> 0"
    and ld: "loadNode pg i = Inr (\<lparr>nh_type = NLeaf, nh_num_entries = n, nh_right_sibling = sib\<rparr>, [], es)"
    and room: "length es < 64" "approxBytes (insert_entry e es) \<le> DATA_PAGE_PAYLOAD_SIZE - 64" "\<forall>f \<in> set es. \<not> same_version e f"
  shows "\<exists>pg'. put_at pg root i e = Some (Inr (pg', root, True)) \<and> pg_ok pg'
    \<and> loadNode pg' i = Inr (\<lparr>nh_type = NLeaf, nh_num_entries = n + 1, nh_right_sibling = sib\<rparr>, [], insert_entry e es)
    \<and> (\<forall>j. j \<noteq> i \<longrightarrow> loadNode pg' j = loadNode pg j)"
proof -
  let ?nd = "(\<lparr>nh_type = NLeaf, nh_num_entries = n + 1, nh_right_sibling = sib\<rparr>, [], insert_entry e es) :: node"
  have n: "length es = unat n" "sib < 2 ^ 32" using loadNode_leaf_count [OF ld] by auto
  have n1: "unat (n + 1) = length es + 1" using n(1) room(1) by (simp add: unat_word_ariths)
  then have le: "\<not> n + 1 > MAX_LEAF_ENTRIES" using room(1) by (simp add: MAX_LEAF_ENTRIES_def word_less_nat_alt)
  have "node_fits ?nd"
    using n n1 assms(2,3) room(2) by (auto simp: node_fits_def NLeaf_def NInternal_def set_insert_entry approxBytes_concat page_sizes)
  then obtain pg' where pg': "saveNode i ?nd pg = Inr pg'" "pg_ok pg'" "loadNode pg' i = Inr ?nd"
      "\<forall>j. j \<noteq> i \<longrightarrow> loadNode pg' j = loadNode pg j"
    using save_then_load [OF assms(1), of ?nd i] assms(4) loadNode_in_file [OF ld] by auto
  have "put_at pg root i e = Some (Inr (pg', root, True))"
    using ld le room(2,3) pg'(1) by (simp add: put_at_def Let_def)
  with pg' show ?thesis by blast
qed

section \<open>Descents after an insertion\<close>

text \<open>A change to one leaf page moves no descent.\<close>

lemma findLeaf_same:
  assumes "tree_at pg t" "tree_ok t" "not_nan key"
    and "loadNode pg i = Inr (\<lparr>nh_type = NLeaf, nh_num_entries = n, nh_right_sibling = sib\<rparr>, [], es)"
    and "loadNode pg' i = Inr (\<lparr>nh_type = NLeaf, nh_num_entries = n', nh_right_sibling = sib\<rparr>, [], es')"
    and "\<forall>j. j \<noteq> i \<longrightarrow> loadNode pg' j = loadNode pg j"
  shows "findLeaf pg' key (page_of t) = findLeaf pg key (page_of t)"
  using assms(1,2)
proof (induction t rule: inorder.induct)
  case (1 j s fs)
  have stop: "findLeaf p key j = Some (Inr j)" if "loadNode p j = Inr (\<lparr>nh_type = NLeaf, nh_num_entries = m, nh_right_sibling = z\<rparr>, [], gs)" for p m z gs
    using that by (subst findLeaf.simps) simp
  show ?case using 1 assms(4-6) stop by (cases "j = i") auto
next
  case (2 j cs)
  from 2(2) obtain m s where ld: "loadNode pg j = Inr (\<lparr>nh_type = NInternal, nh_num_entries = m, nh_right_sibling = s\<rparr>, separators cs, [])"
    by (auto simp: separators_def)
  then have "j \<noteq> i" using assms(4) by (auto simp: NLeaf_def NInternal_def)
  then have ld': "loadNode pg' j = loadNode pg j" using assms(6) by simp
  have kids: "kids_ok cs" "cs \<noteq> []" "\<forall>c \<in> set cs. tree_ok (snd c)" "\<forall>c \<in> set cs. tree_at pg (snd c)" using 2 by auto
  have nxt: "next_child key (separators cs) = Inr (page_of (pick key cs))"
    using next_child_pick [OF kids(1,2) assms(3)] kids(4) page_nonzero by blast
  obtain c where c: "c \<in> set cs" "pick key cs = snd c" using pick_mem [OF kids(2)] by blast
  have "findLeaf p key (page_of (BNode j cs)) = findLeaf p key (page_of (snd c))" if "loadNode p j = loadNode pg j" for p
    using ld nxt c(2) that by (subst findLeaf.simps) (simp add: NInternal_def NLeaf_def)
  from this [OF ld'] this [OF refl] show ?case using 2(1) [OF c(1)] kids c(1) by simp
qed

lemma lookup_of_key: "lookup_leaf key txn vs es = lookup_leaf key txn vs (filter (of_key key) es)"
  unfolding lookup_leaf_def of_key_def [symmetric] find_conj_filter by simp

lemma put_step:
  assumes "pg_ok pg" "tree_at pg t" "tree_ok t" "\<forall>f \<in> set (inorder t). leaf_entry_fits f"
    and "leaf_entry_fits e" "not_nan (le_key e)" "has_room pg (page_of t) e"
  shows "\<exists>pg' i sib es. bt_put pg (page_of t) e = Some (Inr (pg', page_of t, True)) \<and> pg_ok pg'
    \<and> (i, sib, es) \<in> set (leaves t) \<and> filter (of_key (le_key e)) es = filter (of_key (le_key e)) (inorder t)
    \<and> (\<forall>txn vs. bt_get pg' (page_of t) (le_key e) txn vs = Some (Inr (lookup_leaf (le_key e) txn vs (insert_entry e es))))
    \<and> (\<forall>k txn vs. not_nan k \<and> \<not> of_key k e \<longrightarrow> bt_get pg' (page_of t) k txn vs = bt_get pg (page_of t) k txn vs)"
proof -
  let ?k = "le_key e" and ?root = "page_of t"
  obtain i n sib es where leaf: "findLeaf pg ?k ?root = Some (Inr i)"
      "loadNode pg i = Inr (\<lparr>nh_type = NLeaf, nh_num_entries = n, nh_right_sibling = sib\<rparr>, [], es)"
      "filter (of_key ?k) es = filter (of_key ?k) (inorder t)" "i \<noteq> 0" "(i, sib, es) \<in> set (leaves t)"
    using findLeaf_leaf [OF assms(2,3,6)] by blast
  have es: "\<forall>f \<in> set es. leaf_entry_fits f" using assms(4) leaf(5) by (auto simp: inorder_leaves)
  have room: "length es < 64" "approxBytes (insert_entry e es) \<le> DATA_PAGE_PAYLOAD_SIZE - 64" "\<forall>f \<in> set es. \<not> same_version e f"
    using assms(7) leaf(1,2) by (auto simp: has_room_def)
  obtain pg' where pg': "put_at pg ?root i e = Some (Inr (pg', ?root, True))" "pg_ok pg'"
      "loadNode pg' i = Inr (\<lparr>nh_type = NLeaf, nh_num_entries = n + 1, nh_right_sibling = sib\<rparr>, [], insert_entry e es)"
      "\<forall>j. j \<noteq> i \<longrightarrow> loadNode pg' j = loadNode pg j"
    using put_at_roomy [OF assms(1,5) es leaf(4,2) room] by blast
  have same: "findLeaf pg' k ?root = findLeaf pg k ?root" if "not_nan k" for k
    by (rule findLeaf_same [OF assms(2,3) that leaf(2) pg'(3,4)])
  have "bt_get pg' ?root ?k txn vs = Some (Inr (lookup_leaf ?k txn vs (insert_entry e es)))" for txn vs
    using same [OF assms(6)] leaf(1) pg'(3) by (simp add: bt_get_def)
  moreover have "bt_get pg' ?root k txn vs = bt_get pg ?root k txn vs" if k: "not_nan k" "\<not> of_key k e" for k txn vs
  proof -
    obtain j where j: "findLeaf pg k ?root = Some (Inr j)" using findLeaf_leaf [OF assms(2,3) k(1)] by blast
    have "filter (of_key k) (insert_entry e es) = filter (of_key k) es"
      using k(2) insert_entry_split [of es e] by auto
    then have "lookup_leaf k txn vs (insert_entry e es) = lookup_leaf k txn vs es" by (metis lookup_of_key)
    then show ?thesis using same [OF k(1)] j leaf(2) pg'(3,4) by (cases "j = i") (simp_all add: bt_get_def)
  qed
  moreover have "bt_put pg ?root e = Some (Inr (pg', ?root, True))" using leaf(1) pg'(1) by (simp add: bt_put_def)
  ultimately show ?thesis using pg'(2) leaf(3,5) by blast
qed


section \<open>Staged versions come last\<close>

definition key_sorted :: "LeafEntry list \<Rightarrow> bool" where
  "key_sorted es \<longleftrightarrow> sorted_wrt (\<lambda>f g. \<not> value_less (le_key g) (le_key f)) es"

lemma value_eq_compare: "not_nan v \<Longrightarrow> value_eq v w \<Longrightarrow> \<not> value_ne w v"
  by (cases v; cases w) (auto simp: value_ne_def compare_refl d_eq_def compare_def three_way_def d_less_def)

lemma insert_staged_last:
  assumes "key_sorted es" "\<forall>f \<in> set es. not_nan (le_key f)" "not_nan (le_key e)" "le_commitSeq e = 0"
    and "\<forall>f \<in> set es. of_key (le_key e) f \<longrightarrow> le_commitSeq f \<noteq> 0"
  shows "filter (of_key (le_key e)) (insert_entry e es) = filter (of_key (le_key e)) es @ [e]"
  using assms
proof (induction es)
  case Nil
  then show ?case by (simp add: of_key_eqv vo.eqv_refl)
next
  case (Cons f fs)
  let ?k = "le_key e"
  show ?case
  proof (cases "goes_before e f")
    case True
    then have less: "value_less ?k (le_key f)"
      using Cons.prems value_eq_compare [of ?k "le_key f"] by (auto simp: goes_before_def of_key_def)
    have "\<not> of_key ?k g" if "g \<in> set (f # fs)" for g
    proof -
      have "\<not> value_less (le_key g) (le_key f) \<or> g = f" using Cons.prems(1) that by (auto simp: key_sorted_def)
      then have "value_less ?k (le_key g)"
        using less Cons.prems(2,3) that vo.negtrans [of ?k "le_key g" "le_key f"] by auto
      then show ?thesis using that Cons.prems(2,3) by (auto simp: of_key_eqv vo.eqv_def)
    qed
    then have "filter (of_key ?k) (f # fs) = []" by (simp only: filter_empty_conv) blast
    then show ?thesis using True Cons.prems(3) by (simp add: of_key_eqv vo.eqv_refl split: if_splits)
  next
    case False
    with Cons show ?thesis by (simp add: key_sorted_def)
  qed
qed

text \<open>
  A transaction does not read its own update: when every stored version of the key is committed
  and one of them is visible, staging a new version leaves the answer of the lookup as it was, also
  for the transaction that staged it, because staged versions (sequence 0) are placed after all
  committed ones.
\<close>
theorem staged_write_hidden:
  assumes "pg_ok pg" "tree_at pg t" "tree_ok t" "\<forall>f \<in> set (inorder t). leaf_entry_fits f"
    and "leaf_entry_fits e" "not_nan (le_key e)" "has_room pg (page_of t) e" "le_commitSeq e = 0"
    and "\<forall>(i, sib, es) \<in> set (leaves t). key_sorted es"
    and "\<forall>f \<in> set (inorder t). of_key (le_key e) f \<longrightarrow> le_commitSeq f \<noteq> 0"
    and "f \<in> set (inorder t)" "of_key (le_key e) f" "visible_entry txn vs f"
  shows "\<exists>pg'. bt_put pg (page_of t) e = Some (Inr (pg', page_of t, True))
    \<and> bt_get pg' (page_of t) (le_key e) txn vs = bt_get pg (page_of t) (le_key e) txn vs"
proof -
  let ?k = "le_key e"
  obtain pg' i sib es where put: "bt_put pg (page_of t) e = Some (Inr (pg', page_of t, True))"
      "(i, sib, es) \<in> set (leaves t)" "filter (of_key ?k) es = filter (of_key ?k) (inorder t)"
      "bt_get pg' (page_of t) ?k txn vs = Some (Inr (lookup_leaf ?k txn vs (insert_entry e es)))"
    using put_step [OF assms(1-7)] by blast
  have es: "set es \<subseteq> set (inorder t)" using put(2) by (auto simp: inorder_leaves)
  then have "filter (of_key ?k) (insert_entry e es) = filter (of_key ?k) es @ [e]"
    using put(2) assms(6,8-10) tree_ok_not_nan [OF assms(3)] by (intro insert_staged_last) auto
  moreover have "find (visible_entry txn vs) (xs @ [e]) = find (visible_entry txn vs) xs" if "f \<in> set xs" for xs
    using that assms(13) by (induction xs) auto
  moreover have "f \<in> set (filter (of_key ?k) es)" using put(3) assms(11,12) by simp
  ultimately have "lookup_leaf ?k txn vs (insert_entry e es) = lookup_leaf ?k txn vs (inorder t)"
    unfolding lookup_leaf_def of_key_def [symmetric] find_conj_filter using put(3) by simp
  moreover have "bt_get pg (page_of t) ?k txn vs = Some (Inr (lookup_leaf ?k txn vs (inorder t)))"
    by (rule tree_lookup [OF assms(2,3,6)])
  ultimately show ?thesis using put(1,4) by auto
qed

section \<open>Splitting a leaf\<close>

lemma newPage_fresh:
  assumes "pg_ok pg" "pg_pageCount pg + 1 < 2 ^ 32" "ty = NLeaf \<or> ty = NInternal"
  shows "\<exists>pg' i. newPage ty pg = Inr (pg', i) \<and> pg_ok pg' \<and> i \<notin> live pg \<and> insert i (live pg) \<subseteq> live pg'
    \<and> (\<forall>j. j \<noteq> i \<and> j < pg_pageCount pg \<longrightarrow> loadNode pg' j = loadNode pg j)"
proof -
  obtain pg1 i where pg1: "allocate_run 1 pg = Inr (pg1, i)" "pg_ok pg1" "{i..<i + 1} \<inter> live pg = {}"
      "{i..<i + 1} \<union> live pg \<subseteq> live pg1" "\<forall>j < pg_pageCount pg. readPage pg1 j = readPage pg j"
    using allocate_run_fresh [OF assms(1) _ assms(2)] by auto
  have i: "1 \<le> i" "i < pg_pageCount pg1" using pg1(4) by (auto simp: live_def)
  let ?nd = "(\<lparr>nh_type = ty, nh_num_entries = 0, nh_right_sibling = 0\<rparr>, [], []) :: node"
  have "node_fits ?nd" using assms(3) by (auto simp: node_fits_def page_sizes)
  then obtain pg' where pg': "saveNode i ?nd pg1 = Inr pg'" "pg_ok pg'" "pg_pageCount pg' = pg_pageCount pg1"
      "pg_alloc pg' = pg_alloc pg1" "\<forall>j. j \<noteq> i \<longrightarrow> loadNode pg' j = loadNode pg1 j"
    using save_then_load [OF pg1(2) _ i] by blast
  have "newPage ty pg = Inr (pg', i)" using pg1(1) pg'(1) by (simp add: newPage_def allocatePage_def)
  moreover have "live pg' = live pg1" using pg'(3,4) by (simp add: live_def)
  moreover have "loadNode pg' j = loadNode pg j" if "j \<noteq> i" "j < pg_pageCount pg" for j
    using that pg'(5) pg1(5) by (simp add: loadNode_def)
  ultimately show ?thesis using pg' pg1(3,4) by (intro exI [of _ pg'] exI [of _ i]) auto
qed

text \<open>
  A leaf split loses nothing: when both halves fit a page, the left half stays on the page of the
  leaf, the right half goes to a page that was not in use, together they hold exactly the old entries
  in order, the chain runs from left to right and on to the old sibling, and no other page changes.
\<close>
theorem leaf_split_keeps_entries:
  assumes "pg_ok pg" "pg_pageCount pg + 1 < 2 ^ 32" "i \<in> live pg" "2 \<le> length es" "length es < 2 ^ 16"
    and "\<forall>f \<in> set es. leaf_entry_fits f" "nh_right_sibling hdr < 2 ^ 32"
    and "8 + length (concat (map leaf_bytes (take (length es div 2) es))) \<le> DATA_PAGE_PAYLOAD_SIZE"
    and "8 + length (concat (map leaf_bytes (drop (length es div 2) es))) \<le> DATA_PAGE_PAYLOAD_SIZE"
  shows "\<exists>pg' r left right n m. splitLeaf i hdr es pg = Inr (pg', r, le_key (hd right)) \<and> pg_ok pg' \<and> r \<notin> live pg
    \<and> left @ right = es \<and> left \<noteq> [] \<and> right \<noteq> []
    \<and> loadNode pg' i = Inr (\<lparr>nh_type = NLeaf, nh_num_entries = n, nh_right_sibling = r\<rparr>, [], left)
    \<and> loadNode pg' r = Inr (\<lparr>nh_type = NLeaf, nh_num_entries = m, nh_right_sibling = nh_right_sibling hdr\<rparr>, [], right)
    \<and> (\<forall>j. j \<noteq> i \<and> j \<noteq> r \<and> j < pg_pageCount pg \<longrightarrow> loadNode pg' j = loadNode pg j)"
proof -
  define left right where "left = take (length es div 2) es" and "right = drop (length es div 2) es"
  note halves = left_def right_def
  obtain pg1 r where pg1: "newPage NLeaf pg = Inr (pg1, r)" "pg_ok pg1" "r \<notin> live pg" "insert r (live pg) \<subseteq> live pg1"
      "\<forall>j. j \<noteq> r \<and> j < pg_pageCount pg \<longrightarrow> loadNode pg1 j = loadNode pg j"
    using newPage_fresh [OF assms(1,2)] by blast
  have "i \<in> live pg1" "r \<in> live pg1" using pg1(4) assms(3) by auto
  then have ir: "i \<noteq> r" "1 \<le> i" "i < pg_pageCount pg1" "1 \<le> r" "r < pg_pageCount pg1"
    using pg1(3) assms(3) by (auto simp: live_def)
  let ?L = "(\<lparr>nh_type = NLeaf, nh_num_entries = of_nat (length left), nh_right_sibling = r\<rparr>, [], left) :: node"
  let ?R = "(\<lparr>nh_type = NLeaf, nh_num_entries = of_nat (length right), nh_right_sibling = nh_right_sibling hdr\<rparr>, [], right) :: node"
  have small: "length left < 2 ^ 16" "length right < 2 ^ 16" using assms(5) by (auto simp: halves)
  have r32: "r < 2 ^ 32" using ir(5) pg1(2) by (simp add: pg_ok_def)
  have in_es: "\<forall>f \<in> set left \<union> set right. leaf_entry_fits f"
    using assms(6) by (auto simp: halves dest: in_set_takeD in_set_dropD)
  have unat16: "unat (of_nat k :: u16) = k" if "k < 2 ^ 16" for k using that by (simp add: unat_of_nat)
  have fits: "node_fits ?L" "node_fits ?R"
    using in_es assms(7-9) [folded halves] r32 small unat16 by (simp_all add: node_fits_def NLeaf_def NInternal_def)
  obtain pg2 where pg2: "saveNode i ?L pg1 = Inr pg2" "pg_ok pg2" "loadNode pg2 i = Inr ?L" "pg_pageCount pg2 = pg_pageCount pg1"
      "\<forall>j. j \<noteq> i \<longrightarrow> loadNode pg2 j = loadNode pg1 j"
    using save_then_load [OF pg1(2) fits(1) ir(2,3)] by blast
  obtain pg3 where pg3: "saveNode r ?R pg2 = Inr pg3" "pg_ok pg3" "loadNode pg3 r = Inr ?R"
      "\<forall>j. j \<noteq> r \<longrightarrow> loadNode pg3 j = loadNode pg2 j"
    using save_then_load [OF pg2(2) fits(2) ir(4)] ir(5) pg2(4) by auto
  have ne: "left \<noteq> []" "right \<noteq> []" using assms(4) by (auto simp: halves)
  have "splitLeaf i hdr es pg = Inr (pg3, r, le_key (hd right))"
    using ne(2) pg1(1) pg2(1) pg3(1) by (simp only: splitLeaf_def Let_def flip: halves) simp
  moreover have "loadNode pg3 i = Inr ?L" using pg3(4) pg2(3) ir(1) by simp
  moreover have "\<forall>j. j \<noteq> i \<and> j \<noteq> r \<and> j < pg_pageCount pg \<longrightarrow> loadNode pg3 j = loadNode pg j"
    using pg3(4) pg2(5) pg1(5) by simp
  moreover have "left @ right = es" by (simp add: halves)
  ultimately show ?thesis using pg3(2,3) pg1(3) ne by blast
qed

section \<open>A split inside the versions of a key\<close>

text \<open>
  The separator of a split is the first key of the right half. When the left half ends with versions
  of the same key (the newest ones come first), a lookup of that key descends to the right and never
  sees them.
\<close>

lemma split_group_lookup:
  assumes "tree_at pg (BNode root [(VNull, BLeaf l sl es), (k, BLeaf r sr fs)])" "not_nan k" "k \<noteq> VNull"
  shows "bt_get pg root k txn vs = Some (Inr (lookup_leaf k txn vs fs))"
proof -
  obtain n sib where ld: "loadNode pg root = Inr (\<lparr>nh_type = NInternal, nh_num_entries = n, nh_right_sibling = sib\<rparr>,
      [\<lparr>ie_key = VNull, ie_child = l\<rparr>, \<lparr>ie_key = k, ie_child = r\<rparr>], [])" and r: "r \<noteq> 0"
    and leaf: "\<exists>m. loadNode pg r = Inr (\<lparr>nh_type = NLeaf, nh_num_entries = m, nh_right_sibling = sr\<rparr>, [], fs)"
    using assms(1) by auto
  have "value_ge k k" using assms(2) vo.irrefl by (simp add: value_ge_iff)
  moreover have "value_ge k VNull"
    by (cases k) (simp_all add: value_ge_def compare_def Let_def)
  ultimately have "next_child k [\<lparr>ie_key = VNull, ie_child = l\<rparr>, \<lparr>ie_key = k, ie_child = r\<rparr>] = Inr r"
    using r by (simp add: next_child_def)
  then have "findLeaf pg k root = findLeaf pg k r"
    using ld by (subst findLeaf.simps) (simp add: NInternal_def NLeaf_def)
  also have "\<dots> = Some (Inr r)" using leaf by (subst findLeaf.simps) auto
  finally show ?thesis using leaf by (auto simp: bt_get_def)
qed


section \<open>Witnesses\<close>

lemma demo_has_room:
  assumes "tree_at pg demo_tree" "length (leaf_bytes e) = 42" "\<not> same_version e (demo_entry 5)"
  shows "has_room pg (page_of demo_tree) e"
proof -
  obtain n where ld: "loadNode pg 1 = Inr (\<lparr>nh_type = NLeaf, nh_num_entries = n, nh_right_sibling = 0\<rparr>, [], [demo_entry 5])"
    using assms(1) by (auto simp: demo_tree_def)
  then have "findLeaf pg (le_key e) 1 = Some (Inr 1)" by (subst findLeaf.simps) simp
  moreover have "approxBytes (insert_entry e [demo_entry 5]) = 84"
    using insert_entry_split [of "[demo_entry 5]" e] assms(2)
    by (auto simp: approxBytes_concat demo_entry_fits append_eq_Cons_conv)
  ultimately show ?thesis using ld assms(3) by (simp add: has_room_def demo_tree_def page_sizes)
qed

lemma demo_six: "tree_at pg demo_tree \<Longrightarrow> has_room pg (page_of demo_tree) (demo_entry 6)"
  by (rule demo_has_room) (simp_all add: demo_entry_fits same_version_def, simp add: demo_entry_def)

definition staged_five :: LeafEntry where
  "staged_five = (demo_entry 5)\<lparr>le_commitSeq := 0, le_txnId := 7\<rparr>"

lemma staged_five_ok:
  "leaf_entry_fits staged_five" "length (leaf_bytes staged_five) = 42" "\<not> same_version staged_five (demo_entry 5)"
  using demo_entry_fits [of 5]
  by (simp_all add: staged_five_def leaf_entry_fits_def leaf_bytes_def leaf_fixed_def same_version_def demo_entry_def)


theorem leaf_split_keeps_entries_witness:
  "\<exists>pg' r k. splitLeaf 1 (fst demo_leaf) [demo_entry 5, demo_entry 6] demo_pager = Inr (pg', r, k) \<and> r \<notin> live demo_pager"
proof -
  have "1 \<in> live demo_pager" by (simp add: live_def demo_pager_def del: replicate_Suc)
  then show ?thesis
    using leaf_split_keeps_entries [OF demo_pager_ok _ \<open>1 \<in> live demo_pager\<close>, of "[demo_entry 5, demo_entry 6]" "fst demo_leaf"]
    by (auto simp: demo_entry_fits page_sizes demo_leaf_def) (auto simp: demo_pager_def)
qed


theorem staged_write_hidden_witness:
  "\<exists>pg pg'. bt_put pg 1 staged_five = Some (Inr (pg', 1, True)) \<and> bt_get pg' 1 (VInt32 5) 7 3 = bt_get pg 1 (VInt32 5) 7 3"
proof -
  obtain pg where pg: "pg_ok pg" "tree_at pg demo_tree" using demo_tree_at by blast
  have eq: "le_key staged_five = VInt32 5" "le_commitSeq staged_five = 0" "not_nan (le_key staged_five)" "page_of demo_tree = 1"
    by (simp_all add: staged_five_def demo_entry_def demo_tree_def)
  have key: "of_key (VInt32 5) (demo_entry 5)" "visible_entry 7 3 (demo_entry 5)" "le_commitSeq (demo_entry 5) \<noteq> 0"
    by (simp_all add: of_key_def value_ne_def compare_refl visible_entry_def demo_entry_def)
  have "\<exists>pg'. bt_put pg (page_of demo_tree) staged_five = Some (Inr (pg', page_of demo_tree, True))
      \<and> bt_get pg' (page_of demo_tree) (le_key staged_five) 7 3 = bt_get pg (page_of demo_tree) (le_key staged_five) 7 3"
    by (rule staged_write_hidden [OF pg demo_tree_ok _ staged_five_ok(1) eq(3)
          demo_has_room [OF pg(2) staged_five_ok(2,3)] eq(2), of "demo_entry 5"])
      (use key eq in \<open>simp_all add: demo_tree_def demo_entry_fits key_sorted_def\<close>)
  then show ?thesis using eq by auto
qed

end
