(* ===== verification/Local_File.thy ===== *)
theory Local_File
  imports File_Metadata BTree_Writes InMemory_Provider
begin

text \<open>
  The file-backed provider and engine (\<open>storage/LocalFileStorageProvider.hpp\<close>): one pager, one B+tree
  per table and the registry of theory \<open>File_Metadata\<close> on page 1. The calls of a method go through to
  the tree and the pager, so a method may throw (\<open>Some (Inl e)\<close>) or, on a damaged file, not return
  (\<open>None\<close>). \<open>lf_trees\<close> is \<open>btrees_\<close>: the root of each tree, or \<open>None\<close> for a tree whose pager was
  destroyed by \<open>close\<close>. The bytes of the file are an argument of \<open>open\<close> and a result of \<open>close\<close> and
  \<open>backupTo\<close>. The hash maps are association lists in insertion order,
  one of the orders that the standard library may iterate in.
\<close>

section \<open>State\<close>

record LFProvider =
  lf_pager :: "Pager option"
  lf_meta_page :: PageId
  lf_md :: Metadata
  lf_trees :: "(string \<times> PageId option) list"
  lf_opened :: bool
  lf_path :: string

definition lf_init :: LFProvider where
  "lf_init = \<lparr>lf_pager = None, lf_meta_page = 1, lf_md = \<lparr>md_visible_seq = 0, md_internal_seq = 0, md_tables = []\<rparr>,
     lf_trees = [], lf_opened = False, lf_path = []\<rparr>"

type_synonym 'a outcome = "'a result option"

definition obind :: "'a outcome \<Rightarrow> ('a \<Rightarrow> 'b outcome) \<Rightarrow> 'b outcome" where
  "obind r f = (case r of None \<Rightarrow> None | Some (Inl e) \<Rightarrow> Some (Inl e) | Some (Inr a) \<Rightarrow> f a)"

text \<open>The pager of an open provider; a null pointer is not dereferenced.\<close>

definition the_pager :: "LFProvider \<Rightarrow> Pager result" where
  "the_pager p = (case lf_pager p of None \<Rightarrow> Inl Undefined | Some pg \<Rightarrow> Inr pg)"

definition tree_root :: "LFProvider \<Rightarrow> string \<Rightarrow> (Pager \<times> PageId) result option" where
  "tree_root p table =
     (case map_of (lf_trees p) table of
        None \<Rightarrow> None
      | Some None \<Rightarrow> Some (Inl Undefined)
      | Some (Some root) \<Rightarrow> Some (rbind (the_pager p) (\<lambda>pg. Inr (pg, root))))"

definition save_registry :: "LFProvider \<Rightarrow> LFProvider result" where
  "save_registry p =
     rbind (the_pager p) (\<lambda>pg. rbind (saveMetadata (lf_meta_page p) (lf_md p) pg) (\<lambda>pg. Inr (p\<lparr>lf_pager := Some pg\<rparr>)))"

definition set_tables :: "(string \<times> TableInfo) list \<Rightarrow> LFProvider \<Rightarrow> LFProvider" where
  "set_tables ts p = p\<lparr>lf_md := (lf_md p)\<lparr>md_tables := ts\<rparr>\<rparr>"

definition strip_file :: "string \<Rightarrow> string" where
  "strip_file uri = (if take 7 uri = ''file://'' then drop 7 uri else uri)"

text \<open>\<open>typeVocabulary().accepted\<close>.\<close>

definition lf_accepted :: "ValueType list" where
  "lf_accepted = [TNull, TBool, TInt32, TInt64, TDouble, TText, TBlob, TDate, TTimestamp]"

section \<open>Opening and closing\<close>

definition lf_open :: "LFProvider \<Rightarrow> string \<Rightarrow> bytes \<Rightarrow> (LFProvider \<times> DbError) result" where
  "lf_open p uri file =
     (if lf_opened p then Inr (p, sentinel)
      else let p = p\<lparr>lf_path := strip_file uri\<rparr>
           in case pager_open file of
                Inl (RuntimeError m) \<Rightarrow> Inr (p, db_error Internal (''LocalFileStorageProvider: cannot open: '' @ m))
              | Inl e \<Rightarrow> Inl e
              | Inr pg \<Rightarrow>
                  (if pg_pageCount pg \<le> 1
                   then rbind (allocatePage pg) (\<lambda>(pg, meta).
                        rbind (save_registry (p\<lparr>lf_pager := Some pg, lf_meta_page := meta\<rparr>)) (\<lambda>p.
                          Inr (p\<lparr>lf_opened := True\<rparr>, sentinel)))
                   else rbind (loadMetadata 1 pg (lf_md p)) (\<lambda>(md, ok).
                          let p = p\<lparr>lf_pager := Some pg, lf_meta_page := 1, lf_md := md\<rparr>
                          in if \<not> ok then Inr (p, db_error Internal ''LocalFileStorageProvider: corrupted metadata page'')
                             else Inr (p\<lparr>lf_opened := True, lf_trees :=
                                    foldl (\<lambda>trees (name, info). AList.update name (Some (ti_rootPageId info)) trees)
                                      (lf_trees p) (md_tables md)\<rparr>, sentinel))))"

definition lf_close :: "LFProvider \<Rightarrow> (LFProvider \<times> bytes option \<times> DbError) result" where
  "lf_close p =
     (if \<not> lf_opened p then Inr (p, None, sentinel)
      else rbind (save_registry p) (\<lambda>p.
           rbind (the_pager p) (\<lambda>pg.
             Inr (p\<lparr>lf_pager := None, lf_opened := False, lf_trees := map (\<lambda>(n, r). (n, None)) (lf_trees p)\<rparr>,
                  Some (pg_file (pager_close pg)), sentinel))))"

text \<open>
  \<open>backupTo\<close>: the bytes that the copy gets; \<open>ec\<close> is the message of a copy that failed. A tree without a
  pager cannot be flushed.
\<close>

definition lf_backupTo :: "LFProvider \<Rightarrow> string option \<Rightarrow> (LFProvider \<times> bytes option \<times> DbError) result" where
  "lf_backupTo p ec =
     (if \<not> lf_opened p \<or> lf_pager p = None then Inr (p, None, db_error Internal ''provider not open'')
      else rbind (save_registry p) (\<lambda>p.
           rbind (the_pager p) (\<lambda>pg.
             if None \<in> snd ` set (lf_trees p) then Inl Undefined
             else if lf_path p = [] then Inr (p, None, db_error Internal ''backupTo: source path unknown'')
             else case ec of
                    Some m \<Rightarrow> Inr (p, None, db_error Internal (''backupTo: copy failed: '' @ m))
                  | None \<Rightarrow> Inr (p, Some (pg_file pg), sentinel))))"

section \<open>Tables\<close>

definition lf_createTable :: "LFProvider \<Rightarrow> Schema \<Rightarrow> (LFProvider \<times> DbError) result" where
  "lf_createTable p schema =
     (if \<not> lf_opened p then Inr (p, db_error Internal ''provider not open'')
      else if map_of (md_tables (lf_md p)) (sc_table schema) \<noteq> None
      then Inr (p, db_error Internal (''table '' @ quoted (sc_table schema) @ '' already exists''))
      else case List.find (\<lambda>c. cd_type c \<notin> set lf_accepted) (sc_columns schema) of
             Some col \<Rightarrow> Inr (p, db_error NotSupported
               (''column '' @ quoted (cd_name col) @ '' type not accepted by local-file provider''))
           | None \<Rightarrow>
               rbind (the_pager p) (\<lambda>pg.
               rbind (createNew pg) (\<lambda>(pg, root).
               rbind (save_registry (set_tables (AList.update (sc_table schema)
                        \<lparr>ti_schema = schema, ti_rootPageId = root, ti_autoId = 0\<rparr> (md_tables (lf_md p)))
                      (p\<lparr>lf_pager := Some pg, lf_trees := AList.update (sc_table schema) (Some root) (lf_trees p)\<rparr>))) (\<lambda>p.
                 Inr (p, sentinel)))))"

definition lf_dropTable :: "LFProvider \<Rightarrow> string \<Rightarrow> (LFProvider \<times> DbError) result" where
  "lf_dropTable p name =
     (if \<not> lf_opened p then Inr (p, db_error Internal ''provider not open'')
      else if map_of (md_tables (lf_md p)) name = None then Inr (p, table_not_found name)
      else rbind (case tree_root p name of
                    None \<Rightarrow> the_pager p
                  | Some r \<Rightarrow> rbind r (\<lambda>(pg, root). rbind (freeAllPages pg root) (\<lambda>(pg, _). Inr pg))) (\<lambda>pg.
           rbind (save_registry (set_tables (AList.delete name (md_tables (lf_md p)))
                    (p\<lparr>lf_pager := Some pg, lf_trees := AList.delete name (lf_trees p)\<rparr>))) (\<lambda>p.
             Inr (p, sentinel))))"

definition lf_alterTable :: "LFProvider \<Rightarrow> string \<Rightarrow> AlterSpec \<Rightarrow> (LFProvider \<times> DbError) result" where
  "lf_alterTable p name sp =
     (let ts = md_tables (lf_md p); stored = (\<lambda>p. rbind (save_registry p) (\<lambda>p. Inr (p, sentinel)))
      in if \<not> lf_opened p then Inr (p, db_error Internal ''provider not open'')
         else case map_of ts name of
                None \<Rightarrow> Inr (p, table_not_found name)
              | Some info \<Rightarrow>
                  (let sc = ti_schema info
                   in case as_kind sp of
                        AddColumn \<Rightarrow>
                          if schema_find sc (cd_name (as_columnDef sp)) \<noteq> None
                          then Inr (p, db_error Internal (''column '' @ quoted (cd_name (as_columnDef sp)) @ '' already exists''))
                          else stored (set_tables (AList.update name (info\<lparr>ti_schema := sc\<lparr>sc_columns := sc_columns sc @ [as_columnDef sp]\<rparr>\<rparr>) ts) p)
                      | DropColumn \<Rightarrow>
                          if List.find (\<lambda>c. cd_name c = as_column sp) (sc_columns sc) = None
                          then Inr (p, db_error NotFound (''column '' @ quoted (as_column sp) @ '' not found''))
                          else stored (set_tables (AList.update name (info\<lparr>ti_schema := sc\<lparr>sc_columns := remove_column (as_column sp) (sc_columns sc)\<rparr>\<rparr>) ts) p)
                      | RenameTable \<Rightarrow>
                          if as_column sp = [] then Inr (p, db_error Internal ''rename requires new name'')
                          else if map_of ts (as_column sp) \<noteq> None
                          then Inr (p, db_error Internal (''table '' @ quoted (as_column sp) @ '' already exists''))
                          else stored (set_tables (AList.update (as_column sp) (info\<lparr>ti_schema := sc\<lparr>sc_table := as_column sp\<rparr>\<rparr>) (AList.delete name ts))
                                 (case map_of (lf_trees p) name of
                                    None \<Rightarrow> p
                                  | Some r \<Rightarrow> p\<lparr>lf_trees := AList.update (as_column sp) r (AList.delete name (lf_trees p))\<rparr>))))"

definition lf_describeTable :: "LFProvider \<Rightarrow> string \<Rightarrow> Schema option" where
  "lf_describeTable p name = map_option ti_schema (map_of (md_tables (lf_md p)) name)"

definition lf_tables :: "LFProvider \<Rightarrow> string list" where
  "lf_tables p = map fst (md_tables (lf_md p))"

section \<open>Rows\<close>

definition lf_get :: "LFProvider \<Rightarrow> TxnId \<Rightarrow> string \<Rightarrow> Value \<Rightarrow> Tuple option outcome" where
  "lf_get p txn table key =
     (case tree_root p table of
        None \<Rightarrow> Some (Inr None)
      | Some r \<Rightarrow>
          obind (Some r) (\<lambda>(pg, root).
          obind (bt_get pg root key txn (md_visible_seq (lf_md p))) (\<lambda>res.
            Some (Inr (if \<not> lr_found res \<or> lr_tombstone res then None else Some (lr_payload res))))))"

definition blank_info :: TableInfo where
  "blank_info = \<lparr>ti_schema = \<lparr>sc_table = [], sc_columns = [], sc_partition = None\<rparr>, ti_rootPageId = 0, ti_autoId = 0\<rparr>"

text \<open>\<open>tables_[table]\<close> as an l-value.\<close>

definition adjust_info :: "string \<Rightarrow> (TableInfo \<Rightarrow> TableInfo) \<Rightarrow> LFProvider \<Rightarrow> LFProvider" where
  "adjust_info table f p =
     (let ts = md_tables (lf_md p); info = (case map_of ts table of None \<Rightarrow> blank_info | Some i \<Rightarrow> i)
      in set_tables (AList.update table (f info) ts) p)"

definition syncRoot :: "string \<Rightarrow> PageId \<Rightarrow> LFProvider \<Rightarrow> LFProvider" where
  "syncRoot table root p = adjust_info table (\<lambda>i. i\<lparr>ti_rootPageId := root\<rparr>) p"

definition info_of :: "LFProvider \<Rightarrow> string \<Rightarrow> TableInfo" where
  "info_of p table = (case map_of (md_tables (lf_md p)) table of None \<Rightarrow> blank_info | Some i \<Rightarrow> i)"

definition tree_put :: "string \<Rightarrow> LeafEntry \<Rightarrow> LFProvider \<Rightarrow> Pager \<times> PageId \<Rightarrow> (LFProvider \<times> PageId) outcome" where
  "tree_put table e p pr =
     obind (bt_put (fst pr) (snd pr) e) (\<lambda>(pg, root, added).
       Some (Inr (p\<lparr>lf_pager := Some pg, lf_trees := AList.update table (Some root) (lf_trees p)\<rparr>, root)))"

definition lf_put :: "LFProvider \<Rightarrow> TxnId \<Rightarrow> string \<Rightarrow> Value \<Rightarrow> Tuple \<Rightarrow> (LFProvider \<times> DbError) outcome" where
  "lf_put p txn table key row =
     (case tree_root p table of
        None \<Rightarrow> Some (Inr (p, table_not_found table))
      | Some r \<Rightarrow>
          obind (Some r) (\<lambda>pr.
            let n = ti_autoId (info_of p table) + 1;
                p = (if isNull key then adjust_info table (\<lambda>i. i\<lparr>ti_autoId := n\<rparr>) p else p);
                k = (if isNull key then VInt64 n else key);
                stored = (if isNull key then tset row ''_id'' k else row)
            in obind (tree_put table \<lparr>le_key = k, le_commitSeq = 0, le_txnId = txn, le_tombstone = False, le_payload = stored\<rparr> p pr)
                 (\<lambda>(p, root). Some (Inr (syncRoot table root p, sentinel)))))"

definition lf_remove :: "LFProvider \<Rightarrow> TxnId \<Rightarrow> string \<Rightarrow> Value \<Rightarrow> (LFProvider \<times> DbError) outcome" where
  "lf_remove p txn table key =
     (case tree_root p table of
        None \<Rightarrow> Some (Inr (p, table_not_found table))
      | Some r \<Rightarrow>
          obind (Some r) (\<lambda>pr.
          obind (tree_put table \<lparr>le_key = key, le_commitSeq = 0, le_txnId = txn, le_tombstone = True, le_payload = Tuple_empty\<rparr> p pr)
            (\<lambda>(p, root). Some (Inr (p, sentinel)))))"

definition keep_row :: "Value \<times> LookupResult \<Rightarrow> Tuple list \<Rightarrow> Tuple list \<times> bool" where
  "keep_row kr out = (if lr_tombstone (snd kr) then out else out @ [lr_payload (snd kr)], True)"

definition lf_scan :: "LFProvider \<Rightarrow> TxnId \<Rightarrow> string \<Rightarrow> Tuple list outcome" where
  "lf_scan p txn table =
     (case tree_root p table of
        None \<Rightarrow> Some (Inr [])
      | Some r \<Rightarrow> obind (Some r) (\<lambda>(pg, root). bt_scan pg root txn (md_visible_seq (lf_md p)) keep_row []))"

definition lf_rowCount :: "LFProvider \<Rightarrow> string \<Rightarrow> nat outcome" where
  "lf_rowCount p table = obind (lf_scan p 0xFFFFFFFFFFFFFFFF table) (\<lambda>rs. Some (Inr (length rs)))"

section \<open>Transactions\<close>

definition lf_prepare :: "LFProvider \<Rightarrow> TxnId \<Rightarrow> LFProvider \<times> DbError" where
  "lf_prepare p txn = (p, sentinel)"

definition lf_abort :: "LFProvider \<Rightarrow> TxnId \<Rightarrow> LFProvider \<times> DbError" where
  "lf_abort p txn = (p, sentinel)"

definition collect_staged :: "TxnId \<Rightarrow> LeafEntry \<Rightarrow> LeafEntry list \<Rightarrow> LeafEntry list \<times> bool" where
  "collect_staged txn e out = (if le_commitSeq e = 0 \<and> le_txnId e = txn then out @ [e] else out, True)"

fun put_all :: "string \<Rightarrow> LeafEntry list \<Rightarrow> LFProvider \<Rightarrow> LFProvider outcome" where
  "put_all table [] p = Some (Inr p)"
| "put_all table (e # es) p =
     (case tree_root p table of
        None \<Rightarrow> Some (Inl Undefined)
      | Some r \<Rightarrow> obind (Some r) (\<lambda>pr. obind (tree_put table e p pr) (\<lambda>(p, root). put_all table es p)))"

definition commit_tree :: "TxnId \<Rightarrow> u64 \<Rightarrow> string \<Rightarrow> LFProvider \<Rightarrow> LFProvider outcome" where
  "commit_tree txn visibleSeq table p =
     (case tree_root p table of
        None \<Rightarrow> Some (Inl Undefined)
      | Some r \<Rightarrow>
          obind (Some r) (\<lambda>(pg, root).
          obind (bt_scanAll pg root (collect_staged txn) []) (\<lambda>staged.
          obind (put_all table (map (\<lambda>e. e\<lparr>le_commitSeq := visibleSeq, le_txnId := txn\<rparr>) staged) p) (\<lambda>p.
            Some (Inr (case map_of (lf_trees p) table of Some (Some root) \<Rightarrow> syncRoot table root p | _ \<Rightarrow> p))))))"

fun commit_trees :: "TxnId \<Rightarrow> u64 \<Rightarrow> string list \<Rightarrow> LFProvider \<Rightarrow> LFProvider outcome" where
  "commit_trees txn visibleSeq [] p = Some (Inr p)"
| "commit_trees txn visibleSeq (t # ts) p =
     obind (commit_tree txn visibleSeq t p) (commit_trees txn visibleSeq ts)"

text \<open>The registry is written before \<open>visible_seq_\<close> advances.\<close>

definition lf_commit :: "LFProvider \<Rightarrow> TxnId \<Rightarrow> u64 \<Rightarrow> (LFProvider \<times> DbError) outcome" where
  "lf_commit p txn visibleSeq =
     obind (commit_trees txn visibleSeq (map fst (lf_trees p)) p) (\<lambda>p.
     obind (Some (save_registry p)) (\<lambda>p.
       Some (Inr (p\<lparr>lf_md := (lf_md p)\<lparr>md_visible_seq := max visibleSeq (md_visible_seq (lf_md p))\<rparr>\<rparr>, sentinel))))"

definition lf_commit_internal :: "LFProvider \<Rightarrow> TxnId \<Rightarrow> (LFProvider \<times> DbError) outcome" where
  "lf_commit_internal p txn =
     (let s = md_internal_seq (lf_md p) + 1
      in lf_commit (p\<lparr>lf_md := (lf_md p)\<lparr>md_internal_seq := s\<rparr>\<rparr>) txn s)"

section \<open>Diagnostics\<close>

definition lf_tableCount :: "LFProvider \<Rightarrow> nat" where
  "lf_tableCount p = length (md_tables (lf_md p))"

definition lf_rootPageId :: "LFProvider \<Rightarrow> string \<Rightarrow> PageId" where
  "lf_rootPageId p table = (case map_of (md_tables (lf_md p)) table of None \<Rightarrow> 0 | Some i \<Rightarrow> ti_rootPageId i)"

definition lf_freePageCount :: "LFProvider \<Rightarrow> nat" where
  "lf_freePageCount p = (case lf_pager p of None \<Rightarrow> 0 | Some pg \<Rightarrow> freeListSize pg)"

end
