(* ===== verification/Local_File_Laws.thy ===== *)
theory Local_File_Laws
  imports Local_File
begin

text \<open>
  Laws of the file-backed provider: the registry and the map of trees stay in step under every method,
  an insertion is seen by its own transaction only, and a provider that is closed and opened again on
  the same bytes answers as before.
\<close>

declare map_of_eq_Some_iff [simp del]

section \<open>The registry and the trees\<close>

text \<open>Every table is registered once, under the name in its schema, and has exactly one tree.\<close>

definition registry_wf :: "LFProvider \<Rightarrow> bool" where
  "registry_wf p \<longleftrightarrow> distinct (map fst (md_tables (lf_md p))) \<and> distinct (map fst (lf_trees p))
     \<and> (\<forall>n. map_of (lf_trees p) n = None \<longleftrightarrow> map_of (md_tables (lf_md p)) n = None)
     \<and> (\<forall>n i. map_of (md_tables (lf_md p)) n = Some i \<longrightarrow> sc_table (ti_schema i) = n)"

text \<open>The methods that return normally; \<open>open\<close> only when it reports no error.\<close>

inductive lf_step :: "LFProvider \<Rightarrow> LFProvider \<Rightarrow> bool" where
  opened: "lf_open p uri bs = Inr (p', sentinel) \<Longrightarrow> lf_step p p'"
| closed: "lf_close p = Inr (p', bs, e) \<Longrightarrow> lf_step p p'"
| backed_up: "lf_backupTo p ec = Inr (p', bs, e) \<Longrightarrow> lf_step p p'"
| create: "lf_createTable p sc = Inr (p', e) \<Longrightarrow> lf_step p p'"
| dropped: "lf_dropTable p n = Inr (p', e) \<Longrightarrow> lf_step p p'"
| alter: "lf_alterTable p n sp = Inr (p', e) \<Longrightarrow> lf_step p p'"
| put_row: "lf_put p txn n k row = Some (Inr (p', e)) \<Longrightarrow> lf_step p p'"
| remove_row: "lf_remove p txn n k = Some (Inr (p', e)) \<Longrightarrow> lf_step p p'"
| commit: "lf_commit p txn s = Some (Inr (p', e)) \<Longrightarrow> lf_step p p'"
| commit_internal: "lf_commit_internal p txn = Some (Inr (p', e)) \<Longrightarrow> lf_step p p'"

inductive lf_reach :: "LFProvider \<Rightarrow> bool" where
  start: "lf_reach lf_init"
| step: "lf_reach p \<Longrightarrow> lf_step p p' \<Longrightarrow> lf_reach p'"

lemma obind_Inr_iff: "obind r f = Some (Inr b) \<longleftrightarrow> (\<exists>a. r = Some (Inr a) \<and> f a = Some (Inr b))"
  by (auto simp: obind_def split: option.splits sum.splits)

lemma save_registry_wf: "save_registry p = Inr p' \<Longrightarrow> registry_wf p' = registry_wf p"
  by (auto simp: save_registry_def rbind_Inr_iff registry_wf_def)

lemma registry_init: "registry_wf lf_init"
  by (simp add: registry_wf_def lf_init_def)

lemma registry_add:
  assumes "registry_wf p" "sc_table (ti_schema i) = n"
  shows "registry_wf (set_tables (AList.update n i (md_tables (lf_md p))) (p\<lparr>lf_pager := pg, lf_trees := AList.update n r (lf_trees p)\<rparr>))"
  using assms by (auto simp: registry_wf_def set_tables_def distinct_update update_conv')

lemma registry_drop:
  assumes "registry_wf p"
  shows "registry_wf (set_tables (AList.delete n (md_tables (lf_md p))) (p\<lparr>lf_pager := pg, lf_trees := AList.delete n (lf_trees p)\<rparr>))"
  using assms by (auto simp: registry_wf_def set_tables_def distinct_delete delete_conv')

lemma registry_modify:
  assumes "registry_wf p" "map_of (md_tables (lf_md p)) n = Some j" "sc_table (ti_schema i) = n"
  shows "registry_wf (set_tables (AList.update n i (md_tables (lf_md p))) p)"
  using assms by (auto simp: registry_wf_def set_tables_def distinct_update update_conv')

lemma registry_rename:
  assumes "registry_wf p" "map_of (lf_trees p) n = Some r" "sc_table (ti_schema i) = m"
  shows "registry_wf (set_tables (AList.update m i (AList.delete n (md_tables (lf_md p))))
    (p\<lparr>lf_trees := AList.update m r (AList.delete n (lf_trees p))\<rparr>))"
  using assms by (auto simp: registry_wf_def set_tables_def distinct_update distinct_delete update_conv' delete_conv')

lemma create_wf: "lf_createTable p sc = Inr (p', e) \<Longrightarrow> registry_wf p \<Longrightarrow> registry_wf p'"
  by (auto simp: lf_createTable_def rbind_Inr_iff save_registry_wf registry_add split: if_splits option.splits)

lemma drop_wf: "lf_dropTable p n = Inr (p', e) \<Longrightarrow> registry_wf p \<Longrightarrow> registry_wf p'"
  by (auto simp: lf_dropTable_def rbind_Inr_iff save_registry_wf registry_drop split: if_splits)

lemma alter_wf:
  assumes "lf_alterTable p n sp = Inr (p', e)" "registry_wf p"
  shows "registry_wf p'"
proof (cases "map_of (md_tables (lf_md p)) n")
  case (Some info)
  obtain r where r: "map_of (lf_trees p) n = Some r"
    using assms(2) Some by (cases "map_of (lf_trees p) n") (auto simp: registry_wf_def)
  have nm: "sc_table (ti_schema info) = n" using assms(2) Some by (auto simp: registry_wf_def)
  have ren: "registry_wf (set_tables (AList.update m (info\<lparr>ti_schema := (ti_schema info)\<lparr>sc_table := m\<rparr>\<rparr>) (AList.delete n (md_tables (lf_md p))))
      (p\<lparr>lf_trees := AList.update m r (AList.delete n (lf_trees p))\<rparr>))" for m
    by (rule registry_rename [OF assms(2) r]) simp
  have col: "registry_wf (set_tables (AList.update n (info\<lparr>ti_schema := (ti_schema info)\<lparr>sc_columns := cs\<rparr>\<rparr>) (md_tables (lf_md p))) p)" for cs
    by (rule registry_modify [OF assms(2) Some]) (simp add: nm)
  show ?thesis using assms Some r ren [of "as_column sp"] col
    by (cases "as_kind sp") (auto simp: lf_alterTable_def Let_def rbind_Inr_iff save_registry_wf split: if_splits)
qed (use assms in \<open>auto simp: lf_alterTable_def Let_def split: if_splits\<close>)

lemma adjust_wf:
  assumes "registry_wf p" "map_of (lf_trees p) n \<noteq> None" "\<And>i. ti_schema (f i) = ti_schema i"
  shows "registry_wf (adjust_info n f p)"
proof -
  obtain i where i: "map_of (md_tables (lf_md p)) n = Some i"
    using assms(1,2) by (cases "map_of (md_tables (lf_md p)) n") (auto simp: registry_wf_def)
  moreover have "sc_table (ti_schema (f i)) = n" using assms(1,3) i by (simp add: registry_wf_def)
  ultimately show ?thesis using registry_modify [OF assms(1) i] by (simp add: adjust_info_def Let_def)
qed

lemma tree_root_known: "tree_root p n = Some r \<Longrightarrow> map_of (lf_trees p) n \<noteq> None"
  by (auto simp: tree_root_def split: option.splits)

lemma tree_put_wf:
  "tree_put n e p pr = Some (Inr (p', root)) \<Longrightarrow> registry_wf p \<Longrightarrow> map_of (lf_trees p) n \<noteq> None \<Longrightarrow>
     registry_wf p' \<and> map_of (lf_trees p') n \<noteq> None"
  by (auto simp: tree_put_def obind_Inr_iff registry_wf_def distinct_update update_conv' split: if_splits)

lemma put_all_wf:
  "put_all n es p = Some (Inr p') \<Longrightarrow> registry_wf p \<Longrightarrow> map_of (lf_trees p) n \<noteq> None \<Longrightarrow>
     registry_wf p' \<and> map_of (lf_trees p') n \<noteq> None"
proof (induction n es p rule: put_all.induct)
  case (2 n e es p)
  from 2(2) obtain r pr q root where q: "tree_root p n = Some r" "r = Inr pr" "tree_put n e p pr = Some (Inr (q, root))"
      "put_all n es q = Some (Inr p')"
    by (auto simp: obind_Inr_iff split: option.splits)
  with 2(1) tree_put_wf [OF q(3) 2(3,4)] show ?case by blast
qed auto

lemma put_wf:
  assumes "lf_put p txn n k row = Some (Inr (p', e))" "registry_wf p"
  shows "registry_wf p'"
proof (cases "tree_root p n")
  case (Some r)
  note known = tree_root_known [OF Some]
  define p1 where "p1 = (if isNull k then adjust_info n (\<lambda>i. i\<lparr>ti_autoId := ti_autoId (info_of p n) + 1\<rparr>) p else p)"
  have p1: "registry_wf p1" "map_of (lf_trees p1) n \<noteq> None"
    using adjust_wf [OF assms(2) known] assms(2) known by (auto simp: p1_def adjust_info_def Let_def set_tables_def)
  obtain pr ent q root where q: "tree_put n ent p1 pr = Some (Inr (q, root))" "p' = syncRoot n root q"
    using assms(1) Some by (auto simp: lf_put_def Let_def obind_Inr_iff p1_def)
  have "registry_wf q" "map_of (lf_trees q) n \<noteq> None" using tree_put_wf [OF q(1) p1] by auto
  then show ?thesis using q(2) adjust_wf [of q n] by (simp add: syncRoot_def)
qed (use assms in \<open>simp add: lf_put_def\<close>)

lemma remove_wf: "lf_remove p txn n k = Some (Inr (p', e)) \<Longrightarrow> registry_wf p \<Longrightarrow> registry_wf p'"
  using tree_root_known [of p n] tree_put_wf
  by (fastforce simp: lf_remove_def obind_Inr_iff split: option.splits)

lemma commit_tree_wf:
  assumes "commit_tree txn s n p = Some (Inr p')" "registry_wf p"
  shows "registry_wf p'"
proof -
  obtain r es q where q: "tree_root p n = Some r" "put_all n es p = Some (Inr q)"
      "p' = (case map_of (lf_trees q) n of Some (Some root) \<Rightarrow> syncRoot n root q | _ \<Rightarrow> q)"
    using assms(1) by (cases "tree_root p n") (auto simp: commit_tree_def obind_Inr_iff)
  have "registry_wf q" "map_of (lf_trees q) n \<noteq> None"
    using put_all_wf [OF q(2) assms(2) tree_root_known [OF q(1)]] by auto
  then show ?thesis using q(3) adjust_wf [of q n] by (auto simp: syncRoot_def split: option.splits)
qed

lemma commit_trees_wf: "commit_trees txn s ns p = Some (Inr p') \<Longrightarrow> registry_wf p \<Longrightarrow> registry_wf p'"
  by (induction txn s ns p rule: commit_trees.induct) (auto simp: obind_Inr_iff dest: commit_tree_wf)

lemma md_seq_wf [simp]: "registry_wf (p\<lparr>lf_md := (lf_md p)\<lparr>md_visible_seq := v\<rparr>\<rparr>) = registry_wf p"
    "registry_wf (p\<lparr>lf_md := (lf_md p)\<lparr>md_internal_seq := v\<rparr>\<rparr>) = registry_wf p"
  by (simp_all add: registry_wf_def)

lemma commit_wf: "lf_commit p txn s = Some (Inr (p', e)) \<Longrightarrow> registry_wf p \<Longrightarrow> registry_wf p'"
  by (auto simp: lf_commit_def obind_Inr_iff save_registry_wf dest: commit_trees_wf)

lemma rd_bind_Some_iff:
  "rd_bind r f bs = Inr (Some x) \<longleftrightarrow> (\<exists>a rest. r bs = Inr (Some (a, rest)) \<and> f a rest = Inr (Some x))"
  by (auto simp: rd_bind_def rbind_Inr_iff split: option.splits)

lemma rd_table_name: "rd_table bs = Inr (Some ((name, info), rest)) \<Longrightarrow> sc_table (ti_schema info) = name"
  by (auto simp: rd_table_def rd_bind_Some_iff rd_return_def)

lemma load_tables_names:
  "load_tables n bs ts = Inr (ts', ok) \<Longrightarrow> distinct (map fst ts) \<Longrightarrow>
     \<forall>n i. map_of ts n = Some i \<longrightarrow> sc_table (ti_schema i) = n \<Longrightarrow>
     distinct (map fst ts') \<and> (\<forall>n i. map_of ts' n = Some i \<longrightarrow> sc_table (ti_schema i) = n)
     \<and> (\<forall>n. map_of ts' n = None \<longrightarrow> map_of ts n = None)"
proof (induction n bs ts rule: load_tables.induct)
  case (2 n bs ts)
  show ?case
  proof (cases "rd_table bs")
    case (Inr r)
    show ?thesis
    proof (cases r)
      case None
      then show ?thesis using 2 Inr by simp
    next
      case (Some y)
      obtain name info rest where y: "y = ((name, info), rest)" by (cases y) auto
      have "sc_table (ti_schema info) = name" using rd_table_name Inr Some y by blast
      then have "distinct (map fst (AList.update name info ts))"
          "\<forall>n i. map_of (AList.update name info ts) n = Some i \<longrightarrow> sc_table (ti_schema i) = n"
        using 2(3,4) by (auto simp: distinct_update update_conv')
      moreover have "load_tables n rest (AList.update name info ts) = Inr (ts', ok)" using 2(2) Inr Some y by simp
      ultimately have "distinct (map fst ts') \<and> (\<forall>n i. map_of ts' n = Some i \<longrightarrow> sc_table (ti_schema i) = n)
          \<and> (\<forall>n. map_of ts' n = None \<longrightarrow> map_of (AList.update name info ts) n = None)"
        using 2(1) [OF refl] y by blast
      then show ?thesis by (simp add: update_conv' split: if_splits) (metis option.distinct(1))
    qed
  qed (use 2 in simp)
qed auto

lemma trees_of_tables:
  "distinct (map fst trees) \<Longrightarrow>
     distinct (map fst (foldl (\<lambda>trees (name, info). AList.update name (g info) trees) trees ts))
     \<and> (\<forall>n. map_of (foldl (\<lambda>trees (name, info). AList.update name (g info) trees) trees ts) n = None
          \<longleftrightarrow> map_of trees n = None \<and> map_of ts n = None)"
proof (induction ts arbitrary: trees)
  case (Cons t ts)
  obtain name info where t: "t = (name, info)" by (cases t)
  show ?case using Cons.IH [of "AList.update name (g info) trees"] Cons.prems
    by (simp add: t distinct_update update_conv')
qed simp

lemma open_wf:
  assumes "lf_open p uri bs = Inr (p', sentinel)" "registry_wf p"
  shows "registry_wf p'"
proof -
  consider "lf_opened p" | pg where "\<not> lf_opened p" "pager_open bs = Inr pg"
    using assms(1) by (auto simp: lf_open_def Let_def sentinel_def db_error_def split: sum.splits exn.splits if_splits)
  then show ?thesis
  proof cases
    case (2 pg)
    show ?thesis
    proof (cases "pg_pageCount pg \<le> 1")
      case True
      then obtain pg1 meta q where "save_registry (p\<lparr>lf_path := strip_file uri, lf_pager := Some pg1, lf_meta_page := meta\<rparr>) = Inr q"
          "p' = q\<lparr>lf_opened := True\<rparr>"
        using assms(1) 2 by (auto simp: lf_open_def Let_def rbind_Inr_iff)
      then show ?thesis using save_registry_wf assms(2) by (fastforce simp: registry_wf_def)
    next
      case False
      let ?trees = "\<lambda>md. foldl (\<lambda>trees (name, info). AList.update name (Some (ti_rootPageId info)) trees) (lf_trees p) (md_tables md)"
      obtain md where md: "loadMetadata 1 pg (lf_md p) = Inr (md, True)"
          "p' = p\<lparr>lf_path := strip_file uri, lf_pager := Some pg, lf_meta_page := 1, lf_md := md, lf_opened := True, lf_trees := ?trees md\<rparr>"
        using assms(1) 2 False
        by (auto simp: lf_open_def Let_def rbind_Inr_iff db_error_def sentinel_def split: if_splits)
      have "distinct (map fst (md_tables md)) \<and> (\<forall>n i. map_of (md_tables md) n = Some i \<longrightarrow> sc_table (ti_schema i) = n)
          \<and> (\<forall>n. map_of (md_tables md) n = None \<longrightarrow> map_of (md_tables (lf_md p)) n = None)"
        using md(1) assms(2)
        by (auto simp: loadMetadata_def decode_metadata_def rbind_Inr_iff registry_wf_def dest!: load_tables_names split: option.splits)
      then show ?thesis using md(2) assms(2) trees_of_tables [of "lf_trees p" "\<lambda>i. Some (ti_rootPageId i)" "md_tables md"]
        by (simp add: registry_wf_def) blast
    qed
  qed (use assms in \<open>simp add: lf_open_def\<close>)
qed

lemma close_wf:
  assumes "lf_close p = Inr (p', bs, e)" "registry_wf p"
  shows "registry_wf p'"
proof -
  have names: "map fst (map (\<lambda>(n, r). (n, None)) ts) = map fst ts"
      "map_of (map (\<lambda>(n, r). (n, None)) ts) n = None \<longleftrightarrow> map_of ts n = None" for ts :: "(string \<times> PageId option) list" and n
    by (induction ts) auto
  show ?thesis
  proof (cases "lf_opened p")
    case True
    then obtain q where q: "save_registry p = Inr q"
        "p' = q\<lparr>lf_pager := None, lf_opened := False, lf_trees := map (\<lambda>(n, r). (n, None)) (lf_trees q)\<rparr>"
      using assms(1) by (auto simp: lf_close_def rbind_Inr_iff)
    then have "registry_wf q" using save_registry_wf assms(2) by simp
    then show ?thesis by (simp add: q(2) registry_wf_def names del: map_map)
  qed (use assms in \<open>simp add: lf_close_def\<close>)
qed

lemma backup_wf: "lf_backupTo p ec = Inr (p', bs, e) \<Longrightarrow> registry_wf p \<Longrightarrow> registry_wf p'"
  by (auto simp: lf_backupTo_def rbind_Inr_iff save_registry_wf split: if_splits option.splits)

lemmas lf_step_wf = open_wf close_wf backup_wf create_wf drop_wf alter_wf put_wf remove_wf commit_wf


section \<open>Rows\<close>

definition staged_entry :: "TxnId \<Rightarrow> Value \<Rightarrow> Tuple \<Rightarrow> LeafEntry" where
  "staged_entry txn key row = \<lparr>le_key = key, le_commitSeq = 0, le_txnId = txn, le_tombstone = False, le_payload = row\<rparr>"


lemma lookup_insert_new:
  assumes "\<forall>f \<in> set es. \<not> of_key key f" "le_key e = key" "not_nan key"
  shows "lookup_leaf key txn vs (insert_entry e es) = (if visible_entry txn vs e then found_entry e else no_result)"
proof -
  obtain xs ys where split: "es = xs @ ys" "insert_entry e es = xs @ e # ys" using insert_entry_split [of es e] by blast
  have "of_key key e" using assms(2,3) by (simp add: of_key_eqv vo.eqv_refl)
  then have "filter (of_key key) (insert_entry e es) = [e]" using assms(1) unfolding split(2) by (simp add: split(1) filter_empty_conv)
  then show ?thesis unfolding lookup_leaf_def of_key_def [symmetric] find_conj_filter by simp
qed

text \<open>
  An insertion into a table file: the call reports success, the inserting transaction reads the
  new row, every other transaction finds no row under the key, and the rows of the other keys are
  unchanged for everyone.
\<close>
theorem file_insert_isolated:
  assumes "lf_pager p = Some pg" "map_of (lf_trees p) table = Some (Some (page_of t))"
    and "pg_ok pg" "tree_at pg t" "tree_ok t" "\<forall>f \<in> set (inorder t). leaf_entry_fits f"
    and "\<not> isNull key" "not_nan key" "leaf_entry_fits (staged_entry txn key row)" "has_room pg (page_of t) (staged_entry txn key row)"
    and "\<forall>f \<in> set (inorder t). \<not> of_key key f"
  shows "\<exists>p'. lf_put p txn table key row = Some (Inr (p', sentinel))
    \<and> lf_get p' txn table key = Some (Inr (Some row))
    \<and> (\<forall>u. u \<noteq> txn \<longrightarrow> lf_get p' u table key = Some (Inr None))
    \<and> (\<forall>u k. not_nan k \<and> \<not> of_key k (staged_entry txn key row) \<longrightarrow> lf_get p' u table k = lf_get p u table k)"
proof -
  define e where "e = staged_entry txn key row"
  note assms = assms [folded e_def]
  have key: "le_key e = key" by (simp add: e_def staged_entry_def)
  obtain pg' i sib es where put: "bt_put pg (page_of t) e = Some (Inr (pg', page_of t, True))" "(i, sib, es) \<in> set (leaves t)"
      "\<forall>u vs. bt_get pg' (page_of t) key u vs = Some (Inr (lookup_leaf key u vs (insert_entry e es)))"
      "\<forall>k u vs. not_nan k \<and> \<not> of_key k e \<longrightarrow> bt_get pg' (page_of t) k u vs = bt_get pg (page_of t) k u vs"
    using put_step [OF assms(3-6,9) _ assms(10)] assms(8) key by auto
  have "\<forall>f \<in> set es. \<not> of_key key f" using put(2) assms(11) by (auto simp: inorder_leaves)
  note new = lookup_insert_new [OF this key assms(8)]
  define p' where "p' = syncRoot table (page_of t) (p\<lparr>lf_pager := Some pg', lf_trees := AList.update table (Some (page_of t)) (lf_trees p)\<rparr>)"
  have p': "lf_put p txn table key row = Some (Inr (p', sentinel))"
    using assms(1,2,7) put(1) by (simp add: lf_put_def tree_root_def the_pager_def tree_put_def obind_def e_def staged_entry_def p'_def Let_def)
  have root: "tree_root p' table = Some (Inr (pg', page_of t))" "tree_root p table = Some (Inr (pg, page_of t))"
    using assms(1,2) by (simp_all add: p'_def syncRoot_def adjust_info_def set_tables_def Let_def tree_root_def the_pager_def update_conv')
  have seq: "md_visible_seq (lf_md p') = md_visible_seq (lf_md p)"
    by (simp add: p'_def syncRoot_def adjust_info_def set_tables_def Let_def)
  have "lf_get p' u table key = Some (Inr (if u = txn then Some row else None))" for u
    using root(1) put(3) new [of u] by (simp add: lf_get_def obind_def visible_entry_def found_entry_def no_result_def e_def staged_entry_def)
  moreover have "lf_get p' u table k = lf_get p u table k" if "not_nan k" "\<not> of_key k e" for u k
    using root put(4) that by (simp add: lf_get_def obind_def seq)
  ultimately show ?thesis using p' unfolding e_def by auto
qed

section \<open>Closing and opening again\<close>

fun pages :: "bt \<Rightarrow> PageId set" where
  "pages (BLeaf i sib es) = {i}"
| "pages (BNode i cs) = insert i (\<Union>c \<in> set cs. pages (snd c))"

lemma tree_at_frame: "tree_at pg t \<Longrightarrow> \<forall>j \<in> pages t. loadNode pg' j = loadNode pg j \<Longrightarrow> tree_at pg' t"
  by (induction t rule: inorder.induct) auto

text \<open>The trees that the provider uses are the ones that the registry names.\<close>

definition roots_synced :: "LFProvider \<Rightarrow> bool" where
  "roots_synced p \<longleftrightarrow> (\<forall>n i. map_of (md_tables (lf_md p)) n = Some i \<longrightarrow> map_of (lf_trees p) n = Some (Some (ti_rootPageId i)))"

lemma fold_trees:
  "distinct (map fst ts) \<Longrightarrow> map_of (foldl (\<lambda>trees (name, info). AList.update name (g info) trees) trees ts) n
     = (case map_of ts n of Some i \<Rightarrow> Some (g i) | None \<Rightarrow> map_of trees n)"
proof (induction ts arbitrary: trees)
  case (Cons t ts)
  obtain name info where t: "t = (name, info)" by (cases t)
  have "map_of ts name = None" using Cons.prems by (auto simp: t map_of_eq_None_iff)
  then show ?case using Cons.IH [of "AList.update name (g info) trees"] Cons.prems
    by (auto simp: t update_conv' split: option.splits)
qed simp

lemma map_of_stored: "map_of (map stored_table ts) n = map_option (\<lambda>i. i\<lparr>ti_schema := stored_schema (ti_schema i)\<rparr>) (map_of ts n)"
  by (induction ts) (auto simp: stored_table_def)

lemma restart:
  assumes "lf_opened p" "lf_pager p = Some pg" "lf_meta_page p = 1" "roots_synced p" "metadata_ok (lf_md p)"
    and "pg_ok pg" "pg_isOpen pg" "pg_magic pg = MAGIC" "1 < pg_pageCount pg"
    and "length (saveFreeRuns (pg_alloc pg)) \<le> kMaxPersistedRuns"
  shows "\<exists>p' bs q. lf_close p = Inr (p', Some bs, sentinel) \<and> lf_open lf_init uri bs = Inr (q, sentinel) \<and> lf_opened q
    \<and> md_visible_seq (lf_md q) = md_visible_seq (lf_md p)
    \<and> (\<forall>n. lf_describeTable q n = map_option stored_schema (lf_describeTable p n))
    \<and> (\<forall>n i t u k. map_of (md_tables (lf_md p)) n = Some i \<and> ti_rootPageId i = page_of t \<and> tree_at pg t \<and> tree_ok t
         \<and> 1 \<notin> pages t \<and> not_nan k \<longrightarrow> lf_get q u n k = lf_get p u n k)"
proof -
  let ?md = "(lf_md p)\<lparr>md_tables := map stored_table (md_tables (lf_md p))\<rparr>"
  obtain pg1 where pg1: "saveMetadata 1 (lf_md p) pg = Inr pg1" "pg_ok pg1"
      "loadMetadata 1 pg1 (lf_md lf_init) = Inr (?md, True)" "\<forall>j. j \<noteq> 1 \<longrightarrow> readPage pg1 j = readPage pg j"
      "pg1 = pg\<lparr>pg_file := pg_file pg1\<rparr>"
    using metadata_saved [OF assms(6,5), of 1 "lf_md lf_init"] assms(9) by (auto simp: lf_init_def)
  have same: "pg_isOpen pg1" "pg_magic pg1 = MAGIC" "pg_pageCount pg1 = pg_pageCount pg" "pg_alloc pg1 = pg_alloc pg"
    using assms(7,8) by (subst pg1(5), simp)+
  obtain pg2 where pg2: "pager_open (pg_file (pager_close pg1)) = Inr pg2" "pg_pageCount pg2 = pg_pageCount pg"
      "\<forall>i. readPage pg2 i = readPage pg1 i"
    using reopen_valid [OF pg1(2) same(1,2)] assms(10) same(3,4) by auto
  have ld: "loadMetadata 1 pg2 (lf_md lf_init) = Inr (?md, True)" using pg1(3) pg2(3) by (simp add: loadMetadata_def)
  define q where "q = lf_init\<lparr>lf_path := strip_file uri, lf_pager := Some pg2, lf_meta_page := 1, lf_md := ?md, lf_opened := True,
      lf_trees := foldl (\<lambda>trees (name, info). AList.update name (Some (ti_rootPageId info)) trees) [] (md_tables ?md)\<rparr>"
  have opn: "lf_open lf_init uri (pg_file (pager_close pg1)) = Inr (q, sentinel)"
    using pg2(1,2) ld assms(9) by (simp add: lf_open_def lf_init_def q_def Let_def)
  obtain p' where cls: "lf_close p = Inr (p', Some (pg_file (pager_close pg1)), sentinel)"
    using assms(1-3) pg1(1) by (simp add: lf_close_def save_registry_def the_pager_def)
  have desc: "lf_describeTable q n = map_option stored_schema (lf_describeTable p n)" for n
    by (simp add: lf_describeTable_def q_def map_of_stored option.map_comp comp_def)
  have get: "lf_get q u n k = lf_get p u n k"
    if reg: "map_of (md_tables (lf_md p)) n = Some i" "ti_rootPageId i = page_of t" and t: "tree_at pg t" "tree_ok t" "1 \<notin> pages t" "not_nan k"
    for n i t u k
  proof -
    have "loadNode pg2 j = loadNode pg j" if "j \<in> pages t" for j
    proof -
      have "j \<noteq> 1" using that t(3) by auto
      then have "readPage pg2 j = readPage pg j" using pg1(4) pg2(3) by simp
      then show ?thesis by (simp add: loadNode_def)
    qed
    then have "tree_at pg2 t" using tree_at_frame [OF t(1)] by blast
    then have "bt_get pg2 (page_of t) k u vs = bt_get pg (page_of t) k u vs" for vs
      using tree_lookup [OF _ t(2,4)] t(1) by simp
    moreover have "tree_root q n = Some (Inr (pg2, page_of t))"
      using reg assms(5) fold_trees [of "md_tables ?md" "\<lambda>i. Some (ti_rootPageId i)" "[]" n]
      by (simp add: tree_root_def the_pager_def q_def map_of_stored metadata_ok_def stored_table_def comp_def)
    moreover have "tree_root p n = Some (Inr (pg, page_of t))"
      using reg assms(2,4) by (simp add: tree_root_def the_pager_def roots_synced_def)
    ultimately show ?thesis by (simp add: lf_get_def obind_def q_def)
  qed
  have "lf_opened q" "md_visible_seq (lf_md q) = md_visible_seq (lf_md p)" by (simp_all add: q_def)
  then show ?thesis using opn cls desc get
    by (intro exI [of _ p'] exI [of _ "pg_file (pager_close pg1)"] exI [of _ q]) (simp only: simp_thms, blast)
qed


section \<open>Backups\<close>

text \<open>The header on disk is the one that the pager would write now.\<close>

definition header_current :: "Pager \<Rightarrow> bool" where
  "header_current pg \<longleftrightarrow> read_at (pg_file pg) 0 = Some (header_page pg)"

lemma write_same: "read_at file 0 = Some data \<Longrightarrow> write_at 0 data file = file"
  by (auto simp: read_at_def write_at_def Let_def split: if_splits)

lemma close_current: "header_current pg \<Longrightarrow> pg_isOpen pg \<Longrightarrow> 1 \<le> pg_pageCount pg \<Longrightarrow> pg_file (pager_close pg) = pg_file pg"
  by (simp add: header_current_def pager_close_def flushHeader_ok write_same)

lemma saved_header:
  assumes "saveMetadata 1 md pg = Inr pg1" "pg_ok pg" "1 < pg_pageCount pg" "header_current pg"
  shows "header_current pg1"
proof -
  define data where "data = enc_metadata md @ replicate (DATA_PAGE_PAYLOAD_SIZE - length (enc_metadata md)) 0"
  have d: "length data = DATA_PAGE_PAYLOAD_SIZE" "pg1 = pg\<lparr>pg_file := write_at (1 * PAGE_SIZE) (data_page data) (pg_file pg)\<rparr>"
    unfolding data_def using assms(1,3) by (auto simp: saveMetadata_def Let_def writePage_def writeRaw_def put_page_def rbind_Inr_iff split: if_splits)
  then have "read_at (pg_file pg1) (0 * PAGE_SIZE) = read_at (pg_file pg) (0 * PAGE_SIZE)"
    using assms(2,3) read_write_other [of 1 "pg_pageCount pg" "pg_file pg" "data_page data" 0] by (simp add: pg_ok_def)
  moreover have "header_page pg1 = header_page pg" using d(2) by (simp add: header_page_def persisted_runs_def)
  ultimately show ?thesis using assms(4) by (simp add: header_current_def)
qed

lemma backup_as_close:
  assumes "lf_close p = Inr (p', Some bs, sentinel)" "lf_opened p" "lf_pager p = Some pg" "lf_meta_page p = 1" "pg_ok pg" "pg_isOpen pg" "1 < pg_pageCount pg"
    and "header_current pg" "lf_path p \<noteq> []" "None \<notin> snd ` set (lf_trees p)"
  shows "\<exists>p1. lf_backupTo p None = Inr (p1, Some bs, sentinel) \<and> lf_opened p1 \<and> lf_md p1 = lf_md p \<and> lf_trees p1 = lf_trees p"
proof -
  obtain pg1 where pg1: "saveMetadata 1 (lf_md p) pg = Inr pg1" "bs = pg_file (pager_close pg1)"
    using assms(1-4) by (auto simp: lf_close_def save_registry_def the_pager_def rbind_Inr_iff)
  then have "header_current pg1" "pg_isOpen pg1" "1 \<le> pg_pageCount pg1"
    using saved_header [OF pg1(1) assms(5,7,8)] assms(6,7)
    by (auto simp: saveMetadata_def Let_def writePage_def writeRaw_def put_page_def rbind_Inr_iff split: if_splits)
  then have "bs = pg_file pg1" using close_current pg1(2) by simp
  then show ?thesis using assms pg1(1) by (auto simp: lf_backupTo_def save_registry_def the_pager_def rbind_def)
qed

text \<open>
  A backup restores: while the header on disk is current, the copy of an open provider is what closing it would leave behind. A
  fresh provider opens it without error, with the same commit sequence, tables and rows; the provider itself stays open.
\<close>

theorem backup_restores:
  assumes "lf_opened p" "lf_pager p = Some pg" "lf_meta_page p = 1" "roots_synced p" "metadata_ok (lf_md p)"
    and "pg_ok pg" "pg_isOpen pg" "pg_magic pg = MAGIC" "1 < pg_pageCount pg" "length (saveFreeRuns (pg_alloc pg)) \<le> kMaxPersistedRuns"
    and "header_current pg" "lf_path p \<noteq> []" "None \<notin> snd ` set (lf_trees p)"
  shows "\<exists>p1 bs q. lf_backupTo p None = Inr (p1, Some bs, sentinel) \<and> lf_opened p1 \<and> lf_md p1 = lf_md p
    \<and> lf_open lf_init uri bs = Inr (q, sentinel) \<and> md_visible_seq (lf_md q) = md_visible_seq (lf_md p)
    \<and> (\<forall>n. lf_describeTable q n = map_option stored_schema (lf_describeTable p n))
    \<and> (\<forall>n i t u k. map_of (md_tables (lf_md p)) n = Some i \<and> ti_rootPageId i = page_of t \<and> tree_at pg t \<and> tree_ok t
         \<and> 1 \<notin> pages t \<and> not_nan k \<longrightarrow> lf_get q u n k = lf_get p u n k)"
proof -
  obtain p' bs q where r: "lf_close p = Inr (p', Some bs, sentinel)" "lf_open lf_init uri bs = Inr (q, sentinel)"
      "md_visible_seq (lf_md q) = md_visible_seq (lf_md p)" "\<forall>n. lf_describeTable q n = map_option stored_schema (lf_describeTable p n)"
      "\<forall>n i t u k. map_of (md_tables (lf_md p)) n = Some i \<and> ti_rootPageId i = page_of t \<and> tree_at pg t \<and> tree_ok t
         \<and> 1 \<notin> pages t \<and> not_nan k \<longrightarrow> lf_get q u n k = lf_get p u n k"
    using restart [OF assms(1-10), of uri] by (elim exE conjE) blast
  obtain p1 where "lf_backupTo p None = Inr (p1, Some bs, sentinel)" "lf_opened p1" "lf_md p1 = lf_md p"
    using backup_as_close [OF r(1) assms(1-3,6,7,9,11-13)] by blast
  then show ?thesis using r(2-5) by blast
qed

section \<open>Witnesses\<close>

definition file_pager :: Pager where
  "file_pager = demo_pager\<lparr>pg_pageCount := 3, pg_file := replicate 12288 0,
     pg_alloc := \<lparr>freeBuddy = replicate (MAX_CLASS + 1) [], allocated = [True, True, True], bpageCount = 3\<rparr>\<rparr>"

definition file_tree :: bt where
  "file_tree = BLeaf 2 0 [demo_entry 5]"

definition demo_file_provider :: "Pager \<Rightarrow> PageId \<Rightarrow> LFProvider" where
  "demo_file_provider pg root = lf_init\<lparr>lf_opened := True, lf_pager := Some pg, lf_md := demo_metadata, lf_trees := [(''t'', Some root)]\<rparr>"

lemma file_pager_ok: "pg_ok file_pager"
  by (simp add: pg_ok_def file_pager_def demo_pager_def buddy_ok_def VERSION_def PAGE_SIZE_def del: replicate_Suc)

lemma demo_file: "\<exists>pg. pg_ok pg \<and> pg_isOpen pg \<and> pg_magic pg = MAGIC \<and> pg_pageCount pg = 3
    \<and> saveFreeRuns (pg_alloc pg) = [] \<and> tree_at pg file_tree"
proof -
  obtain pg where pg: "pg_ok pg" "loadNode pg 2 = Inr demo_leaf" "pg = file_pager\<lparr>pg_file := pg_file pg\<rparr>"
    using save_then_load [OF file_pager_ok demo_leaf_fits, of 2] by (auto simp: file_pager_def)
  have "pg_isOpen pg" "pg_magic pg = MAGIC" "pg_pageCount pg = 3" "pg_alloc pg = pg_alloc file_pager"
    by (subst pg(3), simp add: file_pager_def demo_pager_def)+
  moreover have "saveFreeRuns (pg_alloc file_pager) = []"
    by (simp add: saveFreeRuns_def file_pager_def MAX_CLASS_def del: replicate_Suc)
  ultimately show ?thesis using pg(1,2) by (intro exI [of _ pg]) (simp add: file_tree_def demo_leaf_def)
qed

lemma demo_file_provider_ready:
  "roots_synced (demo_file_provider pg 2)" "lf_opened (demo_file_provider pg 2)" "lf_pager (demo_file_provider pg 2) = Some pg"
  "lf_meta_page (demo_file_provider pg 2) = 1" "lf_md (demo_file_provider pg 2) = demo_metadata"
  by (simp_all add: roots_synced_def demo_file_provider_def lf_init_def demo_metadata_def)


lemma flushed_current: "pg_ok pg \<Longrightarrow> header_current (flushHeader pg)"
  using read_write_same [of 0 "pg_pageCount pg" "pg_file pg" "header_page pg"]
  by (simp add: header_current_def flushHeader_ok pg_ok_def) (simp add: header_page_def persisted_runs_def)

theorem backup_restores_witness:
  "\<exists>p p1 bs q. lf_backupTo p None = Inr (p1, Some bs, sentinel) \<and> lf_open lf_init ''copy'' bs = Inr (q, sentinel)
     \<and> lf_get q 7 ''t'' (VInt32 5) = lf_get p 7 ''t'' (VInt32 5)"
proof -
  obtain pg where pg: "pg_ok pg" "pg_isOpen pg" "pg_magic pg = MAGIC" "pg_pageCount pg = 3"
      "saveFreeRuns (pg_alloc pg) = []" "tree_at pg file_tree" using demo_file by blast
  let ?pg = "flushHeader pg"
  let ?p = "(demo_file_provider ?pg 2)\<lparr>lf_path := ''db''\<rparr>"
  have keep: "length (pg_file ?pg) = length (pg_file pg)" "readPage ?pg i = readPage pg i" for i
    using flushHeader_keeps [of pg] pg(1) by (simp_all add: pg_ok_def)
  have fields: "?pg = pg\<lparr>pg_file := pg_file ?pg\<rparr>" using pg(4) by (simp add: flushHeader_ok)
  have ok: "pg_isOpen ?pg" "pg_magic ?pg = MAGIC" "pg_pageCount ?pg = 3" "pg_alloc ?pg = pg_alloc pg" "pg_version ?pg = pg_version pg"
    using pg(2-4) by (subst fields, simp)+
  then have live: "pg_ok ?pg" "tree_at ?pg file_tree" using pg(1,4,6) keep by (simp_all add: pg_ok_def file_tree_def loadNode_def)
  obtain i where i: "map_of (md_tables (lf_md ?p)) ''t'' = Some i" "ti_rootPageId i = page_of file_tree"
    by (simp add: demo_file_provider_def demo_metadata_def file_tree_def)
  have t: "tree_ok file_tree" "1 \<notin> pages file_tree" "not_nan (VInt32 5)" by (simp_all add: file_tree_def demo_entry_def)
  have "None \<notin> snd ` set (lf_trees ?p)" "roots_synced ?p"
    using demo_file_provider_ready(1) [of ?pg] by (simp_all add: roots_synced_def) (simp add: demo_file_provider_def)
  then obtain p1 bs q where "lf_backupTo ?p None = Inr (p1, Some bs, sentinel)" "lf_open lf_init ''copy'' bs = Inr (q, sentinel)"
      "\<forall>n i t u k. map_of (md_tables (lf_md ?p)) n = Some i \<and> ti_rootPageId i = page_of t \<and> tree_at ?pg t \<and> tree_ok t
         \<and> 1 \<notin> pages t \<and> not_nan k \<longrightarrow> lf_get q u n k = lf_get ?p u n k"
    using backup_restores [of ?p ?pg "''copy''"] ok pg(5) live(1) flushed_current [OF pg(1)] demo_metadata_ok demo_file_provider_ready [of ?pg]
    by (auto simp del: lf_init_def)
  then show ?thesis using i t live(2) by blast
qed


theorem file_insert_isolated_witness:
  "\<exists>pg p'. lf_put (demo_file_provider pg 1) 9 ''t'' (VInt32 6) (le_payload (demo_entry 6)) = Some (Inr (p', sentinel))
     \<and> lf_get p' 9 ''t'' (VInt32 6) = Some (Inr (Some (le_payload (demo_entry 6)))) \<and> lf_get p' 8 ''t'' (VInt32 6) = Some (Inr None)"
proof -
  obtain pg where pg: "pg_ok pg" "tree_at pg demo_tree" using demo_tree_at by blast
  let ?row = "le_payload (demo_entry 6)" and ?e = "staged_entry 9 (VInt32 6) (le_payload (demo_entry 6))"
  have e: "leaf_entry_fits ?e" "length (leaf_bytes ?e) = 42" "\<not> same_version ?e (demo_entry 5)"
    using demo_entry_fits [of 6]
    by (simp_all add: staged_entry_def leaf_entry_fits_def leaf_bytes_def leaf_fixed_def same_version_def demo_entry_def)
  have fit: "\<forall>f \<in> set (inorder demo_tree). leaf_entry_fits f" by (simp add: demo_tree_def demo_entry_fits)
  have fresh: "\<forall>f \<in> set (inorder demo_tree). \<not> of_key (VInt32 6) f"
    by (simp add: demo_tree_def demo_entry_def of_key_def value_ne_def compare_def three_way_def d_less_def d_key_double_of_int
        mag_of_nat_def significand_def rne_div_def flog2.simps)
  have "\<exists>p'. lf_put (demo_file_provider pg 1) 9 ''t'' (VInt32 6) ?row = Some (Inr (p', sentinel))
    \<and> lf_get p' 9 ''t'' (VInt32 6) = Some (Inr (Some ?row))
    \<and> (\<forall>u. u \<noteq> 9 \<longrightarrow> lf_get p' u ''t'' (VInt32 6) = Some (Inr None))
    \<and> (\<forall>u k. not_nan k \<and> \<not> of_key k ?e \<longrightarrow> lf_get p' u ''t'' k = lf_get (demo_file_provider pg 1) u ''t'' k)"
    by (rule file_insert_isolated [OF _ _ pg demo_tree_ok fit _ _ e(1) demo_has_room [OF pg(2) e(2,3)] fresh])
      (simp_all add: demo_file_provider_def demo_tree_def)
  moreover have "(8 :: TxnId) \<noteq> 9" by simp
  ultimately show ?thesis by blast
qed

end
