(* ===== verification/Launcher.thy ===== *)
theory Launcher
  imports Http_Server_Laws Local_File_Laws
begin

text \<open>
  The launcher, \<open>src/main.cpp\<close>: the command line, the provider for a storage URI and the choice between the REPL and the HTTP
  server. The file system is an argument: the bytes of a path (an empty file when it is created), or \<open>None\<close> when the file can be neither
  opened nor created. A number that \<open>std::stoull\<close> refuses leaves by an exception that nothing catches.
\<close>

section \<open>Flags\<close>

record options =
  op_uri :: string
  op_shards :: nat
  op_port :: nat
  op_workers :: nat
  op_queryTimeout :: nat
  op_server :: bool

definition options_init :: options where
  "options_init = \<lparr>op_uri = ''in-memory://'', op_shards = 0, op_port = 8080, op_workers = 4, op_queryTimeout = 0, op_server = False\<rparr>"

text \<open>How the program ends before it has a provider: with an exit status, or by an exception.\<close>

datatype ended = Exit nat | Thrown exn

definition valued_flags :: "string list" where
  "valued_flags = [''--uri'', ''--shards'', ''--port'', ''--workers'', ''--query-timeout'']"

text \<open>The value of a flag; a port is cut to 16 bits.\<close>

definition set_option :: "string \<Rightarrow> string \<Rightarrow> options \<Rightarrow> ended + options" where
  "set_option arg v opt =
     (if arg = ''--uri'' then Inr (opt\<lparr>op_uri := v\<rparr>)
      else case stoull_front v of
             None \<Rightarrow> Inl (Thrown (InvalidArgument ''stoull''))
           | Some n \<Rightarrow>
               Inr (if arg = ''--shards'' then opt\<lparr>op_shards := n\<rparr>
                    else if arg = ''--port'' then opt\<lparr>op_port := n mod 2 ^ 16\<rparr>
                    else if arg = ''--workers'' then opt\<lparr>op_workers := n\<rparr>
                    else opt\<lparr>op_queryTimeout := n\<rparr>))"

fun parse_args :: "string list \<Rightarrow> options \<Rightarrow> ended + options" where
  "parse_args [] opt = Inr opt"
| "parse_args (arg # args) opt =
     (if arg = ''--help'' \<or> arg = ''-h'' then Inl (Exit 0)
      else if arg = ''--server'' then parse_args args (opt\<lparr>op_server := True\<rparr>)
      else if arg \<in> set valued_flags then
        (case args of
           [] \<Rightarrow> Inl (Exit 2)
         | v # rest \<Rightarrow> (case set_option arg v opt of Inl e \<Rightarrow> Inl e | Inr opt' \<Rightarrow> parse_args rest opt'))
      else Inl (Exit 2))"

section \<open>Providers\<close>

type_synonym disk = "string \<Rightarrow> bytes option"

definition file_open :: "disk \<Rightarrow> string \<Rightarrow> (LFProvider \<times> DbError) result" where
  "file_open disk uri =
     (case disk (strip_file uri) of
        Some bs \<Rightarrow> lf_open lf_init uri bs
      | None \<Rightarrow> Inr (lf_init\<lparr>lf_path := strip_file uri\<rparr>,
          db_error Internal (''LocalFileStorageProvider: cannot open: Pager::openFile: cannot open/create '' @ strip_file uri)))"

definition child_uri :: "string \<Rightarrow> nat \<Rightarrow> string" where
  "child_uri base i = ''file://'' @ base @ ''.'' @ show_nat i"

text \<open>The children in order, or the URI of the first that does not open.\<close>

fun open_children :: "disk \<Rightarrow> string \<Rightarrow> nat list \<Rightarrow> (string + LFProvider list) result" where
  "open_children disk base [] = Inr (Inr [])"
| "open_children disk base (i # is) =
     rbind (file_open disk (child_uri base i)) (\<lambda>(p, e).
       if \<not> isSentinel e then Inr (Inl (child_uri base i))
       else rbind (open_children disk base is) (\<lambda>r. Inr (case r of Inl u \<Rightarrow> Inl u | Inr ps \<Rightarrow> Inr (p # ps))))"

text \<open>
  The provider that the program runs on. The sharded provider is given by its open children: its own \<open>open\<close> on children that are open
  already only rebuilds the catalogue and cannot fail (\<open>sp_open\<close>).
\<close>

datatype launched = In_Memory IMProvider | Local_Files LFProvider | Sharded_Files "LFProvider list"

text \<open>\<open>makeProvider\<close>: the message on the error stream and the provider, \<open>None\<close> for a null pointer.\<close>

definition makeProvider :: "disk \<Rightarrow> string \<Rightarrow> nat \<Rightarrow> (string \<times> launched option) result" where
  "makeProvider disk uri shards =
     (if uri = ''in-memory://'' then
        (case ip_open ip_init uri of (p, e) \<Rightarrow> Inr ([], if isSentinel e then Some (In_Memory p) else None))
      else if take 7 uri = ''file://'' then
        rbind (file_open disk uri) (\<lambda>(p, e).
          Inr (if isSentinel e then ([], Some (Local_Files p)) else (''opendb: cannot open '' @ quoted uri, None)))
      else if take 15 uri = ''sharded+file://'' then
        (if shards = 0 then Inr (''opendb: sharded+file:// requires --shards <n>'', None)
         else rbind (open_children disk (drop 15 uri) [0..<shards]) (\<lambda>r.
           Inr (case r of
                  Inl u \<Rightarrow> (''opendb: cannot open shard '' @ quoted u, None)
                | Inr ps \<Rightarrow> ([], Some (Sharded_Files ps)))))
      else Inr (''opendb: unknown storage URI '' @ quoted uri, None))"

text \<open>\<open>main\<close> up to the front end: what it starts with, or how it ends.\<close>

definition launch :: "disk \<Rightarrow> string list \<Rightarrow> ended + (options \<times> launched)" where
  "launch disk args =
     (case parse_args args options_init of
        Inl e \<Rightarrow> Inl e
      | Inr opt \<Rightarrow>
          (case makeProvider disk (op_uri opt) (op_shards opt) of
             Inl e \<Rightarrow> Inl (Thrown e)
           | Inr (_, None) \<Rightarrow> Inl (Exit 1)
           | Inr (_, Some p) \<Rightarrow> Inr (opt, p)))"

section \<open>Laws\<close>

definition flags_of :: "options \<Rightarrow> string list" where
  "flags_of opt =
     [''--uri'', op_uri opt, ''--shards'', show_nat (op_shards opt), ''--port'', show_nat (op_port opt),
      ''--workers'', show_nat (op_workers opt), ''--query-timeout'', show_nat (op_queryTimeout opt)]
     @ (if op_server opt then [''--server''] else [])"

lemma stoull_show: "n < 2 ^ 64 \<Longrightarrow> stoull_front (show_nat n) = Some n"
proof -
  assume n: "n < 2 ^ 64"
  have d: "\<forall>c \<in> set (show_nat n). is_digit c" by (rule show_nat_digits)
  have h: "hd (show_nat n) \<in> set (show_nat n)" by simp
  have "dropWhile isspace (show_nat n) = show_nat n" "after_sign (show_nat n) = show_nat n" "hd (show_nat n) \<noteq> CHR ''-''"
    using d h by (cases "show_nat n"; auto simp: isspace_def is_digit_def less_eq_char_def after_sign_def sign_char_def)+
  moreover have t: "takeWhile is_digit (show_nat n) = show_nat n" using d by simp
  ultimately show ?thesis using n by (simp add: stoull_front_def Let_def t)
qed

text \<open>
  The command line round trip: the flags that spell out a configuration are read back as exactly it, whatever the configuration before.
\<close>

theorem flags_roundtrip:
  assumes "op_shards opt < 2 ^ 64" "op_port opt < 2 ^ 16" "op_workers opt < 2 ^ 64" "op_queryTimeout opt < 2 ^ 64"
  shows "parse_args (flags_of opt) (opt0\<lparr>op_server := False\<rparr>) = Inr opt"
proof -
  have "op_port opt < 2 ^ 64" using assms(2) by simp
  then show ?thesis using assms by (simp add: flags_of_def valued_flags_def set_option_def stoull_show)
qed

theorem flags_roundtrip_witness:
  "parse_args (flags_of (options_init\<lparr>op_uri := ''file://x'', op_server := True\<rparr>)) options_init
     = Inr (options_init\<lparr>op_uri := ''file://x'', op_server := True\<rparr>)"
  using flags_roundtrip [of "options_init\<lparr>op_uri := ''file://x'', op_server := True\<rparr>" options_init] by (simp add: options_init_def)

lemma opened_path: "file_open disk uri = Inr (p, e) \<Longrightarrow> isSentinel e \<Longrightarrow> lf_path p = strip_file uri"
  by (auto simp: file_open_def lf_open_def lf_init_def Let_def rbind_Inr_iff save_registry_def isSentinel_def sentinel_def db_error_def
      split: option.splits sum.splits exn.splits if_splits)

lemma child_added: "(case r of Inl u \<Rightarrow> Inl u | Inr ps \<Rightarrow> Inr (p # ps)) = Inr qs \<longleftrightarrow> (\<exists>ps. r = Inr ps \<and> qs = p # ps)"
  by (cases r) auto

lemma opened_children:
  "open_children disk base is = Inr (Inr ps) \<Longrightarrow> map lf_path ps = map (\<lambda>i. base @ ''.'' @ show_nat i) is"
  by (induction "is" arbitrary: ps)
    (auto simp: rbind_Inr_iff child_added opened_path child_uri_def strip_file_def split: if_splits)

text \<open>
  Every shard has a file of its own: a sharded URI with \<open>n\<close> shards that opens gives \<open>n\<close> open file providers, on \<open>n\<close> different paths.
\<close>

theorem shards_have_own_files:
  assumes "makeProvider disk (''sharded+file://'' @ base) n = Inr (msg, Some p)"
  shows "\<exists>ps. p = Sharded_Files ps \<and> length ps = n \<and> 0 < n \<and> map lf_path ps = map (\<lambda>i. base @ ''.'' @ show_nat i) [0..<n]
    \<and> distinct (map lf_path ps)"
proof -
  obtain r where r: "0 < n" "open_children disk base [0..<n] = Inr r"
      "(case r of Inl u \<Rightarrow> (''opendb: cannot open shard '' @ quoted u, None) | Inr ps \<Rightarrow> ([], Some (Sharded_Files ps))) = (msg, Some p)"
    using assms by (auto simp: makeProvider_def rbind_Inr_iff split: if_splits)
  then obtain ps where ps: "p = Sharded_Files ps" "0 < n" "open_children disk base [0..<n] = Inr (Inr ps)" by (cases r) auto
  have "map lf_path ps = map (\<lambda>i. base @ ''.'' @ show_nat i) [0..<n]" by (rule opened_children [OF ps(3)])
  moreover from this have "length ps = n" by (metis length_map length_upt minus_nat.diff_0)
  moreover have "distinct (map (\<lambda>i. base @ ''.'' @ show_nat i) [0..<n])" by (simp add: distinct_map inj_on_def show_nat_inj)
  ultimately show ?thesis using ps by simp
qed

theorem shards_have_own_files_witness:
  "\<exists>disk ps. makeProvider disk ''sharded+file://x'' 2 = Inr ([], Some (Sharded_Files ps)) \<and> length ps = 2 \<and> distinct (map lf_path ps)"
proof -
  obtain pg where pg: "pg_ok pg" "pg_isOpen pg" "pg_magic pg = MAGIC" "pg_pageCount pg = 3" "saveFreeRuns (pg_alloc pg) = []" using demo_file by blast
  let ?p = "demo_file_provider pg 2"
  have r: "\<exists>p' bs q. lf_close ?p = Inr (p', Some bs, sentinel) \<and> lf_open lf_init uri bs = Inr (q, sentinel)" for uri
    using restart [of ?p pg uri] pg demo_file_provider_ready demo_metadata_ok by simp blast
  then obtain p' bs where bs: "lf_close ?p = Inr (p', Some bs, sentinel)" by blast
  then have o: "\<exists>q. file_open (\<lambda>_. Some bs) uri = Inr (q, sentinel)" for uri using r [of uri] by (auto simp: file_open_def)
  have "isSentinel sentinel" by (simp add: isSentinel_def sentinel_def db_error_def)
  then obtain ps where "makeProvider (\<lambda>_. Some bs) (''sharded+file://'' @ ''x'') 2 = Inr ([], Some (Sharded_Files ps))"
    using o [of "child_uri ''x'' 0"] o [of "child_uri ''x'' 1"] by (auto simp: makeProvider_def rbind_def upt_rec [of _ 2])
  then show ?thesis using shards_have_own_files [of "\<lambda>_. Some bs" "''x''" 2 "[]"] by fastforce
qed

text \<open>Ends before a front end: a missing value and an unknown flag exit with 2, an unknown URI with 1, help with 0.\<close>

lemma launch_ends:
  "arg \<in> set valued_flags \<Longrightarrow> launch disk [arg] = Inl (Exit 2)"
  "launch disk (''--help'' # args) = Inl (Exit 0)"
  "launch disk [''--uri'', ''memory''] = Inl (Exit 1)"
  "launch disk [''--server''] = Inr (options_init\<lparr>op_server := True\<rparr>, In_Memory (ip_init\<lparr>ip_opened := True\<rparr>))"
  by (auto simp: launch_def valued_flags_def set_option_def options_init_def makeProvider_def ip_open_def isSentinel_def sentinel_def db_error_def)

end
