(* ===== verification/Spec2Isabelle.thy ===== *)
theory Spec2Isabelle
  imports Caching Sharded_Provider Launcher
begin

text \<open>
  OpenDB, a small transactional database in C++20: rows are tuples of tagged values, commands run as
  transactions under table and row locks, and storage engines keep the versions of every row. This
  development models the program from its sources (\<open>src/includes/opendb\<close> and \<open>src/src\<close>) as executable
  functions and proves what its parts promise one another.

  \<^bold>\<open>Conventions.\<close> A class is a record (or a datatype), a method a function from the state to the new
  state and the result. The exceptions of the sources are values: \<open>'a result = exn + 'a\<close>, where
  \<open>Inl Undefined\<close> marks an execution to which C++ gives no meaning (a read past a buffer, an unchecked
  index). Errors that a method returns are \<open>DbError\<close> values, \<open>sentinel\<close> is success. Machine integers
  are words (\<open>u8\<close>, \<open>u16\<close>, \<open>u32\<close>, \<open>u64\<close>); doubles are their bit patterns. Loops that can run for ever
  on a damaged file are partial functions with the result \<open>None\<close> for not returning; theorems about
  them state that they return. There is no fuel. \<open>std::map\<close> is a list sorted by the comparator of the
  source; hash maps are association lists, and where the iteration order matters it is a parameter.
  Methods under a mutex are atomic; what interleaves is a step relation.

  \<^bold>\<open>Parts and theories.\<close>

  \<^item> \<open>Prelude\<close>, \<open>Std_Containers\<close>, \<open>Doubles\<close>: integers and byte orders, results, ordered maps and
    sorting over a strict weak order (locale \<open>strict_weak_order\<close>), IEEE doubles.
  \<^item> \<open>Values\<close> (\<open>types/Value.hpp\<close>): tagged values, both comparisons, wire format, hash. The wire format
    round-trips; \<open>compare\<close> is a total preorder without NaN (interpretation \<open>vo\<close>).
  \<^item> \<open>Tuples\<close> (\<open>Column\<close>, \<open>Tuple\<close>, \<open>DbError\<close>, \<open>Result\<close>, \<open>TxnId\<close>), \<open>Predicates\<close> (\<open>Predicate.hpp\<close>),
    \<open>Commands\<close> (\<open>Schema\<close>, \<open>Command\<close>): rows with their index (locale \<open>row_interface\<close>), WHERE trees and
    their meaning, commands and \<open>validate\<close>.
  \<^item> \<open>Transactions\<close>, \<open>Locks\<close>, \<open>Deadlocks\<close> (\<open>core/\<close>): the transaction manager; the lock manager as
    steps between waits, with mutual exclusion, exact wait queues and no lost wake-ups; the wait-for walk.
  \<^item> \<open>Storage_Contract\<close> (\<open>IStorageEngine\<close>), \<open>InMemory_Engine\<close>: the contract of a transactional engine
    as the locale \<open>transactional_store\<close> and the multi-version in-memory engine as its instance \<open>im\<close>:
    commits and aborts are atomic.
  \<^item> \<open>Provider_Contract\<close> (\<open>IStorageProvider\<close>), \<open>InMemory_Provider\<close>: the catalogue as a map of
    schemas (locale \<open>schema_registry\<close>) and the provider that refines it (\<open>ipr\<close>).
  \<^item> \<open>Query\<close>, \<open>Engine_Loop\<close> (\<open>core/EngineLoop.hpp\<close>): SELECT with joins, filter, projection, order and
    window; dispatch of a command over any engine, and the loop over a source.
  \<^item> \<open>Dispatcher\<close> (\<open>EngineDispatcher\<close>): worker threads as interleaved steps of sessions over the lock
    manager and an engine; no lock outlives its session.
  \<^item> \<open>Caching\<close>, \<open>Sharding\<close>, \<open>Sharded_Provider\<close>: the decorators. Sharding keeps the transactional
    contract (locale \<open>shardable\<close> and its \<open>sublocale\<close>).
  \<^item> \<open>Crc32\<close>, \<open>Buddy\<close>, \<open>Page_File\<close> (\<open>Pager.cpp\<close>, \<open>BuddyPageAllocator.cpp\<close>): the file as its bytes;
    the table-driven checksum equals the bitwise one and detects bursts; the buddy allocator hands out
    each page once; pages, header and free pool round-trip.
  \<^item> \<open>Node_Codec\<close>, \<open>BTree_Ops\<close>, \<open>BTree_Reads\<close>, \<open>BTree_Writes\<close> (\<open>BTree.cpp\<close>): node bytes, all tree
    operations, lookups and walks against an abstract tree, insertion and leaf splits.
  \<^item> \<open>File_Metadata\<close>, \<open>Local_File\<close>, \<open>Local_File_Laws\<close> (\<open>LocalFileStorageProvider.hpp\<close>): the registry
    page, the provider and engine over pager and trees, and their laws: registry and trees agree in all
    reachable states, insertions are isolated, a restart and a backup preserve tables and lookups.
  \<^item> \<open>Sql_Lexer\<close>, \<open>Sql_Parser\<close> (\<open>SqlParser.cpp\<close>): tokens, numbers and the recursive-descent parser, every
    loop with its termination. \<open>Sql_Laws\<close>, \<open>Sql_Roundtrip\<close>: a token calculus and the proof that the text of
    every printable command is parsed back as that command. \<open>Sql_Shapes\<close>: what any accepted statement
    satisfies, and the malformed texts that are accepted.
  \<^item> \<open>Json_Text\<close>, \<open>Json_Request\<close> (\<open>JsonEncoder.hpp\<close>): the encoder with Base64 and ISO dates, and the request
    parser. \<open>Json_Laws\<close>: responses are one JSON value, requests are read back.
  \<^item> \<open>Http_Api\<close> (\<open>HttpApi.hpp\<close>, \<open>HttpSession.hpp\<close>): requests and statements on the shared transaction manager,
    lock manager and provider. \<open>Http_Laws\<close>: a JSON query runs its command; an INSERT is published.
  \<^item> \<open>Http_Server\<close> (\<open>HttpServer.cpp\<close>, \<open>HttpServerIoThread.cpp\<close>): rendering, routing, statistics, connections
    and the events of the I/O threads. \<open>Http_Server_Laws\<close>: framing, delivery, the count of connections.
  \<^item> \<open>Repl_Source\<close> (\<open>ReplSource.hpp\<close>, \<open>Result.hpp\<close>): the line language, its literals and printed tables.
  \<^item> \<open>Launcher\<close> (\<open>main.cpp\<close>): flags, the provider for a URI, exit statuses.

  \<^bold>\<open>Interaction.\<close> The engine loop and the dispatcher call the transaction manager, the lock manager, the
  deadlock detector and an engine; engines are a record of operations (\<open>engine_ops\<close>), so the loop is one
  definition for all of them. The file provider is a B+tree per table over one pager, whose pages come
  from the buddy allocator. A request over HTTP goes from the connection to \<open>onClientRequest\<close>, from there to the
  plugin of \<open>Http_Api\<close>, which parses JSON and SQL and runs the command on the server's own managers.

  \<^bold>\<open>Deviations of the code from its documentation\<close> are theorems too: the second reopen of a file resets
  it, a staged update stays hidden behind a committed version, a shared lock is upgraded next to other
  holders, a failed command of the dispatcher is committed, the HTTP server reads no request body and
  answers no request, and others that the manifest lists.

  \<^bold>\<open>Not modelled.\<close> System calls (\<open>SocketUtils.cpp\<close>, the wake pipe, \<open>select\<close>, \<open>fsync\<close>) and the creation of
  threads: what they return is an argument where it matters. The events of the I/O threads are taken one at a time.
  Capability flags, names and the dialect names of type vocabularies are constants that no code reads. The abstract
  classes of \<open>contracts/\<close> have no behaviour beyond the locales and records that stand for them. The programs under
  \<open>example/\<close> only call the library. Not proved are the correctness of splits that reach up to the root of a tree, and the
  transactional contract for the file engine, whose staged versions are hidden by committed ones.
\<close>

end
